(* ===== verification/Prelude.thy ===== *)
theory Prelude
  imports Main "HOL-Library.Word" "HOL-Library.Finite_Map"
begin

unbundle bit_operations_syntax

text \<open>
  Shared vocabulary of the development: the machine types of the Go program, byte slices and
  the big-endian codec of \<^verbatim>\<open>encoding/binary\<close>, clock readings (\<^verbatim>\<open>time.Time\<close>), Go maps as
  finite maps, and the outcome type of code that may panic.  The collections \<open>codec\<close>,
  \<open>clock\<close> and \<open>gomap\<close> carry the component proofs.
\<close>

named_theorems codec \<open>encoding and decoding of byte slices\<close>
named_theorems clock \<open>comparisons of clock readings\<close>
named_theorems gomap \<open>lookups in updated and filtered Go maps\<close>

section \<open>Machine types\<close>

type_synonym byte = "8 word"
type_synonym u16 = "16 word"
type_synonym u32 = "32 word"
type_synonym u64 = "64 word"
type_synonym i64 = "64 word" \<comment> \<open>int64: the same bits, read with \<open>sint\<close>\<close>
type_synonym bytes = "byte list"
type_synonym nodeid = u32

section \<open>Byte slices\<close>

text \<open>
  \<open>slice b i j\<close> is \<^verbatim>\<open>b[i:j]\<close>; \<open>None\<close> is the run-time panic.  (Go tests the upper
  index of a reslice against the capacity; the model tests it against the length, so it panics
  at least as often as the program.)
\<close>

definition slice :: "'a list \<Rightarrow> nat \<Rightarrow> nat \<Rightarrow> 'a list option" where
  "slice b i j = (if i \<le> j \<and> j \<le> length b then Some (take (j - i) (drop i b)) else None)"

lemma slice_eq [codec]: "i \<le> j \<Longrightarrow> j \<le> length b \<Longrightarrow> slice b i j = Some (take (j - i) (drop i b))"
  by (simp add: slice_def)

lemma slice_prefix [codec]: "slice (xs @ ys) 0 (length xs) = Some xs"
  by (simp add: slice_def)

lemma length_ge_split:
  "n \<le> length xs \<Longrightarrow> \<exists>as bs. xs = as @ bs \<and> length as = n"
  by (metis append_take_drop_id length_take min.absorb2)

lemma int_sum_list: "int (sum_list (map f xs)) = sum_list (map (\<lambda>x. int (f x)) xs)"
  by (induction xs) simp_all

lemma distinct_concat_map:
  "sorted_wrt (\<lambda>a b. set (f a) \<inter> set (f b) = {}) xs \<Longrightarrow> (\<And>x. x \<in> set xs \<Longrightarrow> distinct (f x)) \<Longrightarrow>
   distinct (concat (map f xs))"
  by (induction xs) auto

lemma sep_unique:
  "x \<notin> set xs \<Longrightarrow> x \<notin> set xs' \<Longrightarrow> xs @ x # ys = xs' @ x # ys' \<longleftrightarrow> xs = xs' \<and> ys = ys'"
  by (auto simp: append_eq_append_conv2 append_eq_Cons_conv Cons_eq_append_conv)

section \<open>Big-endian integers\<close>

fun be_Uint16 :: "bytes \<Rightarrow> u16 option" where
  "be_Uint16 (b0 # b1 # _) = Some (ucast b1 OR push_bit 8 (ucast b0))"
| "be_Uint16 _ = None"

fun be_Uint32 :: "bytes \<Rightarrow> u32 option" where
  "be_Uint32 (b0 # b1 # b2 # b3 # _) =
     Some (ucast b3 OR push_bit 8 (ucast b2) OR push_bit 16 (ucast b1) OR push_bit 24 (ucast b0))"
| "be_Uint32 _ = None"

fun be_Uint64 :: "bytes \<Rightarrow> u64 option" where
  "be_Uint64 (b0 # b1 # b2 # b3 # b4 # b5 # b6 # b7 # _) =
     Some (ucast b7 OR push_bit 8 (ucast b6) OR push_bit 16 (ucast b5) OR push_bit 24 (ucast b4)
       OR push_bit 32 (ucast b3) OR push_bit 40 (ucast b2) OR push_bit 48 (ucast b1)
       OR push_bit 56 (ucast b0))"
| "be_Uint64 _ = None"

definition be_PutUint16 :: "u16 \<Rightarrow> bytes" where
  "be_PutUint16 v = [ucast (drop_bit 8 v), ucast v]"

definition be_PutUint32 :: "u32 \<Rightarrow> bytes" where
  "be_PutUint32 v = [ucast (drop_bit 24 v), ucast (drop_bit 16 v), ucast (drop_bit 8 v), ucast v]"

lemma length_be_PutUint16 [simp, codec]: "length (be_PutUint16 v) = 2"
  by (simp add: be_PutUint16_def)

lemma length_be_PutUint32 [simp, codec]: "length (be_PutUint32 v) = 4"
  by (simp add: be_PutUint32_def)

lemma be_Uint16_Put [simp, codec]: "be_Uint16 (be_PutUint16 v @ r) = Some v"
proof -
  have "ucast (ucast v :: byte) OR push_bit 8 (ucast (ucast (drop_bit 8 v) :: byte)) = v"
  proof (rule bit_word_eqI)
    fix n assume "n < LENGTH(16)"
    then show "bit (ucast (ucast v :: byte) OR push_bit 8 (ucast (ucast (drop_bit 8 v) :: byte)) :: u16) n
      = bit v n"
      by (cases "n < 8") (auto simp: bit_simps)
  qed
  then show ?thesis by (simp add: be_PutUint16_def)
qed

lemma be_Uint32_Put [simp, codec]: "be_Uint32 (be_PutUint32 v @ r) = Some v"
  unfolding be_PutUint32_def
proof (simp, rule bit_word_eqI)
  fix n assume "n < LENGTH(32)"
  then show "bit (ucast (ucast v :: byte) OR push_bit 8 (ucast (ucast (drop_bit 8 v) :: byte)) OR
      push_bit 16 (ucast (ucast (drop_bit 16 v) :: byte)) OR
      push_bit 24 (ucast (ucast (drop_bit 24 v) :: byte)) :: u32) n = bit v n"
    by (cases "n < 8"; cases "n < 16"; cases "n < 24") (auto simp: bit_simps)
qed

lemma be_Uint16_Put0 [simp, codec]: "be_Uint16 (be_PutUint16 v) = Some v"
  using be_Uint16_Put [of v "[]"] by simp

lemma be_Uint32_Put0 [simp, codec]: "be_Uint32 (be_PutUint32 v) = Some v"
  using be_Uint32_Put [of v "[]"] by simp

lemma byte_bit_high [simp]: "8 \<le> n \<Longrightarrow> \<not> bit (b :: byte) n"
  by (auto dest: bit_imp_le_length)

lemma be_PutUint32_inv: "be_Uint32 b = Some v \<Longrightarrow> be_PutUint32 v = take 4 b"
  by (cases b rule: be_Uint32.cases)
    (auto simp: be_PutUint32_def bit_simps intro!: bit_word_eqI)

lemma be_Uint32_defined: "4 \<le> length b \<Longrightarrow> \<exists>v. be_Uint32 b = Some v"
  by (cases b rule: be_Uint32.cases) auto

lemma be_Uint16_defined: "2 \<le> length b \<Longrightarrow> \<exists>v. be_Uint16 b = Some v"
  by (cases b rule: be_Uint16.cases) auto

lemma be_Uint64_defined: "8 \<le> length b \<Longrightarrow> \<exists>v. be_Uint64 b = Some v"
  by (cases b rule: be_Uint64.cases) auto

text \<open>\<open>uint32_at b i\<close> is \<^verbatim>\<open>binary.BigEndian.Uint32(b[i:i+4])\<close>.\<close>

definition uint32_at :: "bytes \<Rightarrow> nat \<Rightarrow> u32 option" where
  "uint32_at b i = Option.bind (slice b i (i + 4)) be_Uint32"

definition uint16_at :: "bytes \<Rightarrow> nat \<Rightarrow> u16 option" where
  "uint16_at b i = Option.bind (slice b i (i + 2)) be_Uint16"

lemma uint32_at_defined: "i + 4 \<le> length b \<Longrightarrow> \<exists>v. uint32_at b i = Some v"
  by (simp add: uint32_at_def slice_def be_Uint32_defined)

lemma uint16_at_defined: "i + 2 \<le> length b \<Longrightarrow> \<exists>v. uint16_at b i = Some v"
  by (simp add: uint16_at_def slice_def be_Uint16_defined)

lemma uint32_at_Put [codec]:
  "length p = i \<Longrightarrow> uint32_at (p @ be_PutUint32 v @ r) i = Some v"
  by (simp add: uint32_at_def slice_def)

lemma uint16_at_Put [codec]:
  "length p = i \<Longrightarrow> uint16_at (p @ be_PutUint16 v @ r) i = Some v"
  by (simp add: uint16_at_def slice_def)

section \<open>Clock readings\<close>

text \<open>
  A \<^verbatim>\<open>time.Time\<close> obtained from \<^verbatim>\<open>time.Now()\<close> carries a wall clock reading and a monotonic one.
  \<open>Sub\<close>, \<open>Since\<close> and \<open>Before\<close> use the monotonic reading; \<open>Unix\<close>,
  \<open>UnixNano\<close> and \<open>IsZero\<close> the wall clock.  Both are nanoseconds; the wall clock counts
  from the zero value of \<^verbatim>\<open>time.Time\<close>, 1 January of year 1.
\<close>

record gotime =
  wall :: int
  mono :: int

type_synonym duration = int

definition zeroTime :: gotime where
  "zeroTime = \<lparr>wall = 0, mono = 0\<rparr>"

definition IsZero :: "gotime \<Rightarrow> bool" where
  "IsZero t \<longleftrightarrow> wall t = 0"

definition minDuration :: duration where "minDuration = - (2 ^ 63)"
definition maxDuration :: duration where "maxDuration = 2 ^ 63 - 1"

definition Sub :: "gotime \<Rightarrow> gotime \<Rightarrow> duration" where
  "Sub a b = max minDuration (min maxDuration (mono a - mono b))"

definition Before :: "gotime \<Rightarrow> gotime \<Rightarrow> bool" where
  "Before a b \<longleftrightarrow> mono a < mono b"

definition Add :: "gotime \<Rightarrow> duration \<Rightarrow> gotime" where
  "Add t d = \<lparr>wall = wall t + d, mono = mono t + d\<rparr>"

definition nanosecond :: duration where "nanosecond = 1"
definition millisecond :: duration where "millisecond = 1000000"
definition second :: duration where "second = 1000000000"
definition minute :: duration where "minute = 60 * second"

definition unixToInternal :: int where
  "unixToInternal = 62135596800" \<comment> \<open>seconds from year 1 to 1970\<close>

definition UnixNano :: "gotime \<Rightarrow> i64" where
  "UnixNano t = word_of_int (wall t - unixToInternal * second)"

definition Unix :: "gotime \<Rightarrow> i64" where
  "Unix t = word_of_int ((wall t - unixToInternal * second) div second)"

lemmas duration_defs = nanosecond_def millisecond_def second_def minute_def
  minDuration_def maxDuration_def

lemma Sub_less_iff [clock]:
  "minDuration < d \<Longrightarrow> d \<le> maxDuration \<Longrightarrow> Sub a b < d \<longleftrightarrow> mono a - mono b < d"
  by (auto simp: Sub_def)

lemma mono_Add [simp, clock]: "mono (Add t d) = mono t + d"
  by (simp add: Add_def)

lemma wall_Add [simp, clock]: "wall (Add t d) = wall t + d"
  by (simp add: Add_def)

text \<open>
  \<open>spaced gap p q\<close>: if the stamped events \<open>p\<close> and \<open>q\<close> have the same key, the second is at
  least \<open>gap\<close> after the first.
\<close>

definition spaced :: "duration \<Rightarrow> 'k \<times> gotime \<Rightarrow> 'k \<times> gotime \<Rightarrow> bool" where
  "spaced gap p q \<longleftrightarrow> fst p = fst q \<longrightarrow> gap \<le> mono (snd q) - mono (snd p)"

lemma spaced_Pair [simp, clock]:
  "spaced gap (k, t) q \<longleftrightarrow> k = fst q \<longrightarrow> gap \<le> mono (snd q) - mono t"
  by (simp add: spaced_def)

text \<open>Differences of \<open>int64\<close> readings do not wrap between 1970 and 2262.\<close>

lemma sint_diff_nonneg:
  fixes a b :: i64
  assumes "0 \<le> sint a" "0 \<le> sint b"
  shows "sint (a - b) = sint a - sint b"
proof -
  have "sint a < 2 ^ 63" "sint b < 2 ^ 63"
    using sint_lt [of a] sint_lt [of b] by simp_all
  then show ?thesis
    using assms by (simp add: sint_word_ariths signed_take_bit_int_eq_self)
qed

section \<open>Go maps\<close>

definition fm_keep :: "('k \<Rightarrow> 'v \<Rightarrow> bool) \<Rightarrow> ('k, 'v) fmap \<Rightarrow> ('k, 'v) fmap" where
  "fm_keep P m = fmfilter (\<lambda>k. case fmlookup m k of None \<Rightarrow> False | Some v \<Rightarrow> P k v) m"

definition fm_len :: "('k, 'v) fmap \<Rightarrow> nat" where
  "fm_len m = fcard (fmdom m)"

lemma fmlookup_keep [simp, gomap]:
  "fmlookup (fm_keep P m) k =
     (case fmlookup m k of None \<Rightarrow> None | Some v \<Rightarrow> if P k v then Some v else None)"
  by (auto simp: fm_keep_def split: option.splits)

lemma fm_keep_empty [simp]: "fm_keep P fmempty = fmempty"
  by (rule fmap_ext) simp

lemma fm_keep_all: "(\<And>k v. fmlookup m k = Some v \<Longrightarrow> P k v) \<Longrightarrow> fm_keep P m = m"
  by (rule fmap_ext) (auto split: option.splits)

lemma fmdom_keep: "fset (fmdom (fm_keep P m)) = {k. \<exists>v. fmlookup m k = Some v \<and> P k v}"
  by (auto simp: fmlookup_dom_iff split: option.splits if_splits)

lemma fm_len_empty [simp, gomap]: "fm_len fmempty = 0"
  by (simp add: fm_len_def)

lemma fm_len_card: "fm_len m = card {k. fmlookup m k \<noteq> None}"
proof -
  have "{k. fmlookup m k \<noteq> None} = fset (fmdom m)"
    by (auto simp: fmlookup_dom_iff)
  then show ?thesis by (simp add: fm_len_def fcard.rep_eq)
qed

lemma fm_len_upd [simp, gomap]:
  "fm_len (fmupd k v m) = (if fmlookup m k = None then Suc (fm_len m) else fm_len m)"
  by (auto simp: fm_len_def fcard_finsert_if fmlookup_dom_iff)

lemma fm_keep_len_le: "fm_len (fm_keep P m) \<le> fm_len m"
proof -
  have "fmdom (fm_keep P m) |\<subseteq>| fmdom m"
    by (auto simp: fm_keep_def)
  then show ?thesis by (simp add: fm_len_def fcard_mono)
qed

lemma fm_len_drop: "fm_len (fmdrop k m) \<le> fm_len m"
  unfolding fm_len_def by (rule fcard_mono) auto

lemma fm_len_partition:
  "fm_len m = fm_len (fm_keep P m) + fm_len (fm_keep (\<lambda>k v. \<not> P k v) m)"
proof -
  have "fset (fmdom m) = fset (fmdom (fm_keep P m)) \<union> fset (fmdom (fm_keep (\<lambda>k v. \<not> P k v) m))"
    by (auto simp: fmdom_keep fmlookup_dom_iff)
  moreover have "fset (fmdom (fm_keep P m)) \<inter> fset (fmdom (fm_keep (\<lambda>k v. \<not> P k v) m)) = {}"
    by (auto simp: fmdom_keep)
  ultimately show ?thesis
    by (simp add: fm_len_def fcard.rep_eq card_Un_disjoint)
qed

lemma fm_len_zero: "fm_len m = 0 \<longleftrightarrow> (\<forall>k. fmlookup m k = None)"
proof -
  have "fm_len m = 0 \<longleftrightarrow> fmdom m = {||}" by (simp add: fm_len_def)
  also have "\<dots> \<longleftrightarrow> (\<forall>k. fmlookup m k = None)" by (metis all_not_fin_conv fmlookup_dom_iff not_None_eq)
  finally show ?thesis .
qed

lemma fm_keep_same_len:
  assumes "fm_len (fm_keep P m) = fm_len m"
  shows "fm_keep P m = m"
proof -
  have "fm_len (fm_keep (\<lambda>k v. \<not> P k v) m) = 0" using fm_len_partition [of m P] assms by simp
  then have "P k v" if "fmlookup m k = Some v" for k v
    using that by (auto simp: fm_len_zero dest: spec [of _ k] split: if_splits)
  then show ?thesis by (rule fm_keep_all)
qed

section \<open>Outcomes\<close>

text \<open>
  A handler either runs to its end or is unwound by a panic; the writes it made before the panic
  stay.  A Go map is iterated in an order the language leaves open: where the order can be
  observed, it is a parameter \<open>iter\<close> that lists the keys.
\<close>

datatype 's outcome = Done 's | Panicked 's

primrec state_of :: "'s outcome \<Rightarrow> 's" where
  "state_of (Done s) = s"
| "state_of (Panicked s) = s"

definition iter_ok :: "('a fset \<Rightarrow> 'a list) \<Rightarrow> bool" where
  "iter_ok it \<longleftrightarrow> (\<forall>S. distinct (it S) \<and> set (it S) = fset S)"

lemma iter_okD: "iter_ok it \<Longrightarrow> distinct (it S)" "iter_ok it \<Longrightarrow> set (it S) = fset S"
  by (simp_all add: iter_ok_def)

lemma iter_ok_length: "iter_ok it \<Longrightarrow> length (it S) = fcard S"
  by (metis iter_ok_def distinct_card fcard.rep_eq)

lemma iter_ok_sorted: "iter_ok (sorted_list_of_fset :: ('a :: linorder) fset \<Rightarrow> 'a list)"
  by (simp add: iter_ok_def sorted_list_of_fset.rep_eq)

end
