(* ===== verification/NetAddr.thy ===== *)
theory NetAddr
  imports Prelude
begin

text \<open>
  The parts of Go's \<^verbatim>\<open>net\<close> and \<^verbatim>\<open>strconv\<close> packages the beacon uses: addresses as byte slices
  (4 or 16 bytes; \<^verbatim>\<open>nil\<close> is the empty list), their comparison, their 4- and 16-byte forms and
  their text form, which is the key of the punch limiter, of the whitelist and of the gossip
  source table.
\<close>

section \<open>Numbers as text\<close>

fun dec :: "nat \<Rightarrow> string" where
  "dec n = (if n < 10 then [char_of (48 + n)] else dec (n div 10) @ [char_of (48 + n mod 10)])"

declare dec.simps [simp del]

definition itoa :: "int \<Rightarrow> string" where
  "itoa i = (if i < 0 then ''-'' @ dec (nat (- i)) else dec (nat i))"

fun hex :: "nat \<Rightarrow> string" where
  "hex n = (if n < 16 then [''0123456789abcdef'' ! n]
            else hex (n div 16) @ [''0123456789abcdef'' ! (n mod 16)])"

declare hex.simps [simp del]

definition digit :: "char \<Rightarrow> bool" where
  "digit c \<longleftrightarrow> 48 \<le> (of_char c :: nat) \<and> (of_char c :: nat) \<le> 57"

lemma of_char_digit: "d < 10 \<Longrightarrow> of_char (char_of (48 + d) :: char) = (48 + d :: nat)"
  by simp

lemma dec_digits: "c \<in> set (dec n) \<Longrightarrow> digit c"
proof (induction n rule: dec.induct)
  case (1 n)
  show ?case
  proof (cases "n < 10")
    case True
    with "1.prems" show ?thesis by (simp add: dec.simps [of n] digit_def)
  next
    case False
    with "1" show ?thesis by (auto simp: dec.simps [of n] digit_def)
  qed
qed

lemma dec_nonempty [simp]: "dec n \<noteq> []" "[] \<noteq> dec n"
  by (subst dec.simps, simp)+

lemma char_of_digit_eq:
  "a < 10 \<Longrightarrow> b < 10 \<Longrightarrow> (char_of (48 + a) :: char) = char_of (48 + b) \<longleftrightarrow> a = (b :: nat)"
  by (metis add_left_cancel of_char_digit)

lemma dec_eq_iff [simp]: "dec m = dec n \<longleftrightarrow> m = n"
proof (induction m arbitrary: n rule: dec.induct)
  case (1 m)
  show ?case
  proof (cases "m < 10")
    case True
    then show ?thesis
      by (auto simp: dec.simps [of m] dec.simps [of n] char_of_digit_eq)
  next
    case False
    show ?thesis
    proof
      assume eq: "dec m = dec n"
      with False have "\<not> n < 10"
        by (auto simp: dec.simps [of m] dec.simps [of n])
      with False eq have "dec (m div 10) = dec (n div 10)" "m mod 10 = n mod 10"
        by (simp_all add: dec.simps [of m] dec.simps [of n] char_of_digit_eq)
      with "1.IH" [OF False, of "n div 10"] have "m div 10 = n div 10" by simp
      with \<open>m mod 10 = n mod 10\<close> show "m = n"
        by (metis div_mod_decomp)
    qed simp
  qed
qed

lemma not_digit_dec: "\<not> digit c \<Longrightarrow> c \<notin> set (dec n)"
  using dec_digits by blast

lemma not_digit_itoa: "\<not> digit c \<Longrightarrow> c \<noteq> CHR ''-'' \<Longrightarrow> c \<notin> set (itoa i)"
  by (auto simp: itoa_def dest: dec_digits)

lemma itoa_eq_iff [simp]: "itoa i = itoa j \<longleftrightarrow> i = j"
proof -
  have minus: "dec n \<noteq> CHR ''-'' # xs" for n xs
    using dec_digits [of "CHR ''-''" n] by (auto simp: digit_def)
  show ?thesis
    using minus minus [symmetric] by (auto simp: itoa_def)
qed

section \<open>Addresses\<close>

type_synonym ip = bytes

record udpaddr =
  IP :: ip
  Port :: int
  Zone :: string

definition v4InV6Prefix :: bytes where
  "v4InV6Prefix = replicate 10 0 @ [255, 255]"

definition To4 :: "ip \<Rightarrow> ip option" where
  "To4 p =
     (if length p = 4 then Some p
      else if length p = 16 \<and> take 12 p = v4InV6Prefix then Some (drop 12 p)
      else None)"

definition To16 :: "ip \<Rightarrow> ip option" where
  "To16 p = (if length p = 4 then Some (v4InV6Prefix @ p)
             else if length p = 16 then Some p else None)"

definition IPEqual :: "ip \<Rightarrow> ip \<Rightarrow> bool" where
  "IPEqual p x \<longleftrightarrow>
     (if length p = length x then p = x
      else if length p = 4 \<and> length x = 16 then take 12 x = v4InV6Prefix \<and> p = drop 12 x
      else if length p = 16 \<and> length x = 4 then take 12 p = v4InV6Prefix \<and> drop 12 p = x
      else False)"

fun join :: "string \<Rightarrow> string list \<Rightarrow> string" where
  "join sep [] = []"
| "join sep [x] = x"
| "join sep (x # y # xs) = x @ sep @ join sep (y # xs)"

fun groups16 :: "bytes \<Rightarrow> nat list" where
  "groups16 (a # b # r) = (256 * unat a + unat b) # groups16 r"
| "groups16 _ = []"

definition zeroRun :: "nat list \<Rightarrow> nat \<Rightarrow> nat" where
  "zeroRun ws i = length (takeWhile (\<lambda>w. w = 0) (drop i ws))"

definition zeroSpan :: "nat list \<Rightarrow> nat \<times> nat" where
  "zeroSpan ws = fold (\<lambda>i (st, en). let l = zeroRun ws i in
      if 2 \<le> l \<and> en - st < l then (i, i + l) else (st, en)) [0..<8] (255, 255)"

definition v6String :: "ip \<Rightarrow> string" where
  "v6String p = (let ws = groups16 p; (st, en) = zeroSpan ws in
     if st = 255 then join '':'' (map hex ws)
     else join '':'' (map hex (take st ws)) @ ''::'' @ join '':'' (map hex (drop en ws)))"

definition v4String :: "ip \<Rightarrow> string" where
  "v4String p = join ''.'' (map (\<lambda>b. dec (unat b)) p)"

definition hexString :: "bytes \<Rightarrow> string" where
  "hexString b = concat (map (\<lambda>x. [''0123456789abcdef'' ! (unat x div 16),
                                    ''0123456789abcdef'' ! (unat x mod 16)]) b)"

definition IPString :: "ip \<Rightarrow> string" where
  "IPString p =
     (if p = [] then ''<nil>''
      else if length p \<noteq> 4 \<and> length p \<noteq> 16 then ''?'' @ hexString p
      else case To4 p of Some p4 \<Rightarrow> v4String p4 | None \<Rightarrow> v6String p)"

definition JoinHostPort :: "string \<Rightarrow> string \<Rightarrow> string" where
  "JoinHostPort host port =
     (if CHR '':'' \<in> set host then ''['' @ host @ '']:'' @ port else host @ '':'' @ port)"

definition UDPAddrString :: "udpaddr \<Rightarrow> string" where
  "UDPAddrString a =
     (let h = (if IP a = [] then [] else IPString (IP a)) in
      if Zone a \<noteq> [] then JoinHostPort (h @ ''%'' @ Zone a) (itoa (Port a))
      else JoinHostPort h (itoa (Port a)))"

text \<open>
  \<open>ipBytes\<close> is the idiom of the reply and punch encoders: the 4-byte form where there is one,
  else the 16-byte form, else nothing (the caller then gives up).
\<close>

definition ipBytes :: "ip \<Rightarrow> ip option" where
  "ipBytes p = (case To4 p of Some q \<Rightarrow> Some q | None \<Rightarrow> To16 p)"

lemma ipBytes_length: "ipBytes p = Some q \<Longrightarrow> length q = 4 \<or> length q = 16"
  by (auto simp: ipBytes_def To4_def To16_def split: option.splits if_splits)

lemma ipBytes_defined: "length p = 4 \<or> length p = 16 \<Longrightarrow> \<exists>q. ipBytes p = Some q"
  by (auto simp: ipBytes_def To4_def To16_def split: option.splits)

text \<open>The encoded bytes denote the same address.\<close>

lemma ipBytes_IPEqual: "ipBytes p = Some q \<Longrightarrow> IPEqual q p"
  by (auto simp: ipBytes_def To4_def To16_def IPEqual_def split: option.splits if_splits)

lemma length_v4InV6Prefix [simp]: "length v4InV6Prefix = 12"
  by (simp add: v4InV6Prefix_def)

lemma take_drop_12: "take 12 p = v4InV6Prefix \<Longrightarrow> v4InV6Prefix @ drop 12 p = p"
  by (metis append_take_drop_id)

lemma To16_eq_iff:
  assumes "To16 p = Some p'" "To16 x = Some x'"
  shows "IPEqual p x \<longleftrightarrow> p' = x'"
  using assms by (auto simp: To16_def IPEqual_def take_drop_12 split: if_splits)

lemma IPEqual_refl [simp]: "IPEqual p p"
  by (simp add: IPEqual_def)

lemma IPEqual_sym: "IPEqual p x \<longleftrightarrow> IPEqual x p"
  by (auto simp: IPEqual_def)

lemma IPEqual_To4:
  assumes "IPEqual p x" "p \<noteq> x"
  shows "To4 p = To4 x \<and> To4 p \<noteq> None \<and> length p \<in> {4, 16} \<and> length x \<in> {4, 16}"
proof (cases "length p = length x")
  case True
  with assms show ?thesis by (simp add: IPEqual_def)
next
  case False
  with assms(1) have "length p = 4 \<and> length x = 16 \<or> length p = 16 \<and> length x = 4"
    by (auto simp: IPEqual_def split: if_splits)
  with assms(1) show ?thesis by (auto simp: IPEqual_def To4_def)
qed

lemma IPEqual_String: "IPEqual p x \<Longrightarrow> IPString p = IPString x"
  using IPEqual_To4 [of p x] by (cases "p = x") (auto simp: IPString_def split: option.splits)

section \<open>The text form of IPv4 addresses is unambiguous\<close>

lemma length4E:
  assumes "length (p :: 'a list) = 4"
  obtains a b c d where "p = [a, b, c, d]"
  using assms by (auto simp: length_Suc_conv numeral_eq_Suc)

lemma dot_not_digit [simp]: "\<not> digit CHR ''.''" and colon_not_digit [simp]: "\<not> digit CHR '':''"
  by (simp_all add: digit_def)

lemma v4String_inj: "length p = 4 \<Longrightarrow> length x = 4 \<Longrightarrow> v4String p = v4String x \<longleftrightarrow> p = x"
  by (elim length4E) (simp add: v4String_def sep_unique not_digit_dec word_unat_eq_iff)

lemma IPString_v4_iff:
  assumes "To4 p = Some a" "To4 x = Some b"
  shows "IPString p = IPString x \<longleftrightarrow> IPEqual p x"
proof -
  have len: "length a = 4" "length b = 4"
    using assms by (auto simp: To4_def split: if_splits)
  have "IPString p = v4String a" "IPString x = v4String b"
    using assms by (auto simp: IPString_def To4_def split: if_splits)
  moreover have "IPEqual p x \<longleftrightarrow> a = b"
    using assms by (auto simp: To4_def IPEqual_def split: if_splits)
      (metis append_take_drop_id)+
  ultimately show ?thesis using len by (simp add: v4String_inj)
qed

lemma colon_v4String: "length p = 4 \<Longrightarrow> CHR '':'' \<notin> set (v4String p)"
  by (elim length4E) (simp add: v4String_def not_digit_dec)

lemma UDPAddrString_v4:
  assumes "To4 (IP a) = Some p" "Zone a = []"
  shows "UDPAddrString a = v4String p @ '':'' @ itoa (Port a)"
proof -
  have "length p = 4" "IP a \<noteq> []" "IPString (IP a) = v4String p"
    using assms by (auto simp: To4_def IPString_def split: if_splits)
  then show ?thesis
    using assms by (simp add: UDPAddrString_def JoinHostPort_def colon_v4String Let_def)
qed

lemma UDPAddrString_v4_iff:
  assumes a: "To4 (IP a) = Some p" "Zone a = []" and b: "To4 (IP b) = Some q" "Zone b = []"
  shows "UDPAddrString a = UDPAddrString b \<longleftrightarrow> IPEqual (IP a) (IP b) \<and> Port a = Port b"
proof -
  have len: "length p = 4" "length q = 4"
    using a b by (auto simp: To4_def split: if_splits)
  have "IPString (IP a) = v4String p" "IPString (IP b) = v4String q"
    using a b by (auto simp: IPString_def To4_def split: if_splits)
  then have "IPEqual (IP a) (IP b) \<longleftrightarrow> v4String p = v4String q"
    using IPString_v4_iff [OF a(1) b(1)] by simp
  then show ?thesis
    using len
    by (simp add: UDPAddrString_v4 [OF a] UDPAddrString_v4 [OF b] sep_unique colon_v4String)
qed

lemma UDPAddrString_cong:
  "IPEqual (IP a) (IP b) \<Longrightarrow> Port a = Port b \<Longrightarrow> Zone a = Zone b \<Longrightarrow>
   UDPAddrString a = UDPAddrString b"
  by (frule IPEqual_String) (auto simp: UDPAddrString_def Let_def IPEqual_def split: if_splits)

end
