(* ===== verification/Shards.thy ===== *)
theory Shards
  imports Prelude
begin

text \<open>
  A sharded map: a fixed array of Go maps and an index function that says which of them holds a
  key.  The node table and the three rate limiters are such maps.  The locale \<open>sharding\<close> is the
  contract of the index function; inside it, the array of shards is shown to behave as one flat
  map, whatever the index function is.
\<close>

type_synonym ('k, 'v) shard_array = "('k, 'v) fmap list"

definition sh_get :: "('k \<Rightarrow> nat) \<Rightarrow> ('k, 'v) shard_array \<Rightarrow> 'k \<Rightarrow> 'v option" where
  "sh_get idx s k = fmlookup (s ! idx k) k"

definition sh_put :: "('k \<Rightarrow> nat) \<Rightarrow> 'k \<Rightarrow> 'v \<Rightarrow> ('k, 'v) shard_array \<Rightarrow> ('k, 'v) shard_array" where
  "sh_put idx k v s = s[idx k := fmupd k v (s ! idx k)]"

definition sh_keep :: "('k \<Rightarrow> 'v \<Rightarrow> bool) \<Rightarrow> ('k, 'v) shard_array \<Rightarrow> ('k, 'v) shard_array" where
  "sh_keep P s = map (fm_keep P) s"

definition sh_len :: "('k, 'v) shard_array \<Rightarrow> nat" where
  "sh_len s = sum_list (map fm_len s)"

text \<open>Every shard exists, and holds only keys that are indexed to it.\<close>

definition sh_wf :: "('k \<Rightarrow> nat) \<Rightarrow> nat \<Rightarrow> ('k, 'v) shard_array \<Rightarrow> bool" where
  "sh_wf idx n s \<longleftrightarrow> length s = n \<and> (\<forall>i < n. \<forall>k. fmlookup (s ! i) k \<noteq> None \<longrightarrow> idx k = i)"

lemma sh_wfD: "sh_wf idx n s \<Longrightarrow> i < n \<Longrightarrow> fmlookup (s ! i) k = Some v \<Longrightarrow> idx k = i"
  by (force simp: sh_wf_def)

lemma sh_wf_length: "sh_wf idx n s \<Longrightarrow> length s = n"
  by (simp add: sh_wf_def)

lemma sh_wf_empty [simp, intro]: "sh_wf idx n (replicate n fmempty)"
  by (simp add: sh_wf_def)

lemma sh_wf_keep [intro]: "sh_wf idx n s \<Longrightarrow> sh_wf idx n (sh_keep P s)"
  by (auto simp: sh_wf_def sh_keep_def split: option.splits if_splits)

locale sharding =
  fixes idx :: "'k \<Rightarrow> nat" and n :: nat
  assumes idx_less: "idx k < n"
begin

lemma get_empty [simp]: "sh_get idx (replicate n fmempty) k = None"
  by (simp add: sh_get_def idx_less)

lemma get_put: "sh_wf idx n s \<Longrightarrow> sh_get idx (sh_put idx k v s) = (sh_get idx s)(k \<mapsto> v)"
  by (rule ext) (auto simp: sh_get_def sh_put_def nth_list_update idx_less sh_wf_length)

lemma wf_put: "sh_wf idx n s \<Longrightarrow> sh_wf idx n (sh_put idx k v s)"
  by (auto simp: sh_wf_def sh_put_def nth_list_update idx_less split: if_splits)

lemma get_keep:
  "sh_wf idx n s \<Longrightarrow> sh_get idx (sh_keep P s) k =
     (case sh_get idx s k of None \<Rightarrow> None | Some v \<Rightarrow> if P k v then Some v else None)"
  by (simp add: sh_get_def sh_keep_def idx_less sh_wf_length split: option.splits)

lemma get_Some_shard: "sh_get idx s k = Some v \<Longrightarrow> fmlookup (s ! idx k) k = Some v"
  by (simp add: sh_get_def)

lemma dom_eq_Union:
  assumes "sh_wf idx n s"
  shows "dom (sh_get idx s) = (\<Union>i<n. fset (fmdom (s ! i)))"
proof (rule set_eqI, rule iffI)
  fix k assume "k \<in> dom (sh_get idx s)"
  then show "k \<in> (\<Union>i<n. fset (fmdom (s ! i)))"
    using idx_less by (auto simp: sh_get_def fmlookup_dom_iff intro!: bexI [of _ "idx k"])
next
  fix k assume "k \<in> (\<Union>i<n. fset (fmdom (s ! i)))"
  then obtain i v where "i < n" "fmlookup (s ! i) k = Some v"
    by (auto simp: fmlookup_dom_iff)
  moreover from assms this have "idx k = i" by (rule sh_wfD)
  ultimately show "k \<in> dom (sh_get idx s)" by (simp add: sh_get_def domIff)
qed

lemma shards_disjoint:
  assumes "sh_wf idx n s" "i < n" "j < n" "i \<noteq> j"
  shows "fset (fmdom (s ! i)) \<inter> fset (fmdom (s ! j)) = {}"
proof -
  have False if "fmlookup (s ! i) k = Some a" "fmlookup (s ! j) k = Some b" for k a b
    using sh_wfD [OF assms(1,2) that(1)] sh_wfD [OF assms(1,3) that(2)] assms(4) by simp
  then show ?thesis by (auto simp: fmlookup_dom_iff)
qed

lemma finite_dom: "sh_wf idx n s \<Longrightarrow> finite (dom (sh_get idx s))"
  by (simp add: dom_eq_Union)

text \<open>The sum of the shard sizes is the size of the flat map.\<close>

lemma len_card_dom:
  assumes "sh_wf idx n s"
  shows "sh_len s = card (dom (sh_get idx s))"
proof -
  have "card (dom (sh_get idx s)) = (\<Sum>i<n. card (fset (fmdom (s ! i))))"
    unfolding dom_eq_Union [OF assms]
    by (rule card_UN_disjoint) (use shards_disjoint [OF assms] in auto)
  also have "\<dots> = (\<Sum>i<n. fm_len (s ! i))"
    by (simp add: fm_len_def fcard.rep_eq)
  also have "\<dots> = sh_len s"
    using assms by (simp add: sh_len_def sum_list_sum_nth atLeast0LessThan sh_wf_length)
  finally show ?thesis by simp
qed

end

text \<open>The number of entries a sweep removes.\<close>

lemma sh_len_partition:
  "sh_len s = sh_len (sh_keep P s) + sum_list (map (\<lambda>m. fm_len (fm_keep (\<lambda>k v. \<not> P k v) m)) s)"
proof (induction s)
  case (Cons m s)
  then show ?case
    using fm_len_partition [of m P] by (simp add: sh_len_def sh_keep_def)
qed (simp add: sh_len_def sh_keep_def)

end
