(* ===== verification/NodeMap.thy ===== *)
theory NodeMap
  imports NetAddr Shards
begin

text \<open>
  The node table of \<^verbatim>\<open>nodes_shard.go\<close>: 64 shards, each a map from node id to the endpoint the
  node was last observed at.  The definitions follow the file's order.  \<open>nodes_abs\<close> reads the
  table as one flat map; \<open>flat_upsert\<close> and \<open>flat_reap\<close> are the single-map specification the
  sharded table implements.  The locale \<open>node_registry\<close> is what the server relies on.
\<close>

section \<open>State\<close>

record beaconNode =
  addr :: udpaddr
  lastSeen :: gotime
  lastNotify :: gotime

type_synonym nodeShard = "(nodeid, beaconNode) fmap"

record nodeMap =
  shards :: "nodeShard list"

definition nodeShardCount :: nat where
  "nodeShardCount = 64"

definition newNodeMap :: nodeMap where
  "newNodeMap = \<lparr>shards = replicate nodeShardCount fmempty\<rparr>"

section \<open>Operations\<close>

text \<open>\<open>shardFor\<close> is the index of the shard the method of that name returns.\<close>

definition shardFor :: "nodeid \<Rightarrow> nat" where
  "shardFor nodeID = unat (nodeID AND (of_nat nodeShardCount - 1))"

definition Upsert :: "nodeMap \<Rightarrow> nodeid \<Rightarrow> udpaddr \<Rightarrow> gotime \<Rightarrow> int \<Rightarrow> nodeMap \<times> bool \<times> bool" where
  "Upsert m nodeID a now maxTotal =
     (let i = shardFor nodeID; s = shards m ! i in
      case fmlookup s nodeID of
        Some existing \<Rightarrow>
          (m\<lparr>shards := (shards m)[i := fmupd nodeID (existing\<lparr>addr := a, lastSeen := now\<rparr>) s]\<rparr>,
           False, False)
      | None \<Rightarrow>
          if 0 < maxTotal \<and> maxTotal div int nodeShardCount \<le> int (fm_len s) then (m, False, True)
          else (m\<lparr>shards := (shards m)[i := fmupd nodeID
                   \<lparr>addr = a, lastSeen = now, lastNotify = zeroTime\<rparr> s]\<rparr>, True, False))"

definition Get :: "nodeMap \<Rightarrow> nodeid \<Rightarrow> beaconNode option" where
  "Get m nodeID = fmlookup (shards m ! shardFor nodeID) nodeID"

definition Snapshot :: "nodeMap \<Rightarrow> nodeid \<Rightarrow> udpaddr option" where
  "Snapshot m nodeID = (case fmlookup (shards m ! shardFor nodeID) nodeID of
      None \<Rightarrow> None | Some n \<Rightarrow> Some (addr n))"

datatype notify_claim = NotFound | Throttled udpaddr | Claimed udpaddr

definition claimNotify ::
    "nodeMap \<Rightarrow> nodeid \<Rightarrow> gotime \<Rightarrow> duration \<Rightarrow> nodeMap \<times> notify_claim" where
  "claimNotify m nodeID now minGap =
     (let i = shardFor nodeID; s = shards m ! i in
      case fmlookup s nodeID of
        None \<Rightarrow> (m, NotFound)
      | Some n \<Rightarrow>
          if \<not> IsZero (lastNotify n) \<and> Sub now (lastNotify n) < minGap then (m, Throttled (addr n))
          else (m\<lparr>shards := (shards m)[i := fmupd nodeID (n\<lparr>lastNotify := now\<rparr>) s]\<rparr>,
                Claimed (addr n)))"

definition Has :: "nodeMap \<Rightarrow> nodeid \<Rightarrow> bool" where
  "Has m nodeID \<longleftrightarrow> fmlookup (shards m ! shardFor nodeID) nodeID \<noteq> None"

definition Len :: "nodeMap \<Rightarrow> nat" where
  "Len m = sum_list (map fm_len (shards m))"

definition IDs :: "(nodeid fset \<Rightarrow> nodeid list) \<Rightarrow> nodeMap \<Rightarrow> nodeid list" where
  "IDs it m = concat (map (\<lambda>s. it (fmdom s)) (shards m))"

definition ReapStale :: "nodeMap \<Rightarrow> gotime \<Rightarrow> nodeMap \<times> nat" where
  "ReapStale m threshold =
     (m\<lparr>shards := map (fm_keep (\<lambda>id n. \<not> Before (lastSeen n) threshold)) (shards m)\<rparr>,
      sum_list (map (\<lambda>s. fm_len (fm_keep (\<lambda>id n. Before (lastSeen n) threshold) s)) (shards m)))"

section \<open>The flat specification\<close>

definition nodes_abs :: "nodeMap \<Rightarrow> nodeid \<Rightarrow> beaconNode option" where
  "nodes_abs m = sh_get shardFor (shards m)"

definition node_wf :: "nodeMap \<Rightarrow> bool" where
  "node_wf m \<longleftrightarrow> sh_wf shardFor nodeShardCount (shards m)"

definition touch :: "beaconNode option \<Rightarrow> udpaddr \<Rightarrow> gotime \<Rightarrow> beaconNode" where
  "touch e a now = (case e of
      Some n \<Rightarrow> n\<lparr>addr := a, lastSeen := now\<rparr>
    | None \<Rightarrow> \<lparr>addr = a, lastSeen = now, lastNotify = zeroTime\<rparr>)"

text \<open>The ids that compete with \<open>nodeID\<close> for one share of the capacity.\<close>

definition bucket :: "(nodeid \<rightharpoonup> beaconNode) \<Rightarrow> nodeid \<Rightarrow> nodeid set" where
  "bucket M nodeID = {k \<in> dom M. shardFor k = shardFor nodeID}"

definition flat_upsert ::
    "(nodeid \<rightharpoonup> beaconNode) \<Rightarrow> nodeid \<Rightarrow> udpaddr \<Rightarrow> gotime \<Rightarrow> int
     \<Rightarrow> (nodeid \<rightharpoonup> beaconNode) \<times> bool \<times> bool" where
  "flat_upsert M nodeID a now maxTotal =
     (if M nodeID \<noteq> None then (M(nodeID \<mapsto> touch (M nodeID) a now), False, False)
      else if 0 < maxTotal \<and> maxTotal div 64 \<le> int (card (bucket M nodeID)) then (M, False, True)
      else (M(nodeID \<mapsto> touch None a now), True, False))"

definition flat_reap :: "(nodeid \<rightharpoonup> beaconNode) \<Rightarrow> gotime \<Rightarrow> (nodeid \<rightharpoonup> beaconNode)" where
  "flat_reap M threshold = (\<lambda>k. case M k of None \<Rightarrow> None
     | Some n \<Rightarrow> if Before (lastSeen n) threshold then None else Some n)"

section \<open>Shard index\<close>

lemma shardFor_less: "shardFor k < nodeShardCount"
proof -
  have "unat (k AND 63) \<le> unat (63 :: u32)"
    by (rule word_and_le1 [THEN word_le_nat_alt [THEN iffD1]])
  then show ?thesis by (simp add: shardFor_def nodeShardCount_def)
qed

interpretation ns: sharding shardFor nodeShardCount
  by unfold_locales (rule shardFor_less)

lemma node_wf_new [simp, intro]: "node_wf newNodeMap"
  by (simp add: node_wf_def newNodeMap_def sh_wf_empty)

lemma nodes_abs_new [simp]: "nodes_abs newNodeMap = Map.empty"
  by (rule ext) (simp add: nodes_abs_def newNodeMap_def)

lemma Get_abs [simp, gomap]: "Get m k = nodes_abs m k"
  by (simp add: Get_def nodes_abs_def sh_get_def)

lemma Snapshot_abs [gomap]: "Snapshot m k = map_option addr (nodes_abs m k)"
  by (simp add: Snapshot_def nodes_abs_def sh_get_def split: option.splits)

lemma Has_abs [gomap]: "Has m k \<longleftrightarrow> nodes_abs m k \<noteq> None"
  by (simp add: Has_def nodes_abs_def sh_get_def)

lemma Len_sh_len: "Len m = sh_len (shards m)"
  by (simp add: Len_def sh_len_def)

lemma Len_card: "node_wf m \<Longrightarrow> Len m = card (dom (nodes_abs m))"
  by (simp add: Len_sh_len nodes_abs_def node_wf_def ns.len_card_dom)

lemma shard_bucket:
  assumes "node_wf m"
  shows "card (bucket (nodes_abs m) k) = fm_len (shards m ! shardFor k)"
proof -
  have "bucket (nodes_abs m) k = {j. fmlookup (shards m ! shardFor k) j \<noteq> None}"
    using assms shardFor_less [of k]
    by (auto simp: bucket_def nodes_abs_def sh_get_def node_wf_def dom_def dest: sh_wfD)
  then show ?thesis by (simp add: fm_len_card)
qed

text \<open>The writes of \<open>Upsert\<close> and \<open>claimNotify\<close> as updates of the shard array.\<close>

lemma Upsert_put:
  "Upsert m k a t mx =
     (case nodes_abs m k of
        Some e \<Rightarrow> (m\<lparr>shards := sh_put shardFor k (touch (Some e) a t) (shards m)\<rparr>, False, False)
      | None \<Rightarrow> if 0 < mx \<and> mx div int nodeShardCount \<le> int (fm_len (shards m ! shardFor k))
          then (m, False, True)
          else (m\<lparr>shards := sh_put shardFor k (touch None a t) (shards m)\<rparr>, True, False))"
  by (simp add: Upsert_def Let_def nodes_abs_def sh_get_def sh_put_def touch_def
      split: option.splits)

lemma claimNotify_put:
  "claimNotify m k t gap =
     (case nodes_abs m k of
        None \<Rightarrow> (m, NotFound)
      | Some n \<Rightarrow> if \<not> IsZero (lastNotify n) \<and> Sub t (lastNotify n) < gap then (m, Throttled (addr n))
          else (m\<lparr>shards := sh_put shardFor k (n\<lparr>lastNotify := t\<rparr>) (shards m)\<rparr>, Claimed (addr n)))"
  by (simp add: claimNotify_def Let_def nodes_abs_def sh_get_def sh_put_def split: option.splits)

lemma ReapStale_keep:
  "fst (ReapStale m thr) = m\<lparr>shards := sh_keep (\<lambda>id n. \<not> Before (lastSeen n) thr) (shards m)\<rparr>"
  by (simp add: ReapStale_def sh_keep_def)

lemma node_wf_put: "node_wf m \<Longrightarrow> node_wf (m\<lparr>shards := sh_put shardFor k v (shards m)\<rparr>)"
  by (simp add: node_wf_def ns.wf_put)

lemma nodes_abs_put:
  "node_wf m \<Longrightarrow> nodes_abs (m\<lparr>shards := sh_put shardFor k v (shards m)\<rparr>) = (nodes_abs m)(k \<mapsto> v)"
  by (simp add: node_wf_def nodes_abs_def ns.get_put)

lemma node_wf_Upsert [intro]: "node_wf m \<Longrightarrow> node_wf (fst (Upsert m k a t mx))"
  by (simp add: Upsert_put node_wf_put split: option.splits)

lemma node_wf_claim [intro]: "node_wf m \<Longrightarrow> node_wf (fst (claimNotify m k t gap))"
  by (simp add: claimNotify_put node_wf_put split: option.splits)

lemma node_wf_reap [intro]: "node_wf m \<Longrightarrow> node_wf (fst (ReapStale m thr))"
  by (simp add: ReapStale_keep node_wf_def sh_wf_keep)

lemma nodes_abs_reap: "node_wf m \<Longrightarrow> nodes_abs (fst (ReapStale m thr)) = flat_reap (nodes_abs m) thr"
  by (rule ext)
    (simp add: ReapStale_keep node_wf_def nodes_abs_def ns.get_keep flat_reap_def split: option.splits)

lemma nodes_abs_claim:
  "node_wf m \<Longrightarrow> nodes_abs (fst (claimNotify m k t gap)) =
     (case snd (claimNotify m k t gap) of
        Claimed _ \<Rightarrow> (nodes_abs m)(k \<mapsto> (the (nodes_abs m k))\<lparr>lastNotify := t\<rparr>)
      | _ \<Rightarrow> nodes_abs m)"
  by (simp add: claimNotify_put nodes_abs_put split: option.splits)

section \<open>The contract of a node registry\<close>

text \<open>
  Runs of registry operations; the log collects the notifies that were claimed.
\<close>

datatype node_op =
    NUpsert nodeid udpaddr gotime
  | NClaim nodeid gotime
  | NReap gotime

fun reg_run ::
    "('m \<Rightarrow> nodeid \<Rightarrow> udpaddr \<Rightarrow> gotime \<Rightarrow> int \<Rightarrow> 'm \<times> bool \<times> bool)
     \<Rightarrow> ('m \<Rightarrow> nodeid \<Rightarrow> gotime \<Rightarrow> duration \<Rightarrow> 'm \<times> notify_claim)
     \<Rightarrow> ('m \<Rightarrow> gotime \<Rightarrow> 'm \<times> nat) \<Rightarrow> int \<Rightarrow> duration
     \<Rightarrow> 'm \<Rightarrow> node_op list \<Rightarrow> 'm \<times> (nodeid \<times> gotime) list" where
  "reg_run ups claim reap mx gap m [] = (m, [])"
| "reg_run ups claim reap mx gap m (NUpsert k a t # ops) =
     reg_run ups claim reap mx gap (fst (ups m k a t mx)) ops"
| "reg_run ups claim reap mx gap m (NReap thr # ops) =
     reg_run ups claim reap mx gap (fst (reap m thr)) ops"
| "reg_run ups claim reap mx gap m (NClaim k t # ops) =
     (let (m', r) = claim m k t gap; (m'', log) = reg_run ups claim reap mx gap m' ops in
      (m'', (case r of Claimed _ \<Rightarrow> (k, t) # log | _ \<Rightarrow> log)))"

text \<open>Claims happen after \<open>lb\<close>, in the order of the monotonic clock, and nothing is reaped.\<close>

fun claims_timed :: "int \<Rightarrow> node_op list \<Rightarrow> bool" where
  "claims_timed lb [] = True"
| "claims_timed lb (NUpsert k a t # ops) = claims_timed lb ops"
| "claims_timed lb (NReap thr # ops) = False"
| "claims_timed lb (NClaim k t # ops) = (lb \<le> mono t \<and> \<not> IsZero t \<and> claims_timed (mono t) ops)"

locale node_registry =
  fixes get :: "'m \<Rightarrow> nodeid \<Rightarrow> beaconNode option"
    and ups :: "'m \<Rightarrow> nodeid \<Rightarrow> udpaddr \<Rightarrow> gotime \<Rightarrow> int \<Rightarrow> 'm \<times> bool \<times> bool"
    and claim :: "'m \<Rightarrow> nodeid \<Rightarrow> gotime \<Rightarrow> duration \<Rightarrow> 'm \<times> notify_claim"
    and reap :: "'m \<Rightarrow> gotime \<Rightarrow> 'm \<times> nat"
    and invar :: "'m \<Rightarrow> bool"
  assumes get_ups: "invar m \<Longrightarrow> ups m k a t mx = (m', ins, cap) \<Longrightarrow>
      get m' = (if cap then get m else (get m)(k \<mapsto> touch (get m k) a t))"
    and ups_cap: "invar m \<Longrightarrow> ups m k a t mx = (m', ins, cap) \<Longrightarrow> cap \<Longrightarrow> get m k = None"
    and ups_ins: "invar m \<Longrightarrow> ups m k a t mx = (m', ins, cap) \<Longrightarrow> ins \<longleftrightarrow> get m k = None \<and> \<not> cap"
    and claim_result: "invar m \<Longrightarrow> snd (claim m k t gap) =
      (case get m k of None \<Rightarrow> NotFound
       | Some n \<Rightarrow> if \<not> IsZero (lastNotify n) \<and> Sub t (lastNotify n) < gap then Throttled (addr n)
                   else Claimed (addr n))"
    and get_claim: "invar m \<Longrightarrow> get (fst (claim m k t gap)) =
      (case snd (claim m k t gap) of
         Claimed _ \<Rightarrow> (get m)(k \<mapsto> (the (get m k))\<lparr>lastNotify := t\<rparr>) | _ \<Rightarrow> get m)"
    and get_reap: "invar m \<Longrightarrow> get (fst (reap m thr)) = flat_reap (get m) thr"
    and invar_ups: "invar m \<Longrightarrow> invar (fst (ups m k a t mx))"
    and invar_claim: "invar m \<Longrightarrow> invar (fst (claim m k t gap))"
    and invar_reap: "invar m \<Longrightarrow> invar (fst (reap m thr))"
begin

lemma run_invar: "invar m \<Longrightarrow> invar (fst (reg_run ups claim reap mx gap m ops))"
proof (induction ops arbitrary: m)
  case (Cons oper ops)
  show ?case
    using Cons.IH [OF invar_ups [OF Cons.prems]] Cons.IH [OF invar_claim [OF Cons.prems]]
      Cons.IH [OF invar_reap [OF Cons.prems]]
    by (cases oper) (auto simp: split_beta split: notify_claim.split)
qed simp

text \<open>An accepted endpoint is the one looked up next, and no other entry moves.\<close>

lemma ups_accepted:
  "invar m \<Longrightarrow> ups m k a t mx = (m', ins, False) \<Longrightarrow>
   map_option addr (get m' k) = Some a \<and> (\<forall>j. j \<noteq> k \<longrightarrow> get m' j = get m j)"
  by (auto simp: get_ups touch_def split: option.splits)

lemma ups_known: "invar m \<Longrightarrow> get m k \<noteq> None \<Longrightarrow> ups m k a t mx = (m', ins, cap) \<Longrightarrow> \<not> cap \<and> \<not> ins"
  using ups_cap [of m k a t mx m' ins cap] ups_ins [of m k a t mx m' ins cap] by auto

lemma ups_lastNotify:
  "invar m \<Longrightarrow> get m k = Some n \<Longrightarrow> \<exists>n'. get (fst (ups m j a t mx)) k = Some n' \<and> lastNotify n' = lastNotify n"
  by (cases "ups m j a t mx") (auto simp: get_ups touch_def split: option.splits)

text \<open>
  While a node stays registered, a stamp \<open>lastNotify = u\<close> keeps every later claim of that node
  at least \<open>gap\<close> behind \<open>u\<close>.
\<close>

lemma claims_after_stamp:
  assumes "invar m" "get m k = Some n" "\<not> IsZero (lastNotify n)" "claims_timed lb ops"
    and "mono (lastNotify n) \<le> lb" and "gap \<le> maxDuration" "minDuration < gap"
    and "(k, t) \<in> set (snd (reg_run ups claim reap mx gap m ops))"
  shows "gap \<le> mono t - mono (lastNotify n)"
  using assms
proof (induction ops arbitrary: m n lb)
  case (Cons oper ops)
  show ?case
  proof (cases oper)
    case (NUpsert j a u)
    obtain n' where "get (fst (ups m j a u mx)) k = Some n'" "lastNotify n' = lastNotify n"
      using ups_lastNotify Cons.prems(1,2) by blast
    then show ?thesis
      using Cons.IH [OF invar_ups [OF Cons.prems(1)], of j a u mx n' lb] Cons.prems(3-8) NUpsert by simp
  next
    case (NReap thr)
    with Cons.prems show ?thesis by simp
  next
    case (NClaim j u)
    define m' where "m' = fst (claim m j u gap)"
    have m': "invar m'" by (simp add: m'_def invar_claim Cons.prems(1))
    have log: "(k, t) = (j, u) \<and> (\<exists>a. snd (claim m j u gap) = Claimed a)
        \<or> (k, t) \<in> set (snd (reg_run ups claim reap mx gap m' ops))"
      using Cons.prems(8) NClaim by (auto simp: m'_def split_beta split: notify_claim.splits)
    show ?thesis
    proof (cases "j = k \<and> (\<exists>a. snd (claim m j u gap) = Claimed a)")
      case True
      then have gap: "gap \<le> mono u - mono (lastNotify n)"
        using Cons.prems(1,2,3,6,7)
        by (auto simp: claim_result Sub_less_iff split: if_splits)
      show ?thesis
      proof (cases "(k, t) = (j, u)")
        case False
        have "get m' k = Some (n\<lparr>lastNotify := u\<rparr>)"
          using True Cons.prems(1,2) by (auto simp: m'_def get_claim split: notify_claim.splits)
        then have "gap \<le> mono t - mono u"
          using Cons.IH [OF m', of "n\<lparr>lastNotify := u\<rparr>" "mono u"] log False Cons.prems(4,6,7) NClaim
          by auto
        moreover have "mono (lastNotify n) \<le> mono u"
          using Cons.prems(4,5) NClaim by simp
        ultimately show ?thesis by simp
      qed (use gap in simp)
    next
      case False
      then have "get m' k = Some n"
        using Cons.prems(1,2)
        by (auto simp: m'_def get_claim split: notify_claim.splits)
      then show ?thesis
        using Cons.IH [OF m', of n "mono u"] log False Cons.prems(3-7) NClaim by auto
    qed
  qed
qed simp

lemma claims_spaced:
  assumes "invar m" "claims_timed lb ops" "gap \<le> maxDuration" "minDuration < gap"
  shows "sorted_wrt (spaced gap)
           (snd (reg_run ups claim reap mx gap m ops))"
  using assms(1,2)
proof (induction ops arbitrary: m lb)
  case (Cons oper ops)
  show ?case
  proof (cases oper)
    case (NUpsert j a u)
    with Cons.IH [OF invar_ups [OF Cons.prems(1)]] Cons.prems(2) show ?thesis by auto
  next
    case (NReap thr)
    with Cons.prems show ?thesis by simp
  next
    case (NClaim j u)
    define m' where "m' = fst (claim m j u gap)"
    have m': "invar m'" by (simp add: m'_def invar_claim Cons.prems(1))
    have IH: "sorted_wrt (spaced gap)
        (snd (reg_run ups claim reap mx gap m' ops))"
      using Cons.IH [OF m'] Cons.prems(2) NClaim by auto
    have head: "gap \<le> mono t - mono u"
      if claimed: "snd (claim m j u gap) = Claimed a" and later: "(j, t) \<in> set (snd (reg_run ups claim reap mx gap m' ops))"
      for a t
    proof -
      obtain n where n: "get m j = Some n"
        using claimed Cons.prems(1) by (cases "get m j") (auto simp: claim_result)
      then have "get m' j = Some (n\<lparr>lastNotify := u\<rparr>)"
        using claimed Cons.prems(1) by (simp add: m'_def get_claim)
      then show ?thesis
        using claims_after_stamp [OF m', of j "n\<lparr>lastNotify := u\<rparr>" "mono u" ops] later
          Cons.prems(2) NClaim assms(3,4) by simp
    qed
    show ?thesis
      using IH head NClaim by (auto simp: m'_def split_beta split: notify_claim.splits)
  qed
qed simp

end

interpretation nm: node_registry nodes_abs Upsert claimNotify ReapStale node_wf
proof unfold_locales
  fix m k a t mx m' ins cap
  assume wf: "node_wf m" and eq: "Upsert m k a t mx = (m', ins, cap)"
  show "nodes_abs m' = (if cap then nodes_abs m else (nodes_abs m)(k \<mapsto> touch (nodes_abs m k) a t))"
    using wf eq by (auto simp: Upsert_put nodes_abs_put split: option.splits if_splits)
  show "cap \<Longrightarrow> nodes_abs m k = None" and "ins \<longleftrightarrow> nodes_abs m k = None \<and> \<not> cap"
    using eq by (auto simp: Upsert_put split: option.splits if_splits)
next
  fix m k t gap
  assume "node_wf m"
  then show "nodes_abs (fst (claimNotify m k t gap)) =
      (case snd (claimNotify m k t gap) of
        Claimed _ \<Rightarrow> (nodes_abs m)(k \<mapsto> (the (nodes_abs m k))\<lparr>lastNotify := t\<rparr>) | _ \<Rightarrow> nodes_abs m)"
    by (rule nodes_abs_claim)
  show "snd (claimNotify m k t gap) =
      (case nodes_abs m k of None \<Rightarrow> NotFound
       | Some n \<Rightarrow> if \<not> IsZero (lastNotify n) \<and> Sub t (lastNotify n) < gap then Throttled (addr n)
                   else Claimed (addr n))"
    by (simp add: claimNotify_put split: option.splits)
qed (auto simp: nodes_abs_reap)

section \<open>Capacity\<close>

text \<open>Each shard holds at most its share of the capacity.\<close>

definition shard_caps :: "int \<Rightarrow> nodeMap \<Rightarrow> bool" where
  "shard_caps mx m \<longleftrightarrow> (\<forall>s \<in> set (shards m). int (fm_len s) \<le> mx div int nodeShardCount)"

lemma shard_caps_new [simp]: "0 < mx \<Longrightarrow> shard_caps mx newNodeMap"
  by (auto simp: shard_caps_def newNodeMap_def pos_imp_zdiv_nonneg_iff nodeShardCount_def)

lemma shard_caps_nth: "node_wf m \<Longrightarrow> shard_caps mx m \<Longrightarrow>
    int (fm_len (shards m ! shardFor k)) \<le> mx div int nodeShardCount"
  using shardFor_less [of k] by (simp add: shard_caps_def node_wf_def sh_wf_def)

lemma shard_caps_put:
  assumes "node_wf m" "shard_caps mx m"
    and "nodes_abs m k = None \<Longrightarrow> int (fm_len (shards m ! shardFor k)) < mx div int nodeShardCount"
  shows "shard_caps mx (m\<lparr>shards := sh_put shardFor k v (shards m)\<rparr>)"
proof -
  let ?s = "shards m ! shardFor k"
  have new: "int (fm_len (fmupd k v ?s)) \<le> mx div int nodeShardCount"
    using assms(3) shard_caps_nth [OF assms(1,2), of k]
    by (cases "fmlookup ?s k") (auto simp: nodes_abs_def sh_get_def)
  show ?thesis
    unfolding shard_caps_def
  proof
    fix s assume "s \<in> set (shards (m\<lparr>shards := sh_put shardFor k v (shards m)\<rparr>))"
    then have "s = fmupd k v ?s \<or> s \<in> set (shards m)"
      using set_update_subset_insert by (fastforce simp: sh_put_def)
    then show "int (fm_len s) \<le> mx div int nodeShardCount"
      using new assms(2) by (auto simp: shard_caps_def)
  qed
qed

lemma shard_caps_Upsert:
  "node_wf m \<Longrightarrow> shard_caps mx m \<Longrightarrow> 0 < mx \<Longrightarrow> shard_caps mx (fst (Upsert m k a t mx))"
  by (auto simp: Upsert_put intro!: shard_caps_put split: option.splits)

lemma shard_caps_claim:
  "node_wf m \<Longrightarrow> shard_caps mx m \<Longrightarrow> shard_caps mx (fst (claimNotify m k t gap))"
  by (auto simp: claimNotify_put intro!: shard_caps_put split: option.splits)

lemma shard_caps_reap: "shard_caps mx m \<Longrightarrow> shard_caps mx (fst (ReapStale m thr))"
proof -
  have "int (fm_len (fm_keep P s)) \<le> c" if "int (fm_len s) \<le> c"
    for P and s :: "(nodeid, beaconNode) fmap" and c
    using that fm_keep_len_le [of P s] by linarith
  then show "shard_caps mx m \<Longrightarrow> ?thesis"
    by (auto simp: ReapStale_def shard_caps_def)
qed

lemma shard_caps_run:
  assumes "node_wf m" "shard_caps mx m" "0 < mx"
  shows "shard_caps mx (fst (reg_run Upsert claimNotify ReapStale mx gap m ops))"
  using assms(1,2)
proof (induction ops arbitrary: m)
  case (Cons oper ops)
  show ?case
    using Cons.IH Cons.prems shard_caps_Upsert [OF Cons.prems assms(3)] shard_caps_claim [OF Cons.prems]
      shard_caps_reap [OF Cons.prems(2)] node_wf_Upsert node_wf_claim node_wf_reap
    by (cases oper) (auto simp: split_beta split: notify_claim.split)
qed simp

lemma shard_caps_Len:
  assumes "node_wf m" "shard_caps mx m" "0 < mx"
  shows "int (Len m) \<le> mx"
proof -
  have "sum_list (map (\<lambda>s. int (fm_len s)) (shards m)) \<le> sum_list (map (\<lambda>_. mx div 64) (shards m))"
    using assms(2) by (intro sum_list_mono) (simp add: shard_caps_def nodeShardCount_def)
  also have "\<dots> = 64 * (mx div 64)"
    using assms(1) by (simp add: node_wf_def sh_wf_def nodeShardCount_def sum_list_triv)
  also have "\<dots> \<le> mx"
    by simp
  finally show ?thesis
    by (simp add: Len_def int_sum_list comp_def)
qed

section \<open>Properties\<close>

text \<open>Inputs of the witnesses: an endpoint, and a clock reading some seconds after the start.\<close>

definition exAddr :: udpaddr where
  "exAddr = \<lparr>IP = [10, 0, 0, 1], Port = 4000, Zone = []\<rparr>"

definition at_s :: "int \<Rightarrow> gotime" where
  "at_s n = \<lparr>wall = unixToInternal * second + n * second, mono = n * second\<rparr>"

definition exTable :: nodeMap where
  "exTable = fst (Upsert (fst (Upsert newNodeMap 7 exAddr (at_s 1) 500000)) 71 exAddr (at_s 9) 500000)"

lemma exTable_wf [simp]: "node_wf exTable"
  by (simp add: exTable_def node_wf_Upsert)

lemma sharded_ids:
  assumes "node_wf m" "iter_ok it"
  shows "distinct (IDs it m) \<and> set (IDs it m) = dom (nodes_abs m)"
proof -
  have wf: "sh_wf shardFor nodeShardCount (shards m)" and len: "length (shards m) = nodeShardCount"
    using assms(1) by (simp_all add: node_wf_def sh_wf_def)
  have sets: "set (it (fmdom s)) = fset (fmdom s)" and dist: "distinct (it (fmdom s))" for s :: nodeShard
    using assms(2) by (simp_all add: iter_okD)
  have "set (IDs it m) = (\<Union>s \<in> set (shards m). fset (fmdom s))"
    by (simp add: IDs_def sets)
  also have "\<dots> = (\<Union>i<nodeShardCount. fset (fmdom (shards m ! i)))"
    by (force simp: set_conv_nth len)
  also have "\<dots> = dom (nodes_abs m)"
    by (simp add: nodes_abs_def ns.dom_eq_Union [OF wf])
  finally have "set (IDs it m) = dom (nodes_abs m)" .
  moreover have "distinct (IDs it m)"
    unfolding IDs_def
    by (rule distinct_concat_map)
      (simp_all add: sorted_wrt_iff_nth_less sets dist len ns.shards_disjoint [OF wf])
  ultimately show ?thesis by simp
qed

text \<open>
  C16: The sharded table implements one flat map.  \<open>Upsert\<close> refreshes a known node, keeping its
  notify stamp, inserts an unknown one while its share of the capacity is not used up, and
  otherwise changes nothing and reports that the shard is full; every other entry is untouched
  and the shards stay well-formed.
\<close>

theorem upsert_refines_flat:
  assumes "node_wf m"
  shows "(case Upsert m nodeID a now maxTotal of (m', inserted, atCap) \<Rightarrow>
           node_wf m' \<and> (nodes_abs m', inserted, atCap) = flat_upsert (nodes_abs m) nodeID a now maxTotal)"
proof -
  have "fm_len (shards m ! shardFor nodeID) = card (bucket (nodes_abs m) nodeID)"
    by (simp add: shard_bucket assms)
  then show ?thesis
    using assms
    by (simp add: Upsert_put flat_upsert_def nodeShardCount_def node_wf_put nodes_abs_put
        split: option.splits)
qed

theorem upsert_refines_flat_witness:
  "node_wf exTable \<and>
   (case Upsert exTable 7 exAddr (at_s 20) 64 of (m', inserted, atCap) \<Rightarrow>
      node_wf m' \<and> (nodes_abs m', inserted, atCap) = flat_upsert (nodes_abs exTable) 7 exAddr (at_s 20) 64)"
  using upsert_refines_flat [OF exTable_wf, of 7 exAddr "at_s 20" 64] by simp

text \<open>
  C35: however registrations, notifies and reaps are interleaved, a table that starts empty and
  is filled with one capacity never holds more nodes than that capacity (the server passes
  \<open>maxBeaconNodes\<close>).
\<close>

theorem node_capacity:
  assumes "0 < maxTotal"
  shows "int (Len (fst (reg_run Upsert claimNotify ReapStale maxTotal gap newNodeMap ops))) \<le> maxTotal"
  using assms by (intro shard_caps_Len shard_caps_run nm.run_invar) auto

theorem node_capacity_witness:
  "(0 :: int) < 500000 \<and>
   int (Len (fst (reg_run Upsert claimNotify ReapStale 500000 second newNodeMap
     [NUpsert 1 exAddr (at_s 1), NReap (at_s 900)]))) \<le> 500000"
  using node_capacity [of 500000 second
      "[NUpsert 1 exAddr (at_s 1), NReap (at_s 900)]"] by simp

lemma length_IDs: "node_wf m \<Longrightarrow> iter_ok it \<Longrightarrow> length (IDs it m) = Len m"
  using sharded_ids Len_card by (metis distinct_card)

text \<open>
  Whatever order the runtime iterates the shard maps in, \<open>IDs\<close> lists every registered id
  exactly once and nothing else, and \<open>Len\<close> is their number.
\<close>

theorem ids_exact:
  assumes "node_wf m" "iter_ok it"
  shows "distinct (IDs it m) \<and> set (IDs it m) = {k. Has m k} \<and> length (IDs it m) = Len m"
proof -
  have "set (IDs it m) = {k. Has m k}"
    using sharded_ids [OF assms] by (auto simp: Has_abs)
  then show ?thesis using sharded_ids [OF assms] length_IDs [OF assms] by simp
qed

theorem ids_exact_witness:
  "node_wf exTable \<and> iter_ok (sorted_list_of_fset :: nodeid fset \<Rightarrow> nodeid list) \<and>
   distinct (IDs sorted_list_of_fset exTable) \<and>
   set (IDs sorted_list_of_fset exTable) = {k. Has exTable k} \<and>
   length (IDs sorted_list_of_fset exTable) = Len exTable"
  using ids_exact [OF exTable_wf iter_ok_sorted] by (simp add: iter_ok_sorted)

text \<open>
  \<open>ReapStale\<close> removes exactly the nodes whose last registration is strictly before the
  threshold, leaves every other entry as it is, and returns the number of nodes removed.
\<close>

theorem reap_exact:
  assumes "node_wf m"
  shows "nodes_abs (fst (ReapStale m threshold)) = flat_reap (nodes_abs m) threshold
    \<and> snd (ReapStale m threshold) + Len (fst (ReapStale m threshold)) = Len m
    \<and> node_wf (fst (ReapStale m threshold))"
proof -
  have "snd (ReapStale m threshold) + Len (fst (ReapStale m threshold)) = Len m"
    using sh_len_partition [of "shards m" "\<lambda>id n. \<not> Before (lastSeen n) threshold"]
    by (simp add: Len_sh_len ReapStale_def sh_keep_def)
  then show ?thesis by (simp add: nodes_abs_reap node_wf_reap assms)
qed

theorem reap_exact_witness:
  "node_wf exTable
   \<and> nodes_abs (fst (ReapStale exTable (at_s 5))) = flat_reap (nodes_abs exTable) (at_s 5)
   \<and> snd (ReapStale exTable (at_s 5)) + Len (fst (ReapStale exTable (at_s 5))) = Len exTable
   \<and> node_wf (fst (ReapStale exTable (at_s 5)))"
  using reap_exact [OF exTable_wf, of "at_s 5"] by simp

text \<open>
  As long as nothing is reaped, two notifies claimed for one node are at least the minimum
  gap apart, whatever registrations and claims for any nodes come in between.
\<close>

theorem notify_spacing:
  assumes "claims_timed lb ops" "minDuration < minGap" "minGap \<le> maxDuration" "node_wf m"
  shows "sorted_wrt (spaced minGap) (snd (reg_run Upsert claimNotify ReapStale maxTotal minGap m ops))"
  by (rule nm.claims_spaced [OF assms(4,1,3,2)])

theorem notify_spacing_witness:
  "(let ops = [NUpsert 7 exAddr (at_s 1), NClaim 7 (at_s 2), NClaim 7 (at_s 2), NClaim 7 (at_s 3)] in
    claims_timed 0 ops \<and> minDuration < second \<and> second \<le> maxDuration \<and> node_wf newNodeMap
    \<and> snd (reg_run Upsert claimNotify ReapStale 500000 second newNodeMap ops)
        = [(7, at_s 2), (7, at_s 3)]
    \<and> sorted_wrt (spaced second)
        (snd (reg_run Upsert claimNotify ReapStale 500000 second newNodeMap ops)))"
proof -
  let ?ops = "[NUpsert 7 exAddr (at_s 1), NClaim 7 (at_s 2), NClaim 7 (at_s 2), NClaim 7 (at_s 3)]"
  have h: "claims_timed 0 ?ops" "minDuration < second" "second \<le> maxDuration"
    by (simp_all add: at_s_def IsZero_def duration_defs unixToInternal_def)
  have "snd (reg_run Upsert claimNotify ReapStale 500000 second newNodeMap ?ops)
        = [(7, at_s 2), (7, at_s 3)]"
    by (simp add: Upsert_def claimNotify_def newNodeMap_def shardFor_def nodeShardCount_def
        at_s_def Sub_def IsZero_def zeroTime_def duration_defs unixToInternal_def Let_def)
  then show ?thesis
    using h notify_spacing [OF h node_wf_new, of 500000] by (simp add: Let_def)
qed

end
