(* ===== verification/RateLimit.thy ===== *)
theory RateLimit
  imports NodeMap
begin

text \<open>
  The rate limiters of \<^verbatim>\<open>ratelimit_shard.go\<close>.  The discover and the punch limiter keep the time
  of the last grant per key and refuse a grant within an interval of it; the locale
  \<open>interval_limiter\<close> states that contract once and derives from it that grants of one key are
  spaced and that sweeping old entries cannot be observed.  The relay limiter counts grants per
  one-second window.  Each \<^verbatim>\<open>allow\<close> reads the clock as often as the code does: once to compare and
  once to stamp.
\<close>

section \<open>Shard indices\<close>

definition rateLimitShards :: nat where
  "rateLimitShards = 256"

definition shardU32 :: "u32 \<Rightarrow> u32" where
  "shardU32 k = (k * 2654435761) AND (of_nat rateLimitShards - 1)"

definition fnv_step :: "u32 \<Rightarrow> u32 \<Rightarrow> u32" where
  "fnv_step h x = (h XOR x) * 16777619"

definition shardStr :: "string \<Rightarrow> u32" where
  "shardStr s = fold (\<lambda>c h. fnv_step h (of_char c)) s 2166136261 AND (of_nat rateLimitShards - 1)"

lemma mask_shard_less: "unat (h AND (of_nat rateLimitShards - 1) :: u32) < rateLimitShards"
proof -
  have "unat (h AND 255) \<le> unat (255 :: u32)"
    by (rule word_and_le1 [THEN word_le_nat_alt [THEN iffD1]])
  then show ?thesis by (simp add: rateLimitShards_def)
qed

section \<open>The discover limiter\<close>

record discoverRateLimiter =
  discoverShards :: "(nodeid, gotime) fmap list"

definition newDiscoverRateLimiter :: discoverRateLimiter where
  "newDiscoverRateLimiter = \<lparr>discoverShards = replicate rateLimitShards fmempty\<rparr>"

text \<open>\<open>t1\<close> is the reading inside \<^verbatim>\<open>time.Since(last)\<close>, \<open>t2\<close> the one stored.\<close>

definition discover_allow ::
    "discoverRateLimiter \<Rightarrow> nodeid \<Rightarrow> duration \<Rightarrow> gotime \<Rightarrow> gotime \<Rightarrow> bool \<times> discoverRateLimiter" where
  "discover_allow rl nodeID minInterval t1 t2 =
     (let i = unat (shardU32 nodeID); m = discoverShards rl ! i in
      if (case fmlookup m nodeID of Some prev \<Rightarrow> Sub t1 prev < minInterval | None \<Rightarrow> False)
      then (False, rl)
      else (True, rl\<lparr>discoverShards := (discoverShards rl)[i := fmupd nodeID t2 m]\<rparr>))"

definition discover_sweep :: "discoverRateLimiter \<Rightarrow> gotime \<Rightarrow> discoverRateLimiter" where
  "discover_sweep rl cutoff =
     rl\<lparr>discoverShards := map (fm_keep (\<lambda>id prev. \<not> Before prev cutoff)) (discoverShards rl)\<rparr>"

section \<open>The punch limiter\<close>

record punchRateLimiter =
  punchShards :: "(string, gotime) fmap list"

definition newPunchRateLimiter :: punchRateLimiter where
  "newPunchRateLimiter = \<lparr>punchShards = replicate rateLimitShards fmempty\<rparr>"

definition punch_allow ::
    "punchRateLimiter \<Rightarrow> string \<Rightarrow> duration \<Rightarrow> gotime \<Rightarrow> gotime \<Rightarrow> bool \<times> punchRateLimiter" where
  "punch_allow rl sourceKey minInterval t1 t2 =
     (let i = unat (shardStr sourceKey); m = punchShards rl ! i in
      if (case fmlookup m sourceKey of Some prev \<Rightarrow> Sub t1 prev < minInterval | None \<Rightarrow> False)
      then (False, rl)
      else (True, rl\<lparr>punchShards := (punchShards rl)[i := fmupd sourceKey t2 m]\<rparr>))"

definition punch_sweep :: "punchRateLimiter \<Rightarrow> gotime \<Rightarrow> punchRateLimiter" where
  "punch_sweep rl cutoff =
     rl\<lparr>punchShards := map (fm_keep (\<lambda>ip prev. \<not> Before prev cutoff)) (punchShards rl)\<rparr>"

section \<open>The relay limiter\<close>

record relaySourceKey =
  keyIP :: bytes
  keyPort :: u16
  keyNode :: u32
  keyBridged :: bool

record relaySourceWindow =
  windowStart :: i64
  windowCount :: u32

definition zeroKey :: relaySourceKey where
  "zeroKey = \<lparr>keyIP = replicate 16 0, keyPort = 0, keyNode = 0, keyBridged = False\<rparr>"

definition relaySourceForUDP :: "udpaddr option \<Rightarrow> relaySourceKey" where
  "relaySourceForUDP remote = (case remote of
      None \<Rightarrow> zeroKey
    | Some r \<Rightarrow> zeroKey\<lparr>
        keyIP := (if length (IP r) = 4 then replicate 10 0 @ [255, 255] @ IP r
                  else if length (IP r) = 16 then IP r
                  else replicate 16 0),
        keyPort := word_of_int (Port r)\<rparr>)"

definition relaySourceForBridge :: "u32 \<Rightarrow> relaySourceKey" where
  "relaySourceForBridge peerID = zeroKey\<lparr>keyNode := peerID, keyBridged := True\<rparr>"

definition shardRelaySource :: "relaySourceKey \<Rightarrow> u32" where
  "shardRelaySource k =
     (let h1 = fold (\<lambda>b h. fnv_step h (ucast b)) (keyIP k) 2166136261;
          h2 = fnv_step h1 (ucast (keyPort k));
          h3 = fnv_step h2 (keyNode k);
          h4 = (if keyBridged k then fnv_step h3 1 else h3)
      in h4 AND (of_nat rateLimitShards - 1))"

record relayRateLimiter =
  relayShards :: "(relaySourceKey, relaySourceWindow) fmap list"

definition newRelayRateLimiter :: relayRateLimiter where
  "newRelayRateLimiter = \<lparr>relayShards = replicate rateLimitShards fmempty\<rparr>"

definition nanosPerSecond :: i64 where
  "nanosPerSecond = word_of_int second"

definition relay_allow ::
    "relayRateLimiter \<Rightarrow> relaySourceKey \<Rightarrow> i64 \<Rightarrow> u32 \<Rightarrow> bool \<times> relayRateLimiter" where
  "relay_allow rl src nowNano maxPerSecond =
     (let i = unat (shardRelaySource src); m = relayShards rl ! i;
          put = (\<lambda>w. rl\<lparr>relayShards := (relayShards rl)[i := fmupd src w m]\<rparr>)
      in case fmlookup m src of
           None \<Rightarrow> (True, put \<lparr>windowStart = nowNano, windowCount = 1\<rparr>)
         | Some w \<Rightarrow>
             if nanosPerSecond \<le>s nowNano - windowStart w
             then (True, put \<lparr>windowStart = nowNano, windowCount = 1\<rparr>)
             else if maxPerSecond \<le> windowCount w then (False, rl)
             else (True, put (w\<lparr>windowCount := windowCount w + 1\<rparr>)))"

definition relay_sweep :: "relayRateLimiter \<Rightarrow> i64 \<Rightarrow> relayRateLimiter" where
  "relay_sweep rl cutoffNano =
     rl\<lparr>relayShards := map (fm_keep (\<lambda>id w. \<not> windowStart w <s cutoffNano)) (relayShards rl)\<rparr>"

section \<open>The contract of an interval limiter\<close>

text \<open>
  A run interleaves requests for any keys with sweeps; its result lists the grants with the
  stamp each of them stored.
\<close>

datatype 'k limiter_op = LAllow 'k gotime gotime | LSweep gotime duration

fun limiter_run ::
    "('s \<Rightarrow> 'k \<Rightarrow> duration \<Rightarrow> gotime \<Rightarrow> gotime \<Rightarrow> bool \<times> 's) \<Rightarrow> ('s \<Rightarrow> gotime \<Rightarrow> 's) \<Rightarrow> duration
     \<Rightarrow> 's \<Rightarrow> 'k limiter_op list \<Rightarrow> ('k \<times> gotime) list" where
  "limiter_run allow sweep d s [] = []"
| "limiter_run allow sweep d s (LAllow k t1 t2 # ops) =
     (let (ok, s') = allow s k d t1 t2; log = limiter_run allow sweep d s' ops in
      if ok then (k, t2) # log else log)"
| "limiter_run allow sweep d s (LSweep now age # ops) =
     limiter_run allow sweep d (sweep s (Add now (- age))) ops"

text \<open>The clock does not run backwards, and a sweep removes only entries older than the interval.\<close>

fun limiter_timed :: "duration \<Rightarrow> int \<Rightarrow> 'k limiter_op list \<Rightarrow> bool" where
  "limiter_timed d lb [] = True"
| "limiter_timed d lb (LAllow k t1 t2 # ops) =
     (lb \<le> mono t1 \<and> mono t1 \<le> mono t2 \<and> limiter_timed d (mono t2) ops)"
| "limiter_timed d lb (LSweep now age # ops) =
     (lb \<le> mono now \<and> d \<le> age \<and> limiter_timed d (mono now) ops)"

locale interval_limiter =
  fixes last_grant :: "'s \<Rightarrow> 'k \<Rightarrow> gotime option"
    and allow :: "'s \<Rightarrow> 'k \<Rightarrow> duration \<Rightarrow> gotime \<Rightarrow> gotime \<Rightarrow> bool \<times> 's"
    and sweep :: "'s \<Rightarrow> gotime \<Rightarrow> 's"
    and invar :: "'s \<Rightarrow> bool"
  assumes allow_iff: "invar s \<Longrightarrow> fst (allow s k d t1 t2) \<longleftrightarrow>
      (case last_grant s k of None \<Rightarrow> True | Some l \<Rightarrow> \<not> Sub t1 l < d)"
    and allow_stamp: "invar s \<Longrightarrow> last_grant (snd (allow s k d t1 t2)) =
      (if fst (allow s k d t1 t2) then (last_grant s)(k \<mapsto> t2) else last_grant s)"
    and sweep_stamp: "invar s \<Longrightarrow> last_grant (sweep s c) k =
      (case last_grant s k of None \<Rightarrow> None | Some l \<Rightarrow> if Before l c then None else Some l)"
    and invar_allow: "invar s \<Longrightarrow> invar (snd (allow s k d t1 t2))"
    and invar_sweep: "invar s \<Longrightarrow> invar (sweep s c)"
begin

text \<open>
  A grant of \<open>k\<close> stamped \<open>l\<close> is remembered, or so old that it no longer matters.
\<close>

definition remembers :: "'s \<Rightarrow> 'k \<Rightarrow> gotime \<Rightarrow> duration \<Rightarrow> int \<Rightarrow> bool" where
  "remembers s k l d lb \<longleftrightarrow> (case last_grant s k of
      Some l' \<Rightarrow> mono l \<le> mono l' | None \<Rightarrow> mono l + d \<le> lb)"

lemma grants_after:
  assumes "invar s" "limiter_timed d lb ops" "0 < d" "d \<le> maxDuration"
    and "remembers s k l d lb" "(k, t) \<in> set (limiter_run allow sweep d s ops)"
  shows "d \<le> mono t - mono l"
  using assms(1,2,5,6)
proof (induction ops arbitrary: s lb)
  case (Cons oper ops)
  have range: "minDuration < d" using assms(3) by (simp add: duration_defs)
  show ?case
  proof (cases oper)
    case (LSweep now age)
    have "remembers (sweep s (Add now (- age))) k l d (mono now)"
      using Cons.prems LSweep
      by (auto simp: remembers_def sweep_stamp Before_def split: option.splits)
    then show ?thesis
      using Cons.IH [OF invar_sweep [OF Cons.prems(1)]] Cons.prems LSweep by auto
  next
    case (LAllow j t1 t2)
    define s' where "s' = snd (allow s j d t1 t2)"
    have s': "invar s'" by (simp add: s'_def invar_allow Cons.prems(1))
    have timed: "lb \<le> mono t1" "mono t1 \<le> mono t2" "limiter_timed d (mono t2) ops"
      using Cons.prems(2) LAllow by auto
    have spaced: "mono l + d \<le> mono t1" if "fst (allow s j d t1 t2)" "j = k"
      using that Cons.prems(1,3) timed(1) assms(4) range
      by (auto simp: remembers_def allow_iff Sub_less_iff split: option.splits)
    have rem: "remembers s' k l d (mono t2)"
      using spaced Cons.prems(1,3) timed assms(3)
      by (auto simp: remembers_def s'_def allow_stamp split: option.splits)
    from Cons.prems(4) LAllow
    consider "fst (allow s j d t1 t2)" "j = k" "t = t2"
      | "(k, t) \<in> set (limiter_run allow sweep d s' ops)"
      by (auto simp: s'_def split_beta Let_def split: if_splits)
    then show ?thesis
    proof cases
      case 1
      with spaced timed(2) show ?thesis by simp
    next
      case 2
      show ?thesis by (rule Cons.IH [OF s' timed(3) rem 2])
    qed
  qed
qed simp

lemma grants_spaced:
  assumes "invar s" "limiter_timed d lb ops" "0 < d" "d \<le> maxDuration"
  shows "sorted_wrt (spaced d) (limiter_run allow sweep d s ops)"
  using assms(1,2)
proof (induction ops arbitrary: s lb)
  case (Cons oper ops)
  show ?case
  proof (cases oper)
    case (LSweep now age)
    then show ?thesis
      using Cons.IH [OF invar_sweep [OF Cons.prems(1)]] Cons.prems(2) by auto
  next
    case (LAllow k t1 t2)
    define s' where "s' = snd (allow s k d t1 t2)"
    have s': "invar s'" by (simp add: s'_def invar_allow Cons.prems(1))
    have timed: "limiter_timed d (mono t2) ops" using Cons.prems(2) LAllow by simp
    have "d \<le> mono t - mono t2"
      if "fst (allow s k d t1 t2)" "(k, t) \<in> set (limiter_run allow sweep d s' ops)" for t
      by (rule grants_after [OF s' timed assms(3,4) _ that(2)])
        (simp add: remembers_def s'_def allow_stamp Cons.prems(1) that(1))
    then show ?thesis
      using Cons.IH [OF s' timed] LAllow by (auto simp: s'_def split_beta Let_def)
  qed
qed simp

text \<open>A sweep whose cutoff is at least one interval old does not change any later decision.\<close>

lemma sweep_unobservable:
  assumes "invar s" "mono c + d \<le> mono t1" "0 < d" "d \<le> maxDuration"
  shows "fst (allow (sweep s c) k d t1 t2) = fst (allow s k d t1 t2)"
proof -
  have "minDuration < d" using assms(3) by (simp add: duration_defs)
  with assms show ?thesis
    by (auto simp: allow_iff invar_sweep sweep_stamp Before_def Sub_less_iff split: option.splits)
qed

end

section \<open>The three limiters as sharded maps\<close>

definition discoverIdx :: "nodeid \<Rightarrow> nat" where
  "discoverIdx k = unat (shardU32 k)"

definition punchIdx :: "string \<Rightarrow> nat" where
  "punchIdx k = unat (shardStr k)"

definition relayIdx :: "relaySourceKey \<Rightarrow> nat" where
  "relayIdx k = unat (shardRelaySource k)"

interpretation ds: sharding discoverIdx rateLimitShards
  by unfold_locales (simp add: discoverIdx_def shardU32_def mask_shard_less)

interpretation ps: sharding punchIdx rateLimitShards
  by unfold_locales (simp add: punchIdx_def shardStr_def mask_shard_less)

interpretation rs: sharding relayIdx rateLimitShards
  by unfold_locales (simp add: relayIdx_def shardRelaySource_def Let_def mask_shard_less)

definition discover_last :: "discoverRateLimiter \<Rightarrow> nodeid \<Rightarrow> gotime option" where
  "discover_last rl = sh_get discoverIdx (discoverShards rl)"

definition discover_wf :: "discoverRateLimiter \<Rightarrow> bool" where
  "discover_wf rl \<longleftrightarrow> sh_wf discoverIdx rateLimitShards (discoverShards rl)"

definition punch_last :: "punchRateLimiter \<Rightarrow> string \<Rightarrow> gotime option" where
  "punch_last rl = sh_get punchIdx (punchShards rl)"

definition punch_wf :: "punchRateLimiter \<Rightarrow> bool" where
  "punch_wf rl \<longleftrightarrow> sh_wf punchIdx rateLimitShards (punchShards rl)"

definition relay_window :: "relayRateLimiter \<Rightarrow> relaySourceKey \<Rightarrow> relaySourceWindow option" where
  "relay_window rl = sh_get relayIdx (relayShards rl)"

definition relay_wf :: "relayRateLimiter \<Rightarrow> bool" where
  "relay_wf rl \<longleftrightarrow> sh_wf relayIdx rateLimitShards (relayShards rl)"

lemma discover_allow_eq:
  "discover_allow rl k d t1 t2 =
     (if (case discover_last rl k of Some l \<Rightarrow> Sub t1 l < d | None \<Rightarrow> False) then (False, rl)
      else (True, rl\<lparr>discoverShards := sh_put discoverIdx k t2 (discoverShards rl)\<rparr>))"
  by (simp add: discover_allow_def discover_last_def sh_get_def sh_put_def discoverIdx_def Let_def)

lemma punch_allow_eq:
  "punch_allow rl k d t1 t2 =
     (if (case punch_last rl k of Some l \<Rightarrow> Sub t1 l < d | None \<Rightarrow> False) then (False, rl)
      else (True, rl\<lparr>punchShards := sh_put punchIdx k t2 (punchShards rl)\<rparr>))"
  by (simp add: punch_allow_def punch_last_def sh_get_def sh_put_def punchIdx_def Let_def)

interpretation dl: interval_limiter discover_last discover_allow discover_sweep discover_wf
  by unfold_locales
    (auto simp: discover_allow_eq discover_last_def discover_wf_def discover_sweep_def
      ds.get_put ds.wf_put ds.get_keep sh_wf_keep sh_keep_def [symmetric] split: option.splits)

interpretation pl: interval_limiter punch_last punch_allow punch_sweep punch_wf
  by unfold_locales
    (auto simp: punch_allow_eq punch_last_def punch_wf_def punch_sweep_def
      ps.get_put ps.wf_put ps.get_keep sh_wf_keep sh_keep_def [symmetric] split: option.splits)

lemma discover_wf_new [simp]: "discover_wf newDiscoverRateLimiter"
  by (simp add: discover_wf_def newDiscoverRateLimiter_def sh_wf_empty)

lemma punch_wf_new [simp]: "punch_wf newPunchRateLimiter"
  by (simp add: punch_wf_def newPunchRateLimiter_def sh_wf_empty)

lemma relay_wf_new [simp]: "relay_wf newRelayRateLimiter"
  by (simp add: relay_wf_def newRelayRateLimiter_def sh_wf_empty)

lemma discover_last_new [simp]: "discover_last newDiscoverRateLimiter k = None"
  by (simp add: discover_last_def newDiscoverRateLimiter_def)

lemma punch_last_new [simp]: "punch_last newPunchRateLimiter k = None"
  by (simp add: punch_last_def newPunchRateLimiter_def)

lemma relay_window_new [simp]: "relay_window newRelayRateLimiter k = None"
  by (simp add: relay_window_def newRelayRateLimiter_def)

text \<open>One decision of the relay limiter, on the flat map of windows.\<close>

definition window_step :: "relaySourceWindow option \<Rightarrow> i64 \<Rightarrow> u32 \<Rightarrow> relaySourceWindow option" where
  "window_step w now mx = (case w of
      None \<Rightarrow> Some \<lparr>windowStart = now, windowCount = 1\<rparr>
    | Some w \<Rightarrow>
        if nanosPerSecond \<le>s now - windowStart w then Some \<lparr>windowStart = now, windowCount = 1\<rparr>
        else if mx \<le> windowCount w then None
        else Some (w\<lparr>windowCount := windowCount w + 1\<rparr>))"

lemma relay_allow_eq:
  "relay_allow rl src now mx = (case window_step (relay_window rl src) now mx of
      None \<Rightarrow> (False, rl)
    | Some w \<Rightarrow> (True, rl\<lparr>relayShards := sh_put relayIdx src w (relayShards rl)\<rparr>))"
  by (simp add: relay_allow_def window_step_def relay_window_def sh_get_def sh_put_def relayIdx_def
      Let_def split: option.splits)

lemma relay_wf_allow: "relay_wf rl \<Longrightarrow> relay_wf (snd (relay_allow rl src now mx))"
  by (simp add: relay_allow_eq relay_wf_def rs.wf_put split: option.splits)

lemma relay_wf_sweep: "relay_wf rl \<Longrightarrow> relay_wf (relay_sweep rl c)"
  by (simp add: relay_sweep_def relay_wf_def sh_wf_keep sh_keep_def [symmetric])

lemma relay_window_allow:
  "relay_wf rl \<Longrightarrow> relay_window (snd (relay_allow rl src now mx)) =
     (case window_step (relay_window rl src) now mx of
        None \<Rightarrow> relay_window rl | Some w \<Rightarrow> (relay_window rl)(src \<mapsto> w))"
  by (simp add: relay_allow_eq relay_window_def relay_wf_def rs.get_put split: option.splits)

lemma relay_window_sweep:
  "relay_wf rl \<Longrightarrow> relay_window (relay_sweep rl c) k =
     (case relay_window rl k of None \<Rightarrow> None
      | Some w \<Rightarrow> if windowStart w <s c then None else Some w)"
  by (simp add: relay_sweep_def relay_window_def relay_wf_def rs.get_keep
      sh_keep_def [symmetric] split: option.splits)

lemma relay_allow_fst:
  "fst (relay_allow rl src now mx) \<longleftrightarrow> window_step (relay_window rl src) now mx \<noteq> None"
  by (simp add: relay_allow_eq split: option.splits)

section \<open>Runs of the relay limiter\<close>

datatype relay_op = RAllow relaySourceKey i64 | RSweep i64 i64

fun relay_run :: "u32 \<Rightarrow> relayRateLimiter \<Rightarrow> relay_op list \<Rightarrow> (relaySourceKey \<times> i64) list" where
  "relay_run mx rl [] = []"
| "relay_run mx rl (RAllow src now # ops) =
     (let (ok, rl') = relay_allow rl src now mx; log = relay_run mx rl' ops in
      if ok then (src, now) # log else log)"
| "relay_run mx rl (RSweep now cutoff # ops) = relay_run mx (relay_sweep rl cutoff) ops"

text \<open>
  Clock readings are nanoseconds since 1970, do not go back, and a sweep at \<open>now\<close> has a cutoff
  at least a second old (the server uses five minutes).
\<close>

fun relay_timed :: "int \<Rightarrow> relay_op list \<Rightarrow> bool" where
  "relay_timed lb [] = True"
| "relay_timed lb (RAllow src now # ops) = (lb \<le> sint now \<and> relay_timed (sint now) ops)"
| "relay_timed lb (RSweep now cutoff # ops) =
     (lb \<le> sint now \<and> sint cutoff + second \<le> sint now \<and> relay_timed (sint now) ops)"

definition in_second :: "int \<Rightarrow> int list \<Rightarrow> nat" where
  "in_second T ts = length (filter (\<lambda>t. T \<le> t \<and> t < T + second) ts)"

definition grants_of :: "relaySourceKey \<Rightarrow> (relaySourceKey \<times> i64) list \<Rightarrow> int list" where
  "grants_of src log = map (\<lambda>(k, t). sint t) (filter (\<lambda>(k, t). k = src) log)"

lemma in_second_append [simp]: "in_second T (xs @ ys) = in_second T xs + in_second T ys"
  by (simp add: in_second_def)

lemma in_second_le: "in_second T xs \<le> length xs"
  by (simp add: in_second_def)

lemma in_second_zero: "(\<And>t. t \<in> set xs \<Longrightarrow> \<not> (T \<le> t \<and> t < T + second)) \<Longrightarrow> in_second T xs = 0"
  by (simp add: in_second_def filter_False)

lemma length_filter_mono: "(\<And>x. x \<in> set xs \<Longrightarrow> P x \<Longrightarrow> Q x) \<Longrightarrow> length (filter P xs) \<le> length (filter Q xs)"
  by (induction xs) (auto intro: le_SucI)

lemma second_pos: "0 < second"
  by (simp add: second_def)

text \<open>
  The grants of one source so far: \<open>g1\<close> before the current window, which starts at \<open>ws\<close>, and
  \<open>g2\<close> in it.
\<close>

definition windows :: "nat \<Rightarrow> int \<Rightarrow> int list \<Rightarrow> int list \<Rightarrow> bool" where
  "windows mx ws g1 g2 \<longleftrightarrow> 1 \<le> mx \<and> length g2 \<le> mx \<and> (g2 = [] \<or> hd g2 = ws)
     \<and> (\<forall>t \<in> set g1. t < ws) \<and> (\<forall>t \<in> set g2. ws \<le> t \<and> t < ws + second)
     \<and> length (filter (\<lambda>t. ws - second < t) g1) \<le> mx - 1
     \<and> (\<forall>T. in_second T g1 \<le> 2 * mx - 1)"

definition window_inv :: "nat \<Rightarrow> relaySourceWindow option \<Rightarrow> int list \<Rightarrow> int \<Rightarrow> bool" where
  "window_inv mx w g lb \<longleftrightarrow> (\<exists>ws g1 g2. g = g1 @ g2 \<and> windows mx ws g1 g2 \<and> ws \<le> lb
     \<and> (case w of Some w \<Rightarrow> 0 \<le> ws \<and> sint (windowStart w) = ws
                     \<and> unat (windowCount w) = length g2 \<and> g2 \<noteq> []
                | None \<Rightarrow> ws + second \<le> lb))"

lemma window_invI_None: "windows mx ws g1 g2 \<Longrightarrow> ws + second \<le> lb \<Longrightarrow> window_inv mx None (g1 @ g2) lb"
  unfolding window_inv_def using second_pos by (intro exI [of _ ws] exI [of _ g1] exI [of _ g2]) auto

lemma window_invI_Some:
  "windows mx (sint (windowStart w)) g1 g2 \<Longrightarrow> sint (windowStart w) \<le> lb \<Longrightarrow> 0 \<le> sint (windowStart w) \<Longrightarrow>
   unat (windowCount w) = length g2 \<Longrightarrow> g2 \<noteq> [] \<Longrightarrow> window_inv mx (Some w) (g1 @ g2) lb"
  unfolding window_inv_def by (intro exI [of _ "sint (windowStart w)"] exI [of _ g1] exI [of _ g2]) auto

lemma window_invE_Some:
  assumes "window_inv mx (Some w) g lb"
  obtains g1 g2 where "g = g1 @ g2" "windows mx (sint (windowStart w)) g1 g2"
    "sint (windowStart w) \<le> lb" "0 \<le> sint (windowStart w)" "unat (windowCount w) = length g2" "g2 \<noteq> []"
  using assms unfolding window_inv_def by auto

lemma window_invE_None:
  assumes "window_inv mx None g lb"
  obtains ws g1 g2 where "g = g1 @ g2" "windows mx ws g1 g2" "ws + second \<le> lb"
  using assms unfolding window_inv_def by auto

lemma windows_bound:
  assumes "windows mx ws g1 g2"
  shows "in_second T (g1 @ g2) \<le> 2 * mx - 1"
proof -
  have g1: "\<And>t. t \<in> set g1 \<Longrightarrow> t < ws" and g2: "\<And>t. t \<in> set g2 \<Longrightarrow> ws \<le> t" and len: "length g2 \<le> mx" "1 \<le> mx"
    and pre: "length (filter (\<lambda>t. ws - second < t) g1) \<le> mx - 1" and old: "in_second T g1 \<le> 2 * mx - 1"
    using assms unfolding windows_def by blast+
  consider "ws \<le> T" | "T + second \<le> ws" | "T < ws" "ws < T + second" by linarith
  then show ?thesis
  proof cases
    case 1
    then have "in_second T g1 = 0" by (intro in_second_zero) (auto dest: g1)
    with len in_second_le [of T g2] show ?thesis by simp
  next
    case 2
    then have "in_second T g2 = 0" by (intro in_second_zero) (auto dest: g2)
    with old show ?thesis by simp
  next
    case 3
    have "in_second T g1 \<le> length (filter (\<lambda>t. ws - second < t) g1)"
      unfolding in_second_def using 3 by (intro length_filter_mono) auto
    with len pre in_second_le [of T g2] show ?thesis by simp
  qed
qed

lemma window_inv_bound: "window_inv mx w g lb \<Longrightarrow> in_second T g \<le> 2 * mx - 1"
  unfolding window_inv_def using windows_bound by blast

lemma windows_new:
  assumes "windows mx ws g1 g2" "ws + second \<le> now"
  shows "windows mx now (g1 @ g2) [now]"
proof -
  have g1: "\<And>t. t \<in> set g1 \<Longrightarrow> t < ws" and g2: "\<And>t. t \<in> set g2 \<Longrightarrow> ws \<le> t \<and> t < ws + second"
    and len: "length g2 \<le> mx" "1 \<le> mx" and hd: "g2 = [] \<or> hd g2 = ws"
    using assms(1) unfolding windows_def by blast+
  have "filter (\<lambda>t. now - second < t) g1 = []"
    using assms(2) by (intro filter_False) (auto dest: g1)
  moreover have "length (filter (\<lambda>t. now - second < t) g2) \<le> mx - 1"
  proof (cases g2)
    case (Cons t ts)
    with hd assms(2) have "filter (\<lambda>t. now - second < t) g2 = filter (\<lambda>t. now - second < t) ts" by simp
    also have "length \<dots> \<le> length ts" by simp
    finally show ?thesis using Cons len by simp
  qed simp
  ultimately have "length (filter (\<lambda>t. now - second < t) (g1 @ g2)) \<le> mx - 1" by simp
  moreover have "\<forall>t \<in> set (g1 @ g2). t < now"
    using g1 g2 assms(2) second_pos by force
  ultimately show ?thesis
    unfolding windows_def using len windows_bound [OF assms(1)] second_pos by simp
qed

lemma windows_more:
  "windows mx ws g1 g2 \<Longrightarrow> g2 \<noteq> [] \<Longrightarrow> Suc (length g2) \<le> mx \<Longrightarrow> ws \<le> now \<Longrightarrow> now < ws + second \<Longrightarrow>
   windows mx ws g1 (g2 @ [now])"
  unfolding windows_def by auto

lemma window_inv_fresh:
  assumes "window_inv mx w g lb" "lb \<le> sint now" "1 \<le> mx" "0 \<le> sint now"
    and "\<And>v. w = Some v \<Longrightarrow> sint (windowStart v) + second \<le> sint now"
  shows "window_inv mx (Some \<lparr>windowStart = now, windowCount = 1\<rparr>) (g @ [sint now]) (sint now)"
proof -
  obtain ws g1 g2 where "g = g1 @ g2" "windows mx ws g1 g2" "ws + second \<le> sint now"
    using assms(1,2,5) by (cases w) (auto elim!: window_invE_None window_invE_Some)
  then show ?thesis
    using windows_new [of mx ws g1 g2 "sint now"] assms(4)
    by (intro window_invI_Some) auto
qed

lemma unat_count_Suc:
  fixes c mx :: u32
  assumes "\<not> mx \<le> c"
  shows "unat (c + 1) = Suc (unat c)" "Suc (unat c) \<le> unat mx"
proof -
  have "c < mx" using assms by simp
  then have "unat c < unat mx" by (simp add: word_less_nat_alt)
  moreover have "unat mx < 2 ^ 32" using unsigned_less [of mx] by simp
  ultimately show "unat (c + 1) = Suc (unat c)" "Suc (unat c) \<le> unat mx"
    by (simp_all add: unat_word_ariths)
qed

lemma window_inv_step:
  assumes inv: "window_inv (unat mx) w g lb" and lb: "lb \<le> sint now" "0 \<le> lb" and "0 < mx"
    and step: "window_step w now mx = Some w'"
  shows "window_inv (unat mx) (Some w') (g @ [sint now]) (sint now)"
proof -
  have mx: "1 \<le> unat mx" using assms(4) by (simp add: word_less_nat_alt)
  have now: "0 \<le> sint now" using lb by simp
  have fresh: "(\<And>v. w = Some v \<Longrightarrow> sint (windowStart v) + second \<le> sint now) \<Longrightarrow>
      window_inv (unat mx) (Some \<lparr>windowStart = now, windowCount = 1\<rparr>) (g @ [sint now]) (sint now)"
    by (rule window_inv_fresh [OF inv lb(1) mx now])
  show ?thesis
  proof (cases w)
    case None
    with step fresh show ?thesis by (simp add: window_step_def)
  next
    case (Some v)
    obtain g1 g2 where g: "g = g1 @ g2" "windows (unat mx) (sint (windowStart v)) g1 g2"
        "sint (windowStart v) \<le> lb" "0 \<le> sint (windowStart v)" "unat (windowCount v) = length g2"
        "g2 \<noteq> []"
      using inv Some by (auto elim: window_invE_Some)
    have diff: "nanosPerSecond \<le>s now - windowStart v \<longleftrightarrow> sint (windowStart v) + second \<le> sint now"
      using g(4) now by (auto simp: word_sle_eq sint_diff_nonneg nanosPerSecond_def second_def)
    show ?thesis
    proof (cases "nanosPerSecond \<le>s now - windowStart v")
      case True
      with step Some fresh diff show ?thesis by (auto simp: window_step_def)
    next
      case False
      with step Some have cnt: "\<not> mx \<le> windowCount v" and w': "w' = v\<lparr>windowCount := windowCount v + 1\<rparr>"
        by (auto simp: window_step_def split: if_splits)
      have "windows (unat mx) (sint (windowStart v)) g1 (g2 @ [sint now])"
        using unat_count_Suc [OF cnt] g False diff lb by (intro windows_more) auto
      then have "window_inv (unat mx) (Some w') (g1 @ (g2 @ [sint now])) (sint now)"
        using unat_count_Suc [OF cnt] g lb w' by (intro window_invI_Some) simp_all
      then show ?thesis using g(1) by simp
    qed
  qed
qed

lemma window_inv_later: "window_inv mx w g lb \<Longrightarrow> lb \<le> lb' \<Longrightarrow> window_inv mx w g lb'"
  by (cases w) (auto elim!: window_invE_None window_invE_Some intro!: window_invI_None window_invI_Some)

lemma window_inv_swept:
  "window_inv mx (Some w) g lb \<Longrightarrow> sint (windowStart w) < c \<Longrightarrow> c + second \<le> now \<Longrightarrow>
   window_inv mx None g now"
  by (auto elim!: window_invE_Some intro!: window_invI_None)

lemma relay_run_bound:
  assumes "relay_wf rl" "window_inv (unat mx) (relay_window rl src) g lb" "relay_timed lb ops"
    and "0 \<le> lb" "0 < mx"
  shows "in_second T (g @ grants_of src (relay_run mx rl ops)) \<le> 2 * unat mx - 1"
  using assms(1-4)
proof (induction ops arbitrary: rl g lb)
  case Nil
  then show ?case using window_inv_bound by (simp add: grants_of_def)
next
  case (Cons oper ops)
  show ?case
  proof (cases oper)
    case (RSweep now c)
    have timed: "lb \<le> sint now" "sint c + second \<le> sint now" "relay_timed (sint now) ops" "0 \<le> sint now"
      using Cons.prems(3,4) RSweep by auto
    have "window_inv (unat mx) (relay_window (relay_sweep rl c) src) g (sint now)"
    proof (cases "relay_window rl src")
      case None
      then show ?thesis
        using window_inv_later [OF Cons.prems(2) timed(1)] Cons.prems(1) by (simp add: relay_window_sweep)
    next
      case (Some w)
      then show ?thesis
        using window_inv_later [OF Cons.prems(2) timed(1)] window_inv_swept [OF _ _ timed(2), of _ w g lb]
          Cons.prems(1,2) by (simp add: relay_window_sweep word_sless_alt)
    qed
    then show ?thesis
      using Cons.IH [OF relay_wf_sweep [OF Cons.prems(1)] _ timed(3,4)] RSweep by simp
  next
    case (RAllow k now)
    define rl' where "rl' = snd (relay_allow rl k now mx)"
    have wf: "relay_wf rl'" by (simp add: rl'_def relay_wf_allow Cons.prems(1))
    have timed: "lb \<le> sint now" "relay_timed (sint now) ops" "0 \<le> sint now"
      using Cons.prems(3,4) RAllow by auto
    let ?g = "if k = src \<and> fst (relay_allow rl k now mx) then g @ [sint now] else g"
    have "window_inv (unat mx) (relay_window rl' src) ?g (sint now)"
      using window_inv_step [OF Cons.prems(2) timed(1) Cons.prems(4) assms(5)]
        window_inv_later [OF Cons.prems(2) timed(1)]
      by (auto simp: rl'_def relay_window_allow [OF Cons.prems(1)] relay_allow_fst split: option.splits)
    from Cons.IH [OF wf this timed(2,3)] show ?thesis
      using RAllow by (auto simp: rl'_def grants_of_def in_second_def split_beta Let_def split: if_splits)
  qed
qed

section \<open>Properties\<close>

definition relay_put :: "relayRateLimiter \<Rightarrow> relaySourceKey \<Rightarrow> relaySourceWindow \<Rightarrow> relayRateLimiter" where
  "relay_put rl k w = rl\<lparr>relayShards := sh_put relayIdx k w (relayShards rl)\<rparr>"

lemma relay_wf_put: "relay_wf rl \<Longrightarrow> relay_wf (relay_put rl k w)"
  by (simp add: relay_wf_def relay_put_def rs.wf_put)

lemma relay_window_put: "relay_wf rl \<Longrightarrow> relay_window (relay_put rl k w) = (relay_window rl)(k \<mapsto> w)"
  by (simp add: relay_wf_def relay_window_def relay_put_def rs.get_put)

lemma relay_run_RAllow:
  "relay_run mx rl (RAllow k now # ops) = (case window_step (relay_window rl k) now mx of
      None \<Rightarrow> relay_run mx rl ops
    | Some w \<Rightarrow> (k, now) # relay_run mx (relay_put rl k w) ops)"
  by (simp add: relay_allow_eq relay_put_def Let_def split: option.splits)

fun op_for :: "relaySourceKey \<Rightarrow> relay_op \<Rightarrow> bool" where
  "op_for src (RAllow k now) = (k = src)"
| "op_for src (RSweep now cutoff) = True"

lemma relay_run_isolated:
  assumes "relay_wf rl" "relay_wf rl'" "relay_window rl src = relay_window rl' src"
  shows "filter (\<lambda>g. fst g = src) (relay_run mx rl ops) = relay_run mx rl' (filter (op_for src) ops)"
  using assms
proof (induction ops arbitrary: rl rl')
  case (Cons oper ops)
  show ?case
  proof (cases oper)
    case (RSweep now c)
    then show ?thesis
      using Cons.IH [of "relay_sweep rl c" "relay_sweep rl' c"] Cons.prems
      by (simp add: relay_wf_sweep relay_window_sweep)
  next
    case (RAllow k now)
    let ?s = "snd (relay_allow rl k now mx)" and ?s' = "snd (relay_allow rl' k now mx)"
    have wf: "relay_wf ?s" "relay_wf ?s'"
      using Cons.prems by (simp_all add: relay_wf_allow)
    have same: "k = src \<Longrightarrow> fst (relay_allow rl k now mx) = fst (relay_allow rl' k now mx)"
      using Cons.prems(3) by (simp add: relay_allow_fst)
    have "k = src \<Longrightarrow> relay_window ?s src = relay_window ?s' src"
      using Cons.prems by (simp add: relay_window_allow split: option.splits)
    moreover have "k \<noteq> src \<Longrightarrow> relay_window ?s src = relay_window rl' src"
      using Cons.prems by (simp add: relay_window_allow split: option.splits)
    ultimately show ?thesis
      using Cons.IH [OF wf] Cons.IH [OF wf(1) Cons.prems(2)] same RAllow
      by (cases "k = src") (auto simp: split_beta Let_def)
  qed
qed simp

text \<open>
  C29: both interval limiters keep their promise.  In any run of requests and sweeps over which
  the monotonic clock does not go back and only entries at least one interval old are swept, two
  grants of one node id (discover) or of one source address (punch) are at least the interval
  apart.
\<close>

theorem interval_limiters_spaced:
  assumes "limiter_timed d lb dops" "limiter_timed d lb pops" "0 < d" "d \<le> maxDuration"
  shows "sorted_wrt (spaced d) (limiter_run discover_allow discover_sweep d newDiscoverRateLimiter dops)
    \<and> sorted_wrt (spaced d) (limiter_run punch_allow punch_sweep d newPunchRateLimiter pops)"
  using dl.grants_spaced [OF discover_wf_new assms(1,3,4)] pl.grants_spaced [OF punch_wf_new assms(2,3,4)]
  by simp

theorem interval_limiters_spaced_witness:
  "(let dops = [LAllow 7 (at_s 0) (at_s 0), LAllow 7 (at_s 10) (at_s 10), LSweep (at_s 31) (60 * second),
                LAllow 7 (at_s 31) (at_s 31)];
        pops = [LAllow ''10.0.0.1'' (at_s 0) (at_s 0)] in
    limiter_timed (30 * second) 0 dops \<and> limiter_timed (30 * second) 0 pops
    \<and> 0 < 30 * second \<and> 30 * second \<le> maxDuration
    \<and> limiter_run discover_allow discover_sweep (30 * second) newDiscoverRateLimiter dops
        = [(7, at_s 0), (7, at_s 31)]
    \<and> sorted_wrt (spaced (30 * second))
        (limiter_run discover_allow discover_sweep (30 * second) newDiscoverRateLimiter dops)
    \<and> sorted_wrt (spaced (30 * second))
        (limiter_run punch_allow punch_sweep (30 * second) newPunchRateLimiter pops))"
proof -
  let ?dops = "[LAllow 7 (at_s 0) (at_s 0), LAllow 7 (at_s 10) (at_s 10), LSweep (at_s 31) (60 * second),
                LAllow 7 (at_s 31) (at_s 31)]"
  let ?pops = "[LAllow ''10.0.0.1'' (at_s 0) (at_s 0)]"
  have h: "limiter_timed (30 * second) 0 ?dops" "limiter_timed (30 * second) 0 ?pops"
      "0 < 30 * second" "30 * second \<le> maxDuration"
    by (simp_all add: at_s_def duration_defs)
  have "limiter_run discover_allow discover_sweep (30 * second) newDiscoverRateLimiter ?dops
      = [(7, at_s 0), (7, at_s 31)]"
    by (simp add: discover_allow_def discover_sweep_def newDiscoverRateLimiter_def rateLimitShards_def
        shardU32_def at_s_def Sub_def Before_def Add_def duration_defs Let_def map_update)
  then show ?thesis
    using h interval_limiters_spaced [OF h] by (simp add: Let_def)
qed

text \<open>
  C30: sweeping is unobservable.  Removing the entries older than one interval from the discover
  or the punch limiter changes the answer to no later request.
\<close>

theorem sweep_transparent:
  assumes "discover_wf drl" "punch_wf prl" "mono cutoff + d \<le> mono t1" "0 < d" "d \<le> maxDuration"
  shows "fst (discover_allow (discover_sweep drl cutoff) nodeID d t1 t2)
           = fst (discover_allow drl nodeID d t1 t2)
    \<and> fst (punch_allow (punch_sweep prl cutoff) sourceKey d t1 t2)
           = fst (punch_allow prl sourceKey d t1 t2)"
  using dl.sweep_unobservable [OF assms(1,3,4,5)] pl.sweep_unobservable [OF assms(2,3,4,5)] by simp

theorem sweep_transparent_witness:
  "(let drl = snd (discover_allow newDiscoverRateLimiter 7 second (at_s 1) (at_s 1));
        prl = snd (punch_allow newPunchRateLimiter ''10.0.0.1'' second (at_s 1) (at_s 1)) in
    discover_wf drl \<and> punch_wf prl \<and> mono (at_s 5) + second \<le> mono (at_s 6) \<and> 0 < second
    \<and> second \<le> maxDuration
    \<and> fst (discover_allow (discover_sweep drl (at_s 5)) 7 second (at_s 6) (at_s 6))
        = fst (discover_allow drl 7 second (at_s 6) (at_s 6))
    \<and> fst (punch_allow (punch_sweep prl (at_s 5)) ''10.0.0.1'' second (at_s 6) (at_s 6))
        = fst (punch_allow prl ''10.0.0.1'' second (at_s 6) (at_s 6)))"
proof -
  let ?drl = "snd (discover_allow newDiscoverRateLimiter 7 second (at_s 1) (at_s 1))"
  let ?prl = "snd (punch_allow newPunchRateLimiter ''10.0.0.1'' second (at_s 1) (at_s 1))"
  have h: "discover_wf ?drl" "punch_wf ?prl" "mono (at_s 5) + second \<le> mono (at_s 6)" "0 < second"
      "second \<le> maxDuration"
    by (simp_all add: dl.invar_allow pl.invar_allow at_s_def duration_defs)
  show ?thesis
    using h sweep_transparent [OF h, of 7 "at_s 6" "''10.0.0.1''"] by (simp add: Let_def)
qed

text \<open>
  C21: With a budget of \<open>n\<close> packets per second, no source gets more than \<open>2 n - 1\<close> packets through
  the relay limiter in any one second, whatever the other sources do and however sweeps fall, as
  long as the clock does not go back.  (The window is a fixed one that starts at the first packet
  after the previous window, so the bound is not \<open>n\<close>.)
\<close>

theorem relay_budget_bound:
  assumes "relay_timed lb ops" "0 \<le> lb" "0 < maxPerSecond"
  shows "in_second T (grants_of src (relay_run maxPerSecond newRelayRateLimiter ops)) \<le> 2 * unat maxPerSecond - 1"
proof -
  have "1 \<le> unat maxPerSecond" using assms(3) by (simp add: word_less_nat_alt)
  then have "window_inv (unat maxPerSecond) None [] lb"
    using window_invI_None [of "unat maxPerSecond" "lb - second" "[]" "[]" lb]
    by (simp add: windows_def in_second_def)
  then show ?thesis
    using relay_run_bound [of newRelayRateLimiter maxPerSecond src "[]" lb ops] assms by simp
qed

text \<open>Five packets, three of them in one second, under a budget of two per second.\<close>

definition burst_ops :: "relay_op list" where
  "burst_ops = [RAllow zeroKey 0, RAllow zeroKey 999999999, RAllow zeroKey 1000000000,
     RAllow zeroKey 1000000001, RAllow zeroKey 1000000002]"

lemma burst_run:
  "relay_run 2 newRelayRateLimiter burst_ops
     = [(zeroKey, 0), (zeroKey, 999999999), (zeroKey, 1000000000), (zeroKey, 1000000001)]"
  by (simp del: relay_run.simps(2) add: burst_ops_def relay_run_RAllow relay_wf_put relay_window_put window_step_def
      nanosPerSecond_def second_def word_sle_eq word_le_nat_alt)

theorem relay_budget_bound_witness:
  "relay_timed 0 burst_ops \<and> (0 :: int) \<le> 0 \<and> 0 < (2 :: u32)
   \<and> in_second 1 (grants_of zeroKey (relay_run 2 newRelayRateLimiter burst_ops)) \<le> 2 * unat (2 :: u32) - 1"
proof -
  have h: "relay_timed 0 burst_ops" "(0 :: int) \<le> 0" "0 < (2 :: u32)"
    by (simp_all add: burst_ops_def)
  show ?thesis using h relay_budget_bound [OF h, of 1 zeroKey] by simp
qed

text \<open>
  That bound is reached.  Under a budget of two per second the limiter grants a source three
  packets within one second that straddles a window boundary, so the limiter is not the sliding
  window its comment announces.
\<close>

theorem relay_budget_reached:
  "in_second 999999999 (grants_of zeroKey (relay_run 2 newRelayRateLimiter burst_ops)) = 3"
  unfolding burst_run by (simp add: grants_of_def in_second_def second_def)

text \<open>
  C22: relay budgets are independent.  The grants a source receives are those it would receive
  if no other source sent anything, even where two sources hash to one shard.
\<close>

theorem relay_budget_isolated:
  "filter (\<lambda>g. fst g = src) (relay_run maxPerSecond newRelayRateLimiter ops)
     = relay_run maxPerSecond newRelayRateLimiter (filter (op_for src) ops)"
  by (rule relay_run_isolated) simp_all

text \<open>
  The relay budget is charged to the transport endpoint.  Two datagram sources share a key
  exactly when their addresses are equal as addresses (an IPv4 address and its IPv4-mapped form
  are one address) and their ports are equal modulo \<open>2 ^ 16\<close>; bridge peers share a key exactly
  when they are the same peer; and no datagram source shares a key with a bridge peer.
\<close>

theorem relay_source_key_exact:
  assumes "length (IP a) = 4 \<or> length (IP a) = 16" "length (IP b) = 4 \<or> length (IP b) = 16"
  shows "(relaySourceForUDP (Some a) = relaySourceForUDP (Some b) \<longleftrightarrow>
           IPEqual (IP a) (IP b) \<and> (word_of_int (Port a) :: u16) = word_of_int (Port b))
    \<and> (relaySourceForBridge p = relaySourceForBridge q \<longleftrightarrow> p = q)
    \<and> relaySourceForUDP (Some a) \<noteq> relaySourceForBridge p"
proof -
  obtain a' b' where ab: "To16 (IP a) = Some a'" "To16 (IP b) = Some b'"
    using assms by (auto simp: To16_def)
  have key: "keyIP (relaySourceForUDP (Some r)) = r'" if "To16 (IP r) = Some r'" for r r'
    using that by (auto simp: relaySourceForUDP_def To16_def v4InV6Prefix_def split: if_splits)
  have "relaySourceForUDP (Some a) = relaySourceForUDP (Some b) \<longleftrightarrow>
      a' = b' \<and> (word_of_int (Port a) :: u16) = word_of_int (Port b)"
    using key [OF ab(1)] key [OF ab(2)] by (auto simp: relaySourceForUDP_def zeroKey_def)
  then show ?thesis
    using To16_eq_iff [OF ab] by (simp add: relaySourceForUDP_def relaySourceForBridge_def zeroKey_def)
qed

theorem relay_source_key_exact_witness:
  "(let a = \<lparr>IP = [10, 0, 0, 1], Port = 4000, Zone = []\<rparr>;
        b = \<lparr>IP = v4InV6Prefix @ [10, 0, 0, 1], Port = 4000, Zone = []\<rparr> in
    (length (IP a) = 4 \<or> length (IP a) = 16) \<and> (length (IP b) = 4 \<or> length (IP b) = 16)
    \<and> relaySourceForUDP (Some a) = relaySourceForUDP (Some b)
    \<and> relaySourceForUDP (Some a) \<noteq> relaySourceForBridge 9)"
proof -
  let ?a = "\<lparr>IP = [10, 0, 0, 1], Port = 4000, Zone = []\<rparr>"
  let ?b = "\<lparr>IP = v4InV6Prefix @ [10, 0, 0, 1], Port = 4000, Zone = []\<rparr>"
  have h: "length (IP ?a) = 4 \<or> length (IP ?a) = 16" "length (IP ?b) = 4 \<or> length (IP ?b) = 16"
    by simp_all
  have "IPEqual (IP ?a) (IP ?b)" by (simp add: IPEqual_def)
  then have "relaySourceForUDP (Some ?a) = relaySourceForUDP (Some ?b)"
      "relaySourceForUDP (Some ?a) \<noteq> relaySourceForBridge 9"
    using relay_source_key_exact [OF h, of 9 9] by (simp, blast)
  with h show ?thesis unfolding Let_def by blast
qed

end
