(* ===== verification/Encoding.thy ===== *)
theory Encoding
  imports NetAddr
begin

text \<open>
  Text encodings of the authentication messages: \<^verbatim>\<open>encoding/hex\<close>, \<^verbatim>\<open>encoding/base64\<close>
  (\<^verbatim>\<open>StdEncoding\<close>, padded, not strict) and the decimal verbs of \<^verbatim>\<open>fmt.Sprintf\<close>.
\<close>

section \<open>Strings as bytes\<close>

definition to_bytes :: "string \<Rightarrow> bytes" where
  "to_bytes s = map of_char s"

lemma to_bytes_inj: "to_bytes s = to_bytes t \<longleftrightarrow> s = t"
proof -
  have "(of_char c :: byte) = of_char d \<longleftrightarrow> c = d" for c d
  proof
    assume "(of_char c :: byte) = of_char d"
    then have "unat (of_char c :: byte) = unat (of_char d :: byte)" by simp
    moreover have "unat (of_char e :: byte) = of_char e" for e
    proof -
      have "unat (of_nat (of_char e) :: byte) = of_char e"
        using nat_of_char_less_256 [of e] by (simp add: unat_of_nat take_bit_eq_mod)
      then show ?thesis by (simp add: of_nat_of_char)
    qed
    ultimately show "c = d" by (simp add: of_char_eq_iff)
  qed simp
  then show ?thesis
    unfolding to_bytes_def by (induction s arbitrary: t) (auto simp: map_eq_Cons_conv Cons_eq_map_conv)
qed

text \<open>The verb \<^verbatim>\<open>%d\<close> for \<^verbatim>\<open>uint32\<close> and \<^verbatim>\<open>int64\<close>.\<close>

definition fmt_u32 :: "u32 \<Rightarrow> string" where
  "fmt_u32 v = dec (unat v)"

definition fmt_i64 :: "i64 \<Rightarrow> string" where
  "fmt_i64 v = itoa (sint v)"

lemma fmt_u32_inj [simp]: "fmt_u32 a = fmt_u32 b \<longleftrightarrow> a = b"
  by (simp add: fmt_u32_def word_unat_eq_iff)

lemma fmt_i64_inj [simp]: "fmt_i64 a = fmt_i64 b \<longleftrightarrow> a = b"
  by (simp add: fmt_i64_def) (metis signed_word_eqI)

lemma colon_fmt [simp]: "CHR '':'' \<notin> set (fmt_u32 v)" "CHR '':'' \<notin> set (fmt_i64 w)"
  by (simp_all add: fmt_u32_def fmt_i64_def not_digit_dec not_digit_itoa)

text \<open>\<^verbatim>\<open>hex.EncodeToString\<close> is \<open>hexString\<close>; it is injective.\<close>

lemma hexdigit_inj: "m < 16 \<Longrightarrow> n < 16 \<Longrightarrow> ''0123456789abcdef'' ! m = ''0123456789abcdef'' ! n \<longleftrightarrow> m = n"
  using nth_eq_iff_index_eq [of "''0123456789abcdef''" m n] by simp

lemma byte_nibbles:
  "unat (x :: byte) div 16 = unat y div 16 \<Longrightarrow> unat x mod 16 = unat y mod 16 \<Longrightarrow> x = y"
  by (metis div_mult_mod_eq word_unat_eq_iff)

lemma hexString_Cons:
  "hexString (x # b) = ''0123456789abcdef'' ! (unat x div 16) # ''0123456789abcdef'' ! (unat x mod 16) # hexString b"
  by (simp add: hexString_def)

lemma nibble_less: "unat (x :: byte) div 16 < 16"
  using unsigned_less [of x] by (intro less_mult_imp_div_less) simp

lemma hexString_inj [simp]: "hexString a = hexString b \<longleftrightarrow> a = b"
proof (induction a arbitrary: b)
  case Nil
  then show ?case by (cases b) (simp_all add: hexString_def)
next
  case (Cons x a)
  show ?case
  proof (cases b)
    case (Cons y b')
    then show ?thesis
      unfolding Cons hexString_Cons list.inject Cons.IH
      by (auto simp: hexdigit_inj nibble_less simp del: nth_Cons_numeral dest: byte_nibbles)
  qed (simp add: hexString_def)
qed

section \<open>Signed messages\<close>

text \<open>
  The two messages that are signed: \<^verbatim>\<open>punch-grant:%d:%d:%d\<close> (requester, target, expiry) and
  \<^verbatim>\<open>compat_auth:%d:%d:%s\<close> (node, time stamp, nonce).
\<close>

text \<open>
  \<^verbatim>\<open>ed25519.Verify\<close> is a parameter \<open>verify\<close>; the standard library panics on a key of the wrong
  size, which is \<open>None\<close> here.
\<close>

type_synonym verifier = "bytes \<Rightarrow> bytes \<Rightarrow> bytes \<Rightarrow> bool"

definition PublicKeySize :: nat where
  "PublicKeySize = 32"

definition SignatureSize :: nat where
  "SignatureSize = 64"

definition ed25519_Verify :: "verifier \<Rightarrow> bytes \<Rightarrow> bytes \<Rightarrow> bytes \<Rightarrow> bool option" where
  "ed25519_Verify verify pub msg sig =
     (if length pub \<noteq> PublicKeySize then None else Some (verify pub msg sig))"

definition punchPreimage :: "u32 \<Rightarrow> u32 \<Rightarrow> i64 \<Rightarrow> bytes" where
  "punchPreimage requesterID targetID expiry =
     to_bytes (''punch-grant:'' @ fmt_u32 requesterID @ '':'' @ fmt_u32 targetID @ '':'' @ fmt_i64 expiry)"

definition authPreimage :: "u32 \<Rightarrow> i64 \<Rightarrow> string \<Rightarrow> bytes" where
  "authPreimage nodeID ts nonce =
     to_bytes (''compat_auth:'' @ fmt_u32 nodeID @ '':'' @ fmt_i64 ts @ '':'' @ nonce)"

lemma punchPreimage_inj:
  "punchPreimage r t e = punchPreimage r' t' e' \<longleftrightarrow> r = r' \<and> t = t' \<and> e = e'"
  by (simp add: punchPreimage_def to_bytes_inj sep_unique)

lemma authPreimage_inj:
  "authPreimage n t s = authPreimage n' t' s' \<longleftrightarrow> n = n' \<and> t = t' \<and> s = s'"
  by (simp add: authPreimage_def to_bytes_inj sep_unique)

lemma preimages_disjoint: "punchPreimage r t e \<noteq> authPreimage n ts s"
  by (simp add: punchPreimage_def authPreimage_def to_bytes_inj)

section \<open>Base64\<close>

definition b64alphabet :: string where
  "b64alphabet = ''ABCDEFGHIJKLMNOPQRSTUVWXYZabcdefghijklmnopqrstuvwxyz0123456789+/''"

definition b64char :: "nat \<Rightarrow> char" where
  "b64char n = b64alphabet ! n"

definition b64val :: "char \<Rightarrow> nat option" where
  "b64val c = (let n = length (takeWhile (\<lambda>x. x \<noteq> c) b64alphabet) in if n < 64 then Some n else None)"

fun b64enc :: "bytes \<Rightarrow> string" where
  "b64enc [] = []"
| "b64enc [a] = (let n = unat a * 16 in [b64char (n div 64), b64char (n mod 64), CHR ''='', CHR ''=''])"
| "b64enc [a, b] = (let n = (unat a * 256 + unat b) * 4 in
     [b64char (n div 4096), b64char (n div 64 mod 64), b64char (n mod 64), CHR ''=''])"
| "b64enc (a # b # c # r) = (let n = (unat a * 256 + unat b) * 256 + unat c in
     [b64char (n div 262144), b64char (n div 4096 mod 64), b64char (n div 64 mod 64), b64char (n mod 64)]
     @ b64enc r)"

fun b64dec' :: "string \<Rightarrow> bytes option" where
  "b64dec' [] = Some []"
| "b64dec' (w # x # y # z # r) =
     (if y = CHR ''='' \<and> z = CHR ''='' \<and> r = [] then
        (case (b64val w, b64val x) of
           (Some a, Some b) \<Rightarrow> Some [of_nat ((a * 64 + b) div 16)] | _ \<Rightarrow> None)
      else if z = CHR ''='' \<and> r = [] then
        (case (b64val w, b64val x, b64val y) of
           (Some a, Some b, Some c) \<Rightarrow> (let n = ((a * 64 + b) * 64 + c) div 4 in
              Some [of_nat (n div 256), of_nat (n mod 256)])
         | _ \<Rightarrow> None)
      else
        (case (b64val w, b64val x, b64val y, b64val z) of
           (Some a, Some b, Some c, Some d) \<Rightarrow> (let n = ((a * 64 + b) * 64 + c) * 64 + d in
              map_option (\<lambda>bs. [of_nat (n div 65536), of_nat (n div 256 mod 256), of_nat (n mod 256)] @ bs)
                (b64dec' r))
         | _ \<Rightarrow> None))"
| "b64dec' _ = None"

definition b64dec :: "string \<Rightarrow> bytes option" where
  "b64dec s = b64dec' (filter (\<lambda>c. c \<noteq> CHR 0x0A \<and> c \<noteq> CHR 0x0D) s)"

lemma b64alphabet_props: "length b64alphabet = 64" "distinct b64alphabet" "CHR ''='' \<notin> set b64alphabet"
    "CHR 0x0A \<notin> set b64alphabet" "CHR 0x0D \<notin> set b64alphabet"
  by (simp_all add: b64alphabet_def)

lemma takeWhile_neq_nth: "distinct xs \<Longrightarrow> i < length xs \<Longrightarrow> length (takeWhile (\<lambda>x. x \<noteq> xs ! i) xs) = i"
proof (induction xs arbitrary: i)
  case (Cons a xs)
  then show ?case by (cases i) auto
qed simp

lemma b64val_char [simp]: "n < 64 \<Longrightarrow> b64val (b64char n) = Some n"
  by (simp add: b64val_def b64char_def takeWhile_neq_nth b64alphabet_props Let_def)

lemma b64char_plain [simp]:
  "n < 64 \<Longrightarrow> b64char n \<noteq> CHR ''=''" "n < 64 \<Longrightarrow> b64char n \<noteq> CHR 0x0A" "n < 64 \<Longrightarrow> b64char n \<noteq> CHR 0x0D"
  using b64alphabet_props by (metis b64char_def nth_mem)+

lemma unat_byte [simp]: "unat (a :: byte) < 256"
  using unsigned_less [of a] by simp

lemma six_bits: "m < 65536 \<Longrightarrow> m * 4 div 4096 < (64 :: nat)" "n < 16777216 \<Longrightarrow> n div 262144 < (64 :: nat)"
  by (auto intro!: less_mult_imp_div_less)

lemma two_bytes: "unat (a :: byte) * 256 + unat (b :: byte) < 65536"
  using unat_byte [of a] unat_byte [of b] by linarith

lemma three_bytes: "(unat (a :: byte) * 256 + unat (b :: byte)) * 256 + unat (c :: byte) < 16777216"
proof -
  have "m * 256 + k < 16777216" if "m < 65536" "k < 256" for m k :: nat using that by linarith
  then show ?thesis using two_bytes unat_byte by blast
qed

lemma digits64: "n div 4096 * 64 + n div 64 mod 64 = n div (64 :: nat)"
  using div_mult_mod_eq [of "n div 64" 64] by (simp add: div_mult2_eq [symmetric])

lemma digits64': "n div 262144 * 64 + n div 4096 mod 64 = n div (4096 :: nat)"
  using div_mult_mod_eq [of "n div 4096" 64] by (simp add: div_mult2_eq [symmetric])

lemma sextets:
  "(n div 4096 * 64 + n div 64 mod 64) * 64 + n mod 64 = (n :: nat)"
  "((n div 262144 * 64 + n div 4096 mod 64) * 64 + n div 64 mod 64) * 64 + n mod 64 = n"
  by (simp_all only: digits64 digits64' div_mult_mod_eq)

lemma byte_digits:
  assumes "y < 256" "z < (256 :: nat)"
  shows "((x * 256 + y) * 256 + z) div 65536 = x" "((x * 256 + y) * 256 + z) div 256 mod 256 = y"
    "((x * 256 + y) * 256 + z) mod 256 = z"
proof -
  have d: "(m * 256 + k) div 256 = m" "(m * 256 + k) mod 256 = k" if "k < 256" for m k :: nat
    using that by (simp_all only: div_mult_self3 mod_mult_self3) simp_all
  have "n div 65536 = n div 256 div (256 :: nat)" for n by (simp add: div_mult2_eq [symmetric])
  then show "((x * 256 + y) * 256 + z) div 65536 = x"
    using assms by (simp only: d)
  show "((x * 256 + y) * 256 + z) div 256 mod 256 = y" "((x * 256 + y) * 256 + z) mod 256 = z"
    using assms by (simp_all only: d)
qed

lemma b64dec'_enc: "b64dec' (b64enc bs) = Some bs"
proof (induction bs rule: b64enc.induct)
  case (2 a)
  have "unat a * 16 div 64 < 64" using unat_byte [of a] by (intro less_mult_imp_div_less) linarith
  moreover have "unat a * 16 div 64 * 64 + unat a * 16 mod 64 = unat a * 16" by (rule div_mult_mod_eq)
  ultimately show ?case by (simp add: Let_def)
next
  case (3 a b)
  let ?m = "unat a * 256 + unat b"
  have "?m * 4 div 4096 < 64" by (rule six_bits(1) [OF two_bytes])
  moreover have "(?m * 4 div 4096 * 64 + ?m * 4 div 64 mod 64) * 64 + ?m * 4 mod 64 = ?m * 4"
    by (rule sextets)
  ultimately show ?case
    using unat_byte [of b] by (simp add: Let_def)
next
  case (4 a b c r)
  let ?n = "(unat a * 256 + unat b) * 256 + unat c"
  have "?n div 262144 < 64" by (rule six_bits(2) [OF three_bytes])
  moreover have "((?n div 262144 * 64 + ?n div 4096 mod 64) * 64 + ?n div 64 mod 64) * 64 + ?n mod 64 = ?n"
    by (rule sextets)
  moreover have "?n div 65536 = unat a" "?n div 256 mod 256 = unat b" "?n mod 256 = unat c"
    by (rule byte_digits; rule unat_byte)+
  ultimately show ?case
    using "4.IH" by (simp add: Let_def)
qed simp

lemma b64enc_no_newline: "filter (\<lambda>c. c \<noteq> CHR 0x0A \<and> c \<noteq> CHR 0x0D) (b64enc bs) = b64enc bs"
proof (induction bs rule: b64enc.induct)
  case (2 a)
  have "unat a * 16 div 64 < 64" using unat_byte [of a] by (intro less_mult_imp_div_less) linarith
  then show ?case by (simp add: Let_def)
next
  case (3 a b)
  have "(unat a * 256 + unat b) * 4 div 4096 < 64"
    by (rule six_bits(1) [OF two_bytes])
  then show ?case by (simp add: Let_def)
next
  case (4 a b c r)
  have "((unat a * 256 + unat b) * 256 + unat c) div 262144 < 64"
    by (rule six_bits(2) [OF three_bytes])
  then show ?case using "4.IH" by (simp add: Let_def)
qed simp

text \<open>Decoding inverts encoding.\<close>

lemma b64dec_enc [simp, codec]: "b64dec (b64enc bs) = Some bs"
  by (simp add: b64dec_def b64enc_no_newline b64dec'_enc)

end
