(* ===== verification/WssServer.thy ===== *)
theory WssServer
  imports Encoding
begin

text \<open>
  The compat-mode WebSocket bridge of \<^verbatim>\<open>wss/server.go\<close>.  A \<^verbatim>\<open>*wssPeer\<close> is an address into
  \<open>wheap\<close>, so that two connections of one node are distinct peers; \<^verbatim>\<open>s.peers\<close> maps node ids
  to addresses and is \<open>None\<close> once \<^verbatim>\<open>Close\<close> has set it to nil.  The WebSocket library is outside
  the model: what a \<^verbatim>\<open>Read\<close> returns and whether a \<^verbatim>\<open>Write\<close> succeeds are inputs, and so are
  \<^verbatim>\<open>json.Unmarshal\<close> (\<open>parseReply\<close>) and \<^verbatim>\<open>ed25519.Verify\<close> (\<open>verify\<close>).  The frames handed to
  \<^verbatim>\<open>OnFrame\<close> are recorded in \<open>dispatched\<close>, those written to a connection in \<open>connOut\<close>.
\<close>

section \<open>Data\<close>

datatype ws_type = MessageText | MessageBinary

datatype ws_read = ReadMsg ws_type bytes | ReadDeadline | ReadFailed

definition MaxFrameSize :: nat where
  "MaxFrameSize = 64 * 1024"

definition DefaultAuthTimeout :: duration where
  "DefaultAuthTimeout = 10 * second"

definition DefaultIdleTimeout :: duration where
  "DefaultIdleTimeout = 90 * second"

definition DefaultWriteTimeout :: duration where
  "DefaultWriteTimeout = 2 * second"

type_synonym key_lookup = "nodeid \<Rightarrow> bytes \<times> bool"

record wssConfig =
  BindAddr :: string
  PubKeyLookup :: "key_lookup option"
  OnFrameSet :: bool
  AuthTimeout :: duration
  IdleTimeout :: duration
  WriteTimeout :: duration
  MaxPeers :: int

record wssPeer =
  peerNode :: nodeid
  peerClosed :: bool
  gen :: u32
  connOpen :: bool
  connOut :: "bytes list"

record wss =
  wcfg :: wssConfig
  wlookup :: key_lookup
  wpeers :: "(nodeid, nat) fmap option"
  wclosed :: bool
  wheap :: "wssPeer list"
  wlistener :: "string option"
  peerGen :: u32
  upgradeOK :: u64
  upgradeFail :: u64
  authOK :: u64
  authFail :: u64
  framesIn :: u64
  framesOut :: u64
  idleDisconns :: u64
  dispatched :: "(nodeid \<times> bytes) list"

record wssMetrics =
  mUpgradeOK :: u64
  mUpgradeFail :: u64
  mAuthOK :: u64
  mAuthFail :: u64
  mFramesIn :: u64
  mFramesOut :: u64
  mIdleDisconns :: u64
  mActivePeers :: u64

datatype wssNewError = BindAddrRequired | PubKeyLookupRequired | OnFrameRequired

definition wss_New :: "wssConfig \<Rightarrow> wssNewError + wss" where
  "wss_New c =
     (if BindAddr c = [] then Inl BindAddrRequired
      else case PubKeyLookup c of
        None \<Rightarrow> Inl PubKeyLookupRequired
      | Some lookup \<Rightarrow>
          if \<not> OnFrameSet c then Inl OnFrameRequired
          else
            let c1 = (if AuthTimeout c = 0 then c\<lparr>AuthTimeout := DefaultAuthTimeout\<rparr> else c);
                c2 = (if IdleTimeout c1 = 0 then c1\<lparr>IdleTimeout := DefaultIdleTimeout\<rparr> else c1);
                c3 = (if WriteTimeout c2 = 0 then c2\<lparr>WriteTimeout := DefaultWriteTimeout\<rparr> else c2)
            in Inr \<lparr>wcfg = c3, wlookup = lookup, wpeers = Some fmempty, wclosed = False, wheap = [],
                    wlistener = None, peerGen = 0, upgradeOK = 0, upgradeFail = 0, authOK = 0,
                    authFail = 0, framesIn = 0, framesOut = 0, idleDisconns = 0, dispatched = []\<rparr>)"

text \<open>\<^verbatim>\<open>net.Listen\<close> is the input \<open>bound\<close>: the address it bound, or \<open>None\<close> on error.\<close>

definition wss_Start :: "wss \<Rightarrow> string option \<Rightarrow> bool \<times> wss" where
  "wss_Start s bound = (case bound of None \<Rightarrow> (False, s) | Some a \<Rightarrow> (True, s\<lparr>wlistener := Some a\<rparr>))"

definition wss_Addr :: "wss \<Rightarrow> string" where
  "wss_Addr s = (case wlistener s of Some a \<Rightarrow> a | None \<Rightarrow> BindAddr (wcfg s))"

section \<open>The peer table\<close>

text \<open>\<^verbatim>\<open>s.peers[id]\<close>: reading a nil map gives nil.\<close>

definition peerAt :: "wss \<Rightarrow> nodeid \<Rightarrow> nat option" where
  "peerAt s nodeID = (case wpeers s of None \<Rightarrow> None | Some m \<Rightarrow> fmlookup m nodeID)"

definition closeConn :: "wss \<Rightarrow> nat \<Rightarrow> wss" where
  "closeConn s a = s\<lparr>wheap := (wheap s)[a := (wheap s ! a)\<lparr>peerClosed := True, connOpen := False\<rparr>]\<rparr>"

definition dropPeer :: "wss \<Rightarrow> nat \<Rightarrow> wss" where
  "dropPeer s a =
     (let p = wheap s ! a;
          s1 = (if peerAt s (peerNode p) = Some a
                then s\<lparr>wpeers := map_option (fmdrop (peerNode p)) (wpeers s)\<rparr> else s)
      in if peerClosed p then s1 else closeConn s1 a)"

definition IsConnected :: "wss \<Rightarrow> nodeid \<Rightarrow> bool" where
  "IsConnected s nodeID =
     (case peerAt s nodeID of None \<Rightarrow> False | Some a \<Rightarrow> \<not> peerClosed (wheap s ! a))"

definition PeerCount :: "wss \<Rightarrow> nat" where
  "PeerCount s = (case wpeers s of None \<Rightarrow> 0 | Some m \<Rightarrow> fm_len m)"

definition peerGenForNode :: "wss \<Rightarrow> nodeid \<Rightarrow> u32" where
  "peerGenForNode s nodeID = (case peerAt s nodeID of None \<Rightarrow> 0 | Some a \<Rightarrow> gen (wheap s ! a))"

text \<open>\<open>ok\<close> tells whether \<^verbatim>\<open>conn.Write\<close> succeeds within the write timeout.\<close>

definition WriteFrame :: "wss \<Rightarrow> nodeid \<Rightarrow> bytes \<Rightarrow> bool \<Rightarrow> bool \<times> wss" where
  "WriteFrame s destID frame ok =
     (case peerAt s destID of
        None \<Rightarrow> (False, s)
      | Some a \<Rightarrow>
          let p = wheap s ! a in
          if peerClosed p then (False, s)
          else if \<not> ok then (False, dropPeer s a)
          else (True, s\<lparr>wheap := (wheap s)[a := p\<lparr>connOut := connOut p @ [frame]\<rparr>],
                        framesOut := framesOut s + 1\<rparr>))"

definition wss_Metrics :: "wss \<Rightarrow> wssMetrics" where
  "wss_Metrics s = \<lparr>mUpgradeOK = upgradeOK s, mUpgradeFail = upgradeFail s, mAuthOK = authOK s,
     mAuthFail = authFail s, mFramesIn = framesIn s, mFramesOut = framesOut s,
     mIdleDisconns = idleDisconns s, mActivePeers = of_nat (PeerCount s)\<rparr>"

text \<open>
  \<^verbatim>\<open>Close\<close>: the connections it closes are those of the map it took; \<^verbatim>\<open>http.Server.Shutdown\<close> and the
  wait for the accept goroutine have no effect on the state modelled here.
\<close>

definition wss_Close :: "wss \<Rightarrow> wss" where
  "wss_Close s =
     (if wclosed s then s
      else let taken = (case wpeers s of None \<Rightarrow> {||} | Some m \<Rightarrow> fmran m) in
        s\<lparr>wclosed := True, wpeers := None,
          wheap := map (\<lambda>a. if a |\<in>| taken then (wheap s ! a)\<lparr>peerClosed := True, connOpen := False\<rparr>
                            else wheap s ! a) [0..<length (wheap s)]\<rparr>)"

section \<open>Authentication\<close>

definition maxAuthAge :: i64 where
  "maxAuthAge = 30"

record authChallengeMsg =
  chNonce :: string
  chTimestamp :: i64

record authReplyMsg =
  replyType :: string
  replyNodeID :: nodeid
  replyPublicKey :: string
  replySig :: string

datatype authError =
    NonceGen | WriteChallenge | ReadReply | NotTextFrame | ParseReply
  | MalformedReply string nodeid | UnknownNode nodeid | MalformedKey nodeid nat
  | BadSigEncoding | Expired i64 | VerifyFailed nodeid | WriteAuthOK

text \<open>
  What one run of the handshake draws from its surroundings: the random bytes (\<open>None\<close> when the
  source of randomness fails), the clock at the challenge and at the age check, the outcome of the
  two writes and of the read, and the JSON decoder.
\<close>

record auth_env =
  nonceBytes :: "bytes option"
  clkChallenge :: gotime
  challengeSent :: bool
  replyRead :: ws_read
  parseReply :: "bytes \<Rightarrow> authReplyMsg option"
  clkAge :: gotime
  okSent :: bool

definition authChallenge :: "bytes \<Rightarrow> gotime \<Rightarrow> authChallengeMsg" where
  "authChallenge nonce now = \<lparr>chNonce = hexString nonce, chTimestamp = Unix now\<rparr>"

text \<open>\<open>None\<close> is a panic of \<^verbatim>\<open>ed25519.Verify\<close>.\<close>

definition checkReply ::
    "verifier \<Rightarrow> key_lookup \<Rightarrow> authChallengeMsg \<Rightarrow> gotime \<Rightarrow> bool \<Rightarrow> authReplyMsg \<Rightarrow> (authError + nodeid) option" where
  "checkReply verify lookup ch now sent reply =
     (let nodeID = replyNodeID reply; ts = chTimestamp ch in
      if replyType reply \<noteq> ''auth_reply'' \<or> nodeID = 0
      then Some (Inl (MalformedReply (replyType reply) nodeID))
      else let (pubKey, ok) = lookup nodeID in
      if \<not> ok then Some (Inl (UnknownNode nodeID))
      else if length pubKey \<noteq> PublicKeySize then Some (Inl (MalformedKey nodeID (length pubKey)))
      else case b64dec (replySig reply) of
        None \<Rightarrow> Some (Inl BadSigEncoding)
      | Some sig \<Rightarrow>
          let age = Unix now - ts in
          if age <s 0 \<or> maxAuthAge <s age then Some (Inl (Expired age))
          else case ed25519_Verify verify pubKey (authPreimage nodeID ts (chNonce ch)) sig of
            None \<Rightarrow> None
          | Some good \<Rightarrow>
              if \<not> good then Some (Inl (VerifyFailed nodeID))
              else if \<not> sent then Some (Inl WriteAuthOK)
              else Some (Inr nodeID))"

definition wss_runAuth :: "verifier \<Rightarrow> key_lookup \<Rightarrow> auth_env \<Rightarrow> (authError + nodeid) option" where
  "wss_runAuth verify lookup e =
     (case nonceBytes e of
        None \<Rightarrow> Some (Inl NonceGen)
      | Some nonce \<Rightarrow>
          if \<not> challengeSent e then Some (Inl WriteChallenge)
          else case replyRead e of
            ReadMsg t body \<Rightarrow>
              if t \<noteq> MessageText then Some (Inl NotTextFrame)
              else (case parseReply e body of
                None \<Rightarrow> Some (Inl ParseReply)
              | Some reply \<Rightarrow>
                  checkReply verify lookup (authChallenge nonce (clkChallenge e)) (clkAge e) (okSent e) reply)
          | _ \<Rightarrow> Some (Inl ReadReply))"

section \<open>The upgrade handler\<close>

definition upgradeFull :: "wss \<Rightarrow> bool" where
  "upgradeFull s \<longleftrightarrow> 0 < MaxPeers (wcfg s) \<and> MaxPeers (wcfg s) \<le> int (PeerCount s)"

text \<open>
  The critical section that installs an authenticated connection.  The result is the address of
  the new peer, or \<open>None\<close> when the server is closed; the write to \<^verbatim>\<open>s.peers\<close> panics if that map
  is nil.
\<close>

definition installPeer :: "wss \<Rightarrow> nodeid \<Rightarrow> (wss \<times> nat option) outcome" where
  "installPeer s nodeID =
     (if wclosed s then Done (s, None)
      else
        let s1 = (case peerAt s nodeID of None \<Rightarrow> s | Some old \<Rightarrow> closeConn s old);
            s2 = s1\<lparr>peerGen := peerGen s1 + 1\<rparr>
        in case wpeers s2 of
             None \<Rightarrow> Panicked (s2, None)
           | Some m \<Rightarrow>
               Done (s2\<lparr>wheap := wheap s2 @ [\<lparr>peerNode = nodeID, peerClosed = False, gen = peerGen s2,
                                               connOpen = True, connOut = []\<rparr>],
                        wpeers := Some (fmupd nodeID (length (wheap s2)) m)\<rparr>,
                     Some (length (wheap s2))))"

text \<open>
  One turn of the read loop, from the return of \<^verbatim>\<open>conn.Read\<close> on; \<open>True\<close> means that the loop goes
  round again.  The deferred \<^verbatim>\<open>dropPeer\<close> runs when it does not.
\<close>

definition readTurn :: "wss \<Rightarrow> nat \<Rightarrow> ws_read \<Rightarrow> bool \<times> wss" where
  "readTurn s a r =
     (let p = wheap s ! a in
      case r of
        ReadDeadline \<Rightarrow> (False, dropPeer (s\<lparr>idleDisconns := idleDisconns s + 1\<rparr>) a)
      | ReadFailed \<Rightarrow> (False, dropPeer s a)
      | ReadMsg t body \<Rightarrow>
          if t \<noteq> MessageBinary then (True, s)
          else if MaxFrameSize < length body then (False, dropPeer s a)
          else let g = peerGenForNode s (peerNode p) in
            if 0 < g \<and> gen p < g then (True, s)
            else (True, s\<lparr>framesIn := framesIn s + 1, dispatched := dispatched s @ [(peerNode p, body)]\<rparr>))"

text \<open>
  The loop on the sequence of what \<^verbatim>\<open>conn.Read\<close> returns; \<open>False\<close> means that it waits for more.
\<close>

fun peerReadLoop :: "wss \<Rightarrow> nat \<Rightarrow> ws_read list \<Rightarrow> bool \<times> wss" where
  "peerReadLoop s a rs =
     (if peerClosed (wheap s ! a) then (True, dropPeer s a)
      else case rs of
        [] \<Rightarrow> (False, s)
      | r # rest \<Rightarrow>
          (case readTurn s a r of
             (False, s1) \<Rightarrow> (True, s1)
           | (True, s1) \<Rightarrow> peerReadLoop s1 a rest))"

declare peerReadLoop.simps [simp del]

datatype upgradeResult = AtCapacity | AcceptFailed | AuthFailed authError | ShuttingDown | Served bool

text \<open>The whole handler, run without interference.\<close>

definition handleUpgrade ::
    "verifier \<Rightarrow> wss \<Rightarrow> bool \<Rightarrow> auth_env \<Rightarrow> ws_read list \<Rightarrow> (wss \<times> upgradeResult option) outcome" where
  "handleUpgrade verify s acceptOk e reads =
     (if upgradeFull s then Done (s\<lparr>upgradeFail := upgradeFail s + 1\<rparr>, Some AtCapacity)
      else if \<not> acceptOk then Done (s\<lparr>upgradeFail := upgradeFail s + 1\<rparr>, Some AcceptFailed)
      else
        let s1 = s\<lparr>upgradeOK := upgradeOK s + 1\<rparr> in
        case wss_runAuth verify (wlookup s1) e of
          None \<Rightarrow> Panicked (s1, None)
        | Some (Inl err) \<Rightarrow> Done (s1\<lparr>authFail := authFail s1 + 1\<rparr>, Some (AuthFailed err))
        | Some (Inr nodeID) \<Rightarrow>
            (case installPeer (s1\<lparr>authOK := authOK s1 + 1\<rparr>) nodeID of
               Panicked (s2, _) \<Rightarrow> Panicked (s2, None)
             | Done (s2, None) \<Rightarrow> Done (s2, Some ShuttingDown)
             | Done (s2, Some a) \<Rightarrow>
                 (case peerReadLoop s2 a reads of (exited, s3) \<Rightarrow> Done (s3, Some (Served exited)))))"

section \<open>Concurrent handlers\<close>

text \<open>
  Every request runs \<^verbatim>\<open>handleUpgrade\<close> in its own goroutine, next to the relay workers' calls of
  \<^verbatim>\<open>WriteFrame\<close> and to \<^verbatim>\<open>Close\<close>.  A handler is past its capacity check (\<open>Admitted\<close>), past the
  upgrade (\<open>Upgraded\<close>), authenticated (\<open>Authed\<close>), at the head of its read loop, inside
  \<^verbatim>\<open>conn.Read\<close>, or has returned.
\<close>

datatype handler = Admitted | Upgraded | Authed nodeid | AtHead nat | InRead nat | Gone

record wss_sys =
  wsrv :: wss
  handlers :: "handler list"

definition at_phase :: "wss_sys \<Rightarrow> nat \<Rightarrow> handler \<Rightarrow> bool" where
  "at_phase c i h \<longleftrightarrow> i < length (handlers c) \<and> handlers c ! i = h"

definition moved :: "wss_sys \<Rightarrow> nat \<Rightarrow> handler \<Rightarrow> wss \<Rightarrow> wss_sys" where
  "moved c i h s = \<lparr>wsrv = s, handlers = (handlers c)[i := h]\<rparr>"

inductive wss_step :: "verifier \<Rightarrow> wss_sys \<Rightarrow> wss_sys \<Rightarrow> bool" for verify where
  full: "upgradeFull (wsrv c) \<Longrightarrow>
    wss_step verify c (c\<lparr>wsrv := (wsrv c)\<lparr>upgradeFail := upgradeFail (wsrv c) + 1\<rparr>\<rparr>)"
| admit: "\<not> upgradeFull (wsrv c) \<Longrightarrow> wss_step verify c (c\<lparr>handlers := handlers c @ [Admitted]\<rparr>)"
| accept_fail: "at_phase c i Admitted \<Longrightarrow>
    wss_step verify c (moved c i Gone ((wsrv c)\<lparr>upgradeFail := upgradeFail (wsrv c) + 1\<rparr>))"
| accept: "at_phase c i Admitted \<Longrightarrow>
    wss_step verify c (moved c i Upgraded ((wsrv c)\<lparr>upgradeOK := upgradeOK (wsrv c) + 1\<rparr>))"
| auth_fail: "at_phase c i Upgraded \<Longrightarrow> wss_runAuth verify (wlookup (wsrv c)) e = Some (Inl err) \<Longrightarrow>
    wss_step verify c (moved c i Gone ((wsrv c)\<lparr>authFail := authFail (wsrv c) + 1\<rparr>))"
| auth: "at_phase c i Upgraded \<Longrightarrow> wss_runAuth verify (wlookup (wsrv c)) e = Some (Inr nodeID) \<Longrightarrow>
    wss_step verify c (moved c i (Authed nodeID) ((wsrv c)\<lparr>authOK := authOK (wsrv c) + 1\<rparr>))"
| refuse: "at_phase c i (Authed nodeID) \<Longrightarrow> installPeer (wsrv c) nodeID = Done (s, None) \<Longrightarrow>
    wss_step verify c (moved c i Gone s)"
| install: "at_phase c i (Authed nodeID) \<Longrightarrow> installPeer (wsrv c) nodeID = Done (s, Some a) \<Longrightarrow>
    wss_step verify c (moved c i (AtHead a) s)"
| head_exit: "at_phase c i (AtHead a) \<Longrightarrow> peerClosed (wheap (wsrv c) ! a) \<Longrightarrow>
    wss_step verify c (moved c i Gone (dropPeer (wsrv c) a))"
| head: "at_phase c i (AtHead a) \<Longrightarrow> \<not> peerClosed (wheap (wsrv c) ! a) \<Longrightarrow>
    wss_step verify c (moved c i (InRead a) (wsrv c))"
| read_exit: "at_phase c i (InRead a) \<Longrightarrow> readTurn (wsrv c) a r = (False, s) \<Longrightarrow>
    wss_step verify c (moved c i Gone s)"
| read: "at_phase c i (InRead a) \<Longrightarrow> readTurn (wsrv c) a r = (True, s) \<Longrightarrow>
    wss_step verify c (moved c i (AtHead a) s)"
| send: "wss_step verify c (c\<lparr>wsrv := snd (WriteFrame (wsrv c) destID frame ok)\<rparr>)"
| shutdown: "wss_step verify c (c\<lparr>wsrv := wss_Close (wsrv c)\<rparr>)"

inductive wss_reach :: "verifier \<Rightarrow> wssConfig \<Rightarrow> wss_sys \<Rightarrow> bool" for verify config where
  start: "wss_New config = Inr s \<Longrightarrow> wss_reach verify config \<lparr>wsrv = s, handlers = []\<rparr>"
| more: "wss_reach verify config c \<Longrightarrow> wss_step verify c c' \<Longrightarrow> wss_reach verify config c'"

section \<open>Invariant\<close>

text \<open>
  \<open>table_inv\<close>: the map is nil exactly after \<^verbatim>\<open>Close\<close>; peers are stamped in the order in which
  they were installed; a peer is registered exactly while it is open, under its own node id, and
  is then the newest of that node.
\<close>

definition table_inv :: "wss \<Rightarrow> bool" where
  "table_inv s \<longleftrightarrow>
     (wclosed s \<longleftrightarrow> wpeers s = None) \<and>
     peerGen s = of_nat (length (wheap s)) \<and>
     (\<forall>a < length (wheap s). gen (wheap s ! a) = of_nat (Suc a)
        \<and> connOpen (wheap s ! a) = (\<not> peerClosed (wheap s ! a))
        \<and> (peerAt s (peerNode (wheap s ! a)) = Some a \<longleftrightarrow> \<not> peerClosed (wheap s ! a))) \<and>
     (\<forall>nodeID a. peerAt s nodeID = Some a \<longrightarrow> a < length (wheap s) \<and> peerNode (wheap s ! a) = nodeID
        \<and> (\<forall>b < length (wheap s). peerNode (wheap s ! b) = nodeID \<longrightarrow> b \<le> a))"

definition authentic :: "verifier \<Rightarrow> key_lookup \<Rightarrow> nodeid \<Rightarrow> bool" where
  "authentic verify lookup nodeID \<longleftrightarrow> (\<exists>e. wss_runAuth verify lookup e = Some (Inr nodeID))"

fun handler_ok :: "verifier \<Rightarrow> wss \<Rightarrow> handler \<Rightarrow> bool" where
  "handler_ok verify s (Authed nodeID) = authentic verify (wlookup s) nodeID"
| "handler_ok verify s (AtHead a) = (a < length (wheap s))"
| "handler_ok verify s (InRead a) = (a < length (wheap s))"
| "handler_ok verify s _ = True"

definition wss_inv :: "verifier \<Rightarrow> wss_sys \<Rightarrow> bool" where
  "wss_inv verify c \<longleftrightarrow>
     table_inv (wsrv c) \<and>
     (\<forall>p \<in> set (wheap (wsrv c)). authentic verify (wlookup (wsrv c)) (peerNode p)) \<and>
     (\<forall>(nodeID, frame) \<in> set (dispatched (wsrv c)).
        authentic verify (wlookup (wsrv c)) nodeID \<and> length frame \<le> MaxFrameSize) \<and>
     (\<forall>h \<in> set (handlers c). handler_ok verify (wsrv c) h)"

lemma table_invD:
  assumes "table_inv s"
  shows "wclosed s \<longleftrightarrow> wpeers s = None" "peerGen s = of_nat (length (wheap s))"
    "a < length (wheap s) \<Longrightarrow> gen (wheap s ! a) = of_nat (Suc a)"
    "a < length (wheap s) \<Longrightarrow> connOpen (wheap s ! a) = (\<not> peerClosed (wheap s ! a))"
    "a < length (wheap s) \<Longrightarrow> peerAt s (peerNode (wheap s ! a)) = Some a \<longleftrightarrow> \<not> peerClosed (wheap s ! a)"
    "peerAt s nodeID = Some a \<Longrightarrow> a < length (wheap s)"
    "peerAt s nodeID = Some a \<Longrightarrow> peerNode (wheap s ! a) = nodeID"
    "peerAt s nodeID = Some a \<Longrightarrow> b < length (wheap s) \<Longrightarrow> peerNode (wheap s ! b) = nodeID \<Longrightarrow> b \<le> a"
  using assms unfolding table_inv_def by blast+

lemma table_invI:
  assumes "wclosed s \<longleftrightarrow> wpeers s = None" "peerGen s = of_nat (length (wheap s))"
    "\<And>a. a < length (wheap s) \<Longrightarrow> gen (wheap s ! a) = of_nat (Suc a)"
    "\<And>a. a < length (wheap s) \<Longrightarrow> connOpen (wheap s ! a) = (\<not> peerClosed (wheap s ! a))"
    "\<And>a. a < length (wheap s) \<Longrightarrow> peerAt s (peerNode (wheap s ! a)) = Some a \<longleftrightarrow> \<not> peerClosed (wheap s ! a)"
    "\<And>k a. peerAt s k = Some a \<Longrightarrow> a < length (wheap s)"
    "\<And>k a. peerAt s k = Some a \<Longrightarrow> peerNode (wheap s ! a) = k"
    "\<And>k a b. peerAt s k = Some a \<Longrightarrow> b < length (wheap s) \<Longrightarrow> peerNode (wheap s ! b) = k \<Longrightarrow> b \<le> a"
  shows "table_inv s"
  unfolding table_inv_def using assms by blast

lemma peerAt_cong: "wpeers t = wpeers s \<Longrightarrow> peerAt t = peerAt s"
  by (rule ext) (simp add: peerAt_def)

lemma table_inv_cong:
  assumes "wclosed t = wclosed s" "wpeers t = wpeers s" "wheap t = wheap s" "peerGen t = peerGen s"
  shows "table_inv t = table_inv s"
  unfolding table_inv_def by (simp only: assms peerAt_cong [OF assms(2)])

lemma peerAt_drop: "peerAt (s\<lparr>wpeers := map_option (fmdrop k) (wpeers s)\<rparr>) nodeID
    = (if nodeID = k then None else peerAt s nodeID)"
  by (simp add: peerAt_def split: option.splits)

lemma peerAt_closeConn [simp]: "peerAt (closeConn s a) = peerAt s"
  by (rule peerAt_cong) (simp add: closeConn_def)

lemma closeConn_simps [simp]:
  "wclosed (closeConn s a) = wclosed s" "wpeers (closeConn s a) = wpeers s"
  "length (wheap (closeConn s a)) = length (wheap s)" "peerGen (closeConn s a) = peerGen s"
  "wlookup (closeConn s a) = wlookup s" "dispatched (closeConn s a) = dispatched s"
  by (simp_all add: closeConn_def)

lemma closeConn_nth:
  "b < length (wheap s) \<Longrightarrow> wheap (closeConn s a) ! b =
     (if b = a then (wheap s ! a)\<lparr>peerClosed := True, connOpen := False\<rparr> else wheap s ! b)"
  by (simp add: closeConn_def)

lemma closeConn_nth_simps [simp]:
  "b < length (wheap s) \<Longrightarrow> peerNode (wheap (closeConn s a) ! b) = peerNode (wheap s ! b)"
  "b < length (wheap s) \<Longrightarrow> gen (wheap (closeConn s a) ! b) = gen (wheap s ! b)"
  "b < length (wheap s) \<Longrightarrow> peerClosed (wheap (closeConn s a) ! b) \<longleftrightarrow> b = a \<or> peerClosed (wheap s ! b)"
  "b < length (wheap s) \<Longrightarrow> connOpen (wheap (closeConn s a) ! b) \<longleftrightarrow> b \<noteq> a \<and> connOpen (wheap s ! b)"
  by (auto simp: closeConn_nth)

text \<open>Closing a registered peer while it is taken out of the map keeps the invariant.\<close>

lemma dropPeer_cases:
  assumes "table_inv s" "a < length (wheap s)"
  shows "peerClosed (wheap s ! a) \<Longrightarrow> dropPeer s a = s"
    "\<not> peerClosed (wheap s ! a) \<Longrightarrow>
      dropPeer s a = closeConn (s\<lparr>wpeers := map_option (fmdrop (peerNode (wheap s ! a))) (wpeers s)\<rparr>) a"
  using table_invD(5) [OF assms] by (simp_all add: dropPeer_def Let_def)

lemma table_inv_drop:
  assumes "table_inv s" "a < length (wheap s)"
  shows "table_inv (dropPeer s a)"
proof (cases "peerClosed (wheap s ! a)")
  case False
  let ?t = "closeConn (s\<lparr>wpeers := map_option (fmdrop (peerNode (wheap s ! a))) (wpeers s)\<rparr>) a"
  note i = table_invD [OF assms(1)]
  have at: "peerAt s (peerNode (wheap s ! a)) = Some a" using i(5) [OF assms(2)] False by simp
  have at': "peerAt ?t k = Some b \<longleftrightarrow> k \<noteq> peerNode (wheap s ! a) \<and> peerAt s k = Some b" for k b
    by (simp add: peerAt_drop)
  have "table_inv ?t"
  proof (rule table_invI)
    fix b assume "b < length (wheap ?t)"
    then have b: "b < length (wheap s)" by simp
    show "gen (wheap ?t ! b) = of_nat (Suc b)" "connOpen (wheap ?t ! b) = (\<not> peerClosed (wheap ?t ! b))"
      using b i(3,4) [OF b] by simp_all
    show "peerAt ?t (peerNode (wheap ?t ! b)) = Some b \<longleftrightarrow> \<not> peerClosed (wheap ?t ! b)"
      unfolding at' using b i(5) [OF b] at by auto
  next
    fix k b assume "peerAt ?t k = Some b"
    then have b: "peerAt s k = Some b" using at' by blast
    show "b < length (wheap ?t)" "peerNode (wheap ?t ! b) = k"
      using i(6,7) [OF b] by simp_all
    fix d assume "d < length (wheap ?t)" "peerNode (wheap ?t ! d) = k"
    then show "d \<le> b" using i(8) [OF b] by simp
  qed (use i(1,2) in simp_all)
  then show ?thesis by (simp only: dropPeer_cases(2) [OF assms False])
qed (simp add: dropPeer_cases(1) [OF assms] assms(1))

lemma dropPeer_simps [simp]:
  "wclosed (dropPeer s a) = wclosed s" "length (wheap (dropPeer s a)) = length (wheap s)"
  "peerGen (dropPeer s a) = peerGen s" "wlookup (dropPeer s a) = wlookup s"
  "dispatched (dropPeer s a) = dispatched s"
  by (simp_all add: dropPeer_def Let_def)

lemma dropPeer_node [simp]:
  "b < length (wheap s) \<Longrightarrow> peerNode (wheap (dropPeer s a) ! b) = peerNode (wheap s ! b)"
  by (cases "a = b") (simp_all add: dropPeer_def Let_def closeConn_def)

text \<open>Installation: on an open server it never hits the nil map.\<close>

lemma installPeer_cases:
  assumes "table_inv s"
  obtains "wclosed s" "installPeer s nodeID = Done (s, None)"
  | m s1 where "\<not> wclosed s" "wpeers s = Some m"
      "s1 = (case peerAt s nodeID of None \<Rightarrow> s | Some old \<Rightarrow> closeConn s old)"
      "installPeer s nodeID = Done (s1\<lparr>peerGen := peerGen s1 + 1,
         wheap := wheap s1 @ [\<lparr>peerNode = nodeID, peerClosed = False, gen = peerGen s1 + 1,
                               connOpen = True, connOut = []\<rparr>],
         wpeers := Some (fmupd nodeID (length (wheap s)) m)\<rparr>, Some (length (wheap s)))"
  using table_invD(1) [OF assms]
  by (cases "wclosed s") (auto simp: installPeer_def Let_def split: option.splits)

lemma installPeer_old:
  assumes "table_inv s" "s1 = (case peerAt s nodeID of None \<Rightarrow> s | Some old \<Rightarrow> closeConn s old)"
  shows "length (wheap s1) = length (wheap s)" "peerGen s1 = peerGen s" "wclosed s1 = wclosed s"
    "wlookup s1 = wlookup s" "dispatched s1 = dispatched s"
  and "b < length (wheap s) \<Longrightarrow> peerNode (wheap s1 ! b) = peerNode (wheap s ! b)
         \<and> gen (wheap s1 ! b) = gen (wheap s ! b) \<and> connOpen (wheap s1 ! b) = (\<not> peerClosed (wheap s1 ! b))
         \<and> (peerClosed (wheap s1 ! b) \<longleftrightarrow> peerNode (wheap s ! b) = nodeID \<or> peerClosed (wheap s ! b))"
proof -
  note i = table_invD [OF assms(1)]
  show "length (wheap s1) = length (wheap s)" "peerGen s1 = peerGen s" "wclosed s1 = wclosed s"
    "wlookup s1 = wlookup s" "dispatched s1 = dispatched s"
    by (simp_all add: assms(2) split: option.splits)
  assume b: "b < length (wheap s)"
  have "peerNode (wheap s ! b) = nodeID \<Longrightarrow> peerAt s nodeID = Some b \<or> peerClosed (wheap s ! b)"
    using i(5) [OF b] by auto
  moreover have "peerAt s nodeID = Some b \<Longrightarrow> peerNode (wheap s ! b) = nodeID" by (rule i(7))
  ultimately show "peerNode (wheap s1 ! b) = peerNode (wheap s ! b)
         \<and> gen (wheap s1 ! b) = gen (wheap s ! b) \<and> connOpen (wheap s1 ! b) = (\<not> peerClosed (wheap s1 ! b))
         \<and> (peerClosed (wheap s1 ! b) \<longleftrightarrow> peerNode (wheap s ! b) = nodeID \<or> peerClosed (wheap s ! b))"
    using b i(4) [OF b] by (auto simp: assms(2) split: option.splits)
qed

lemma table_inv_install:
  assumes "table_inv s" "installPeer s nodeID = Done (s', r)"
  shows "table_inv s'"
proof (rule installPeer_cases [OF assms(1), of nodeID])
  fix m s1
  assume live: "\<not> wclosed s" and m: "wpeers s = Some m"
    and s1: "s1 = (case peerAt s nodeID of None \<Rightarrow> s | Some old \<Rightarrow> closeConn s old)"
    and res: "installPeer s nodeID = Done (s1\<lparr>peerGen := peerGen s1 + 1,
         wheap := wheap s1 @ [\<lparr>peerNode = nodeID, peerClosed = False, gen = peerGen s1 + 1,
                               connOpen = True, connOut = []\<rparr>],
         wpeers := Some (fmupd nodeID (length (wheap s)) m)\<rparr>, Some (length (wheap s)))"
  note i = table_invD [OF assms(1)] and o = installPeer_old [OF assms(1) s1]
  have s': "s' = s1\<lparr>peerGen := peerGen s1 + 1,
         wheap := wheap s1 @ [\<lparr>peerNode = nodeID, peerClosed = False, gen = peerGen s1 + 1,
                               connOpen = True, connOut = []\<rparr>],
         wpeers := Some (fmupd nodeID (length (wheap s)) m)\<rparr>"
    using res assms(2) by simp
  have at: "peerAt s' k = (if k = nodeID then Some (length (wheap s)) else peerAt s k)" for k
    using m by (simp add: s' peerAt_def)
  have len: "length (wheap s') = Suc (length (wheap s))" by (simp add: s' o)
  have nth: "wheap s' ! b = wheap s1 ! b" if "b < length (wheap s)" for b
    using that by (simp add: s' o nth_append)
  have new: "wheap s' ! length (wheap s) = \<lparr>peerNode = nodeID, peerClosed = False, gen = peerGen s + 1,
      connOpen = True, connOut = []\<rparr>"
    by (simp add: s' o nth_append)
  have "gen (wheap s' ! b) = of_nat (Suc b) \<and> connOpen (wheap s' ! b) = (\<not> peerClosed (wheap s' ! b))
      \<and> (peerAt s' (peerNode (wheap s' ! b)) = Some b \<longleftrightarrow> \<not> peerClosed (wheap s' ! b))"
    if "b < length (wheap s')" for b
  proof (cases "b = length (wheap s)")
    case True
    then show ?thesis by (simp add: new at i(2))
  next
    case False
    then have b: "b < length (wheap s)" using that len by simp
    show ?thesis using o(6) [OF b] i(3,5) [OF b] b by (auto simp: nth at)
  qed
  moreover have "b < length (wheap s') \<and> peerNode (wheap s' ! b) = k \<and>
      (\<forall>d < length (wheap s'). peerNode (wheap s' ! d) = k \<longrightarrow> d \<le> b)" if "peerAt s' k = Some b" for k b
  proof (cases "k = nodeID")
    case True
    then show ?thesis using that new by (auto simp: at len)
  next
    case False
    then have b: "peerAt s k = Some b" using that by (simp add: at)
    have "d \<le> b" if "d < length (wheap s')" "peerNode (wheap s' ! d) = k" for d
    proof -
      have "d < length (wheap s)" using that len new False by (auto simp: less_Suc_eq)
      then show ?thesis using that(2) i(8) [OF b] o(6) nth by simp
    qed
    then show ?thesis using i(6,7) [OF b] o(6) by (simp add: len nth)
  qed
  ultimately show ?thesis
    unfolding table_inv_def by (simp add: len) (simp add: s' o live i(2))
qed (use assms in simp)

lemma table_inv_heap:
  assumes "table_inv s" "wclosed t = wclosed s" "wpeers t = wpeers s" "peerGen t = peerGen s"
    "length (wheap t) = length (wheap s)"
    "\<And>a. a < length (wheap s) \<Longrightarrow> peerNode (wheap t ! a) = peerNode (wheap s ! a)
       \<and> gen (wheap t ! a) = gen (wheap s ! a) \<and> connOpen (wheap t ! a) = connOpen (wheap s ! a)
       \<and> peerClosed (wheap t ! a) = peerClosed (wheap s ! a)"
  shows "table_inv t"
proof -
  note i = table_invD [OF assms(1)] and at = peerAt_cong [OF assms(3)]
  show ?thesis
  proof (rule table_invI, unfold at assms(2-5))
    fix a assume a: "a < length (wheap s)"
    show "gen (wheap t ! a) = of_nat (Suc a)" "connOpen (wheap t ! a) = (\<not> peerClosed (wheap t ! a))"
      "peerAt s (peerNode (wheap t ! a)) = Some a \<longleftrightarrow> \<not> peerClosed (wheap t ! a)"
      using assms(6) [OF a] i(3,4,5) [OF a] by simp_all
  next
    fix k a assume a: "peerAt s k = Some a"
    show "a < length (wheap s)" "peerNode (wheap t ! a) = k"
      using i(6,7) [OF a] assms(6) by simp_all
    fix b assume "b < length (wheap s)" "peerNode (wheap t ! b) = k"
    then show "b \<le> a" using i(8) [OF a] assms(6) by simp
  qed (use i(1,2) in simp_all)
qed

lemma table_inv_write:
  assumes "table_inv s"
  shows "table_inv (snd (WriteFrame s destID frame ok))"
proof (cases "peerAt s destID")
  case (Some a)
  note a = table_invD(6) [OF assms Some]
  have "table_inv (s\<lparr>wheap := (wheap s)[a := (wheap s ! a)\<lparr>connOut := connOut (wheap s ! a) @ [frame]\<rparr>],
      framesOut := framesOut s + 1\<rparr>)"
    by (rule table_inv_heap [OF assms]) (auto simp: nth_list_update a)
  then show ?thesis
    using assms table_inv_drop [OF assms a] by (simp add: WriteFrame_def Some Let_def)
qed (simp add: WriteFrame_def assms)

lemma table_inv_read:
  assumes "table_inv s" "a < length (wheap s)"
  shows "table_inv (snd (readTurn s a r))"
proof -
  have c: "table_inv (s\<lparr>idleDisconns := n\<rparr>) = table_inv s"
      "table_inv (s\<lparr>framesIn := m, dispatched := d\<rparr>) = table_inv s" for n m d
    by (rule table_inv_cong; simp)+
  have "table_inv (dropPeer (s\<lparr>idleDisconns := n\<rparr>) a)" for n
    using assms by (intro table_inv_drop) (simp_all add: c)
  then show ?thesis
    using assms table_inv_drop [OF assms]
    by (simp add: readTurn_def Let_def c split: ws_read.split)
qed

lemma peerAt_nil [simp]: "wpeers s = None \<Longrightarrow> peerAt s k = None"
  by (simp add: peerAt_def)

lemma fmran_peerAt: "wpeers s = Some m \<Longrightarrow> a |\<in>| fmran m \<longleftrightarrow> (\<exists>k. peerAt s k = Some a)"
  by (auto simp: peerAt_def intro: fmranI elim: fmranE)

lemma table_inv_close:
  assumes "table_inv s"
  shows "table_inv (wss_Close s)"
proof (cases "wclosed s")
  case False
  note i = table_invD [OF assms]
  let ?t = "wss_Close s"
  obtain m where m: "wpeers s = Some m" using i(1) False by auto
  have t: "wpeers ?t = None" "wclosed ?t" "peerGen ?t = peerGen s" "length (wheap ?t) = length (wheap s)"
    by (simp_all add: wss_Close_def False Let_def)
  have nth: "wheap ?t ! a = (wheap s ! a)\<lparr>peerClosed := True, connOpen := False\<rparr>"
    if a: "a < length (wheap s)" for a
  proof (cases "peerClosed (wheap s ! a)")
    case True
    then have "(wheap s ! a)\<lparr>peerClosed := True, connOpen := False\<rparr> = wheap s ! a"
      using i(4) [OF a] by simp
    then show ?thesis using a by (simp add: wss_Close_def False Let_def)
  next
    case nc: False
    then have "a |\<in>| fmran m" using i(5) [OF a] fmran_peerAt [OF m] by blast
    then show ?thesis using a by (simp add: wss_Close_def False Let_def m)
  qed
  show ?thesis
    by (rule table_invI) (use i(2,3) in \<open>simp_all add: t nth\<close>)
qed (simp add: wss_Close_def assms)

text \<open>No handshake panics, and one that succeeds has verified the node's registered key.\<close>

lemma runAuth_defined: "\<exists>r. wss_runAuth verify lookup e = Some r"
  by (auto simp: wss_runAuth_def checkReply_def ed25519_Verify_def Let_def
      split: option.splits ws_read.splits prod.splits)

lemma checkReply_OK:
  assumes "checkReply verify lookup ch now sent reply = Some (Inr nodeID)"
  obtains key sig where "nodeID \<noteq> 0" "replyNodeID reply = nodeID" "lookup nodeID = (key, True)"
    "length key = PublicKeySize" "b64dec (replySig reply) = Some sig"
    "0 \<le>s Unix now - chTimestamp ch" "Unix now - chTimestamp ch \<le>s maxAuthAge"
    "verify key (authPreimage nodeID (chTimestamp ch) (chNonce ch)) sig"
  using assms
  by (auto simp: checkReply_def ed25519_Verify_def Let_def signed.not_less
      split: option.splits if_splits prod.splits)

lemma runAuth_OK:
  assumes "wss_runAuth verify lookup e = Some (Inr nodeID)"
  obtains nonce body reply where "nonceBytes e = Some nonce" "replyRead e = ReadMsg MessageText body"
    "parseReply e body = Some reply"
    "checkReply verify lookup (authChallenge nonce (clkChallenge e)) (clkAge e) (okSent e) reply
       = Some (Inr nodeID)"
  using assms by (auto simp: wss_runAuth_def split: option.splits ws_read.splits if_splits)

lemma runAuth_authentic: "wss_runAuth verify lookup e = Some (Inr nodeID) \<Longrightarrow> authentic verify lookup nodeID"
  by (auto simp: authentic_def)

lemma authentic_key:
  assumes "authentic verify lookup nodeID"
  obtains e nonce key sig where "wss_runAuth verify lookup e = Some (Inr nodeID)" "nonceBytes e = Some nonce"
    "lookup nodeID = (key, True)" "length key = PublicKeySize"
    "verify key (authPreimage nodeID (Unix (clkChallenge e)) (hexString nonce)) sig"
proof -
  obtain e where e: "wss_runAuth verify lookup e = Some (Inr nodeID)"
    using assms by (auto simp: authentic_def)
  then obtain nonce body reply where n: "nonceBytes e = Some nonce"
    and c: "checkReply verify lookup (authChallenge nonce (clkChallenge e)) (clkAge e) (okSent e) reply = Some (Inr nodeID)"
    by (rule runAuth_OK)
  from c show thesis
    by (rule checkReply_OK) (use that e n in \<open>auto simp: authChallenge_def\<close>)
qed

text \<open>The frame conditions of the operations.\<close>

lemma install_frame:
  assumes "table_inv s" "installPeer s nodeID = Done (s', r)"
  shows "wlookup s' = wlookup s \<and> dispatched s' = dispatched s \<and> length (wheap s) \<le> length (wheap s')
    \<and> (\<forall>a. r = Some a \<longrightarrow> a < length (wheap s'))
    \<and> peerNode ` set (wheap s') \<subseteq> insert nodeID (peerNode ` set (wheap s))"
proof (rule installPeer_cases [OF assms(1), of nodeID])
  fix m s1
  assume s1: "s1 = (case peerAt s nodeID of None \<Rightarrow> s | Some old \<Rightarrow> closeConn s old)"
    and res: "installPeer s nodeID = Done (s1\<lparr>peerGen := peerGen s1 + 1,
         wheap := wheap s1 @ [\<lparr>peerNode = nodeID, peerClosed = False, gen = peerGen s1 + 1,
                               connOpen = True, connOut = []\<rparr>],
         wpeers := Some (fmupd nodeID (length (wheap s)) m)\<rparr>, Some (length (wheap s)))"
  note o = installPeer_old [OF assms(1) s1]
  have "map peerNode (wheap s1) = map peerNode (wheap s)"
    using o(1,6) by (simp add: list_eq_iff_nth_eq)
  then have "peerNode ` set (wheap s1) = peerNode ` set (wheap s)"
    by (metis list.set_map)
  then show ?thesis using res assms(2) by (auto simp: o)
qed (use assms(2) in auto)

lemma drop_frame: "peerNode ` set (wheap (dropPeer s a)) = peerNode ` set (wheap s)"
proof -
  have "map peerNode (wheap (dropPeer s a)) = map peerNode (wheap s)"
    by (simp add: list_eq_iff_nth_eq)
  then show ?thesis by (metis list.set_map)
qed

lemma read_frame:
  "wlookup (snd (readTurn s a r)) = wlookup s \<and> length (wheap (snd (readTurn s a r))) = length (wheap s)
   \<and> peerNode ` set (wheap (snd (readTurn s a r))) = peerNode ` set (wheap s)"
  "dispatched (snd (readTurn s a r)) = dispatched s \<or>
    (\<exists>frame. dispatched (snd (readTurn s a r)) = dispatched s @ [(peerNode (wheap s ! a), frame)]
       \<and> length frame \<le> MaxFrameSize)"
  by (auto simp: readTurn_def Let_def drop_frame split: ws_read.split)

lemma write_frame:
  "wlookup (snd (WriteFrame s d f ok)) = wlookup s \<and> length (wheap (snd (WriteFrame s d f ok))) = length (wheap s)
   \<and> dispatched (snd (WriteFrame s d f ok)) = dispatched s
   \<and> peerNode ` set (wheap (snd (WriteFrame s d f ok))) = peerNode ` set (wheap s)"
proof -
  have "map peerNode ((wheap s)[a := (wheap s ! a)\<lparr>connOut := x\<rparr>]) = map peerNode (wheap s)" for a x
    by (cases "a < length (wheap s)") (auto simp: nth_list_update intro: nth_equalityI)
  then have "peerNode ` set ((wheap s)[a := (wheap s ! a)\<lparr>connOut := x\<rparr>]) = peerNode ` set (wheap s)" for a x
    by (metis list.set_map)
  then show ?thesis by (simp add: WriteFrame_def Let_def drop_frame split: option.split)
qed

lemma close_frame:
  "wlookup (wss_Close s) = wlookup s \<and> length (wheap (wss_Close s)) = length (wheap s)
   \<and> dispatched (wss_Close s) = dispatched s \<and> peerNode ` set (wheap (wss_Close s)) = peerNode ` set (wheap s)"
proof -
  have "map peerNode (wheap (wss_Close s)) = map peerNode (wheap s)"
    by (cases "wclosed s") (auto simp: wss_Close_def Let_def intro: nth_equalityI)
  then have "peerNode ` set (wheap (wss_Close s)) = peerNode ` set (wheap s)"
    by (metis list.set_map)
  then show ?thesis by (simp add: wss_Close_def Let_def)
qed

lemma handler_ok_mono:
  "handler_ok verify s h \<Longrightarrow> wlookup t = wlookup s \<Longrightarrow> length (wheap s) \<le> length (wheap t) \<Longrightarrow> handler_ok verify t h"
  by (cases h) simp_all

lemma wss_invI:
  assumes "wss_inv verify c" "table_inv s" "wlookup s = wlookup (wsrv c)"
    "length (wheap (wsrv c)) \<le> length (wheap s)"
    "\<And>k. k \<in> peerNode ` set (wheap s) \<Longrightarrow> k \<in> peerNode ` set (wheap (wsrv c)) \<or> authentic verify (wlookup (wsrv c)) k"
    "\<And>k f. (k, f) \<in> set (dispatched s) \<Longrightarrow> (k, f) \<in> set (dispatched (wsrv c)) \<or>
       authentic verify (wlookup (wsrv c)) k \<and> length f \<le> MaxFrameSize"
    "\<And>h. h \<in> set hs \<Longrightarrow> h \<in> set (handlers c) \<or> handler_ok verify s h"
  shows "wss_inv verify \<lparr>wsrv = s, handlers = hs\<rparr>"
proof -
  have old: "\<forall>p \<in> set (wheap (wsrv c)). authentic verify (wlookup (wsrv c)) (peerNode p)"
      "\<forall>(nodeID, frame) \<in> set (dispatched (wsrv c)).
        authentic verify (wlookup (wsrv c)) nodeID \<and> length frame \<le> MaxFrameSize"
      "\<And>h. h \<in> set (handlers c) \<Longrightarrow> handler_ok verify (wsrv c) h"
    using assms(1) by (auto simp: wss_inv_def)
  have "handler_ok verify s h" if "h \<in> set hs" for h
    using assms(7) [OF that] old(3) [of h] assms(3,4) handler_ok_mono by blast
  moreover have "authentic verify (wlookup (wsrv c)) (peerNode p)" if "p \<in> set (wheap s)" for p
    using assms(5) [of "peerNode p"] that old(1) by auto
  moreover have "authentic verify (wlookup (wsrv c)) k \<and> length f \<le> MaxFrameSize"
    if "(k, f) \<in> set (dispatched s)" for k f
    using assms(6) [OF that] old(2) by auto
  ultimately show ?thesis
    using assms(2,3) by (auto simp: wss_inv_def)
qed

lemma wss_invD:
  assumes "wss_inv verify c"
  shows "table_inv (wsrv c)" "at_phase c i h \<Longrightarrow> handler_ok verify (wsrv c) h"
  using assms by (auto simp: wss_inv_def at_phase_def)

lemma moved_inv:
  assumes "wss_inv verify c" "table_inv s" "wlookup s = wlookup (wsrv c)"
    "length (wheap (wsrv c)) \<le> length (wheap s)"
    "\<And>k. k \<in> peerNode ` set (wheap s) \<Longrightarrow> k \<in> peerNode ` set (wheap (wsrv c)) \<or> authentic verify (wlookup (wsrv c)) k"
    "\<And>k f. (k, f) \<in> set (dispatched s) \<Longrightarrow> (k, f) \<in> set (dispatched (wsrv c)) \<or>
       authentic verify (wlookup (wsrv c)) k \<and> length f \<le> MaxFrameSize"
    "handler_ok verify s h"
  shows "wss_inv verify (moved c i h s)"
  unfolding moved_def using assms set_update_subset_insert [of "handlers c" i h]
  by (intro wss_invI [OF assms(1)]) auto

text \<open>A counter changes nothing of this.\<close>

lemma counter_inv:
  assumes "wss_inv verify c" "wheap s = wheap (wsrv c)" "wpeers s = wpeers (wsrv c)"
    "wclosed s = wclosed (wsrv c)" "peerGen s = peerGen (wsrv c)" "wlookup s = wlookup (wsrv c)"
    "dispatched s = dispatched (wsrv c)" "handler_ok verify s h"
  shows "wss_inv verify (moved c i h s)"
proof (rule moved_inv [OF assms(1)])
  show "table_inv s"
    using wss_invD(1) [OF assms(1)] table_inv_cong [of s "wsrv c"] assms(2-5) by blast
qed (use assms in simp_all)

lemma read_inv:
  assumes "wss_inv verify c" "at_phase c i (InRead a)" "readTurn (wsrv c) a r = (again, s)"
    "h = Gone \<or> h = AtHead a"
  shows "wss_inv verify (moved c i h s)"
proof -
  have a: "a < length (wheap (wsrv c))" using wss_invD(2) [OF assms(1,2)] by simp
  have s: "s = snd (readTurn (wsrv c) a r)" using assms(3) by simp
  have au: "authentic verify (wlookup (wsrv c)) (peerNode (wheap (wsrv c) ! a))"
    using assms(1) a by (simp add: wss_inv_def)
  show ?thesis
    using read_frame [of "wsrv c" a r] table_inv_read [OF wss_invD(1) [OF assms(1)] a] au a assms(4)
    by (intro moved_inv [OF assms(1)]) (auto simp: s)
qed

lemma wss_step_inv:
  assumes "wss_step verify c c'" "wss_inv verify c"
  shows "wss_inv verify c'"
  using assms
proof (induction rule: wss_step.induct)
  case (full c)
  let ?s = "(wsrv c)\<lparr>upgradeFail := upgradeFail (wsrv c) + 1\<rparr>"
  have "table_inv ?s"
    using wss_invD(1) [OF full(2)] table_inv_cong [of ?s "wsrv c"] by simp
  then have "wss_inv verify \<lparr>wsrv = ?s, handlers = handlers c\<rparr>"
    by (intro wss_invI [OF full(2)]) auto
  then show ?case by (cases c) simp
next
  case (admit c)
  have "wss_inv verify \<lparr>wsrv = wsrv c, handlers = handlers c @ [Admitted]\<rparr>"
    using wss_invD(1) [OF admit(2)] by (intro wss_invI [OF admit(2)]) auto
  then show ?case by (cases c) simp
next
  case (accept_fail c i)
  then show ?case by (intro counter_inv) simp_all
next
  case (accept c i)
  then show ?case by (intro counter_inv) simp_all
next
  case (auth_fail c i e err)
  then show ?case by (intro counter_inv) simp_all
next
  case (auth c i e nodeID)
  then show ?case
    by (intro counter_inv) (simp_all add: runAuth_authentic)
next
  case (refuse c i nodeID s)
  note t = wss_invD(1) [OF refuse(3)]
  have "authentic verify (wlookup (wsrv c)) nodeID" using wss_invD(2) [OF refuse(3,1)] by simp
  then show ?case
    using install_frame [OF t refuse(2)] table_inv_install [OF t refuse(2)]
    by (intro moved_inv [OF refuse(3)]) auto
next
  case (install c i nodeID s a)
  note t = wss_invD(1) [OF install(3)]
  have "authentic verify (wlookup (wsrv c)) nodeID" using wss_invD(2) [OF install(3,1)] by simp
  then show ?case
    using install_frame [OF t install(2)] table_inv_install [OF t install(2)]
    by (intro moved_inv [OF install(3)]) auto
next
  case (head_exit c i a)
  have "a < length (wheap (wsrv c))" using wss_invD(2) [OF head_exit(3,1)] by simp
  then show ?case
    using table_inv_drop wss_invD(1) [OF head_exit(3)]
    by (intro moved_inv [OF head_exit(3)]) (auto simp: drop_frame)
next
  case (head c i a)
  have "a < length (wheap (wsrv c))" using wss_invD(2) [OF head(3,1)] by simp
  then show ?case
    using wss_invD(1) [OF head(3)] by (intro moved_inv [OF head(3)]) auto
next
  case (read_exit c i a r s)
  then show ?case by (intro read_inv [OF read_exit(3,1,2)]) simp
next
  case (read c i a r s)
  then show ?case by (intro read_inv [OF read(3,1,2)]) simp
next
  case (send c destID frame ok)
  have "wss_inv verify \<lparr>wsrv = snd (WriteFrame (wsrv c) destID frame ok), handlers = handlers c\<rparr>"
    using table_inv_write [OF wss_invD(1) [OF send]] write_frame [of "wsrv c" destID frame ok]
    by (intro wss_invI [OF send]) auto
  then show ?case by (cases c) simp
next
  case (shutdown c)
  have "wss_inv verify \<lparr>wsrv = wss_Close (wsrv c), handlers = handlers c\<rparr>"
    using table_inv_close [OF wss_invD(1) [OF shutdown]] close_frame [of "wsrv c"]
    by (intro wss_invI [OF shutdown]) auto
  then show ?case by (cases c) simp
qed

lemma table_inv_New: "wss_New config = Inr s \<Longrightarrow> table_inv s"
  by (auto simp: wss_New_def Let_def table_inv_def peerAt_def split: if_splits option.splits)

lemma New_fresh: "wss_New config = Inr s \<Longrightarrow> wheap s = [] \<and> dispatched s = [] \<and> PubKeyLookup config = Some (wlookup s)"
  by (auto simp: wss_New_def Let_def split: if_splits option.splits)

lemma wss_reach_inv: "wss_reach verify config c \<Longrightarrow> wss_inv verify c"
proof (induction rule: wss_reach.induct)
  case (start s)
  then show ?case by (simp add: wss_inv_def table_inv_New New_fresh)
qed (rule wss_step_inv)

lemma reach_table: "wss_reach verify config c \<Longrightarrow> table_inv (wsrv c)"
  by (rule wss_invD(1) [OF wss_reach_inv])

lemma step_lookup:
  assumes "wss_step verify c c'" "table_inv (wsrv c)"
  shows "wlookup (wsrv c') = wlookup (wsrv c) \<and> wcfg (wsrv c') = wcfg (wsrv c)"
proof -
  have d: "wcfg (dropPeer s a) = wcfg s" for s a by (simp add: dropPeer_def closeConn_def Let_def)
  have i: "wcfg s' = wcfg s" if "installPeer s k = Done (s', r)" for s s' k r
    using that by (auto simp: installPeer_def closeConn_def Let_def split: if_splits option.splits)
  have r: "wcfg (snd (readTurn s a x)) = wcfg s" for s a x
    by (simp add: readTurn_def Let_def d split: ws_read.split)
  have w: "wcfg (snd (WriteFrame s k f ok)) = wcfg s" for s k f ok
    by (simp add: WriteFrame_def Let_def d split: option.split)
  have l: "wcfg (wss_Close s) = wcfg s" for s by (simp add: wss_Close_def Let_def)
  show ?thesis
    using assms
  proof (induction rule: wss_step.induct)
    case (refuse c i nodeID s)
    then show ?case using install_frame [OF refuse(3,2)] i [OF refuse(2)] by (simp add: moved_def)
  next
    case (install c j nodeID s a)
    then show ?case using install_frame [OF install(3,2)] i [OF install(2)] by (simp add: moved_def)
  next
    case (read_exit c i a x s)
    then show ?case using read_frame(1) [of "wsrv c" a x] r [of "wsrv c" a x] by (simp add: moved_def)
  next
    case (read c i a x s)
    then show ?case using read_frame(1) [of "wsrv c" a x] r [of "wsrv c" a x] by (simp add: moved_def)
  qed (simp_all add: moved_def d w l write_frame close_frame)
qed

lemma reach_lookup: "wss_reach verify config c \<Longrightarrow> PubKeyLookup config = Some (wlookup (wsrv c))"
proof (induction rule: wss_reach.induct)
  case (start s)
  then show ?case by (simp add: New_fresh)
next
  case (more c c')
  then show ?case using step_lookup [OF more(2) reach_table [OF more(1)]] by simp
qed

section \<open>Executable schedules\<close>

text \<open>
  A schedule is a list of events; \<open>wss_do\<close> runs one event as the step it names and is \<open>None\<close> when
  that step is not enabled.
\<close>

datatype wss_ev =
    Request | Accept nat bool | Auth nat auth_env | Install nat | Head nat | ReadEv nat ws_read
  | SendEv nodeid bytes bool | CloseEv

definition phase :: "wss_sys \<Rightarrow> nat \<Rightarrow> handler" where
  "phase c i = (if i < length (handlers c) then handlers c ! i else Gone)"

fun wss_do :: "verifier \<Rightarrow> wss_sys \<Rightarrow> wss_ev \<Rightarrow> wss_sys option" where
  "wss_do verify c Request =
     Some (if upgradeFull (wsrv c) then c\<lparr>wsrv := (wsrv c)\<lparr>upgradeFail := upgradeFail (wsrv c) + 1\<rparr>\<rparr>
           else c\<lparr>handlers := handlers c @ [Admitted]\<rparr>)"
| "wss_do verify c (Accept i ok) =
     (if phase c i \<noteq> Admitted then None
      else if ok then Some (moved c i Upgraded ((wsrv c)\<lparr>upgradeOK := upgradeOK (wsrv c) + 1\<rparr>))
      else Some (moved c i Gone ((wsrv c)\<lparr>upgradeFail := upgradeFail (wsrv c) + 1\<rparr>)))"
| "wss_do verify c (Auth i e) =
     (if phase c i \<noteq> Upgraded then None
      else case wss_runAuth verify (wlookup (wsrv c)) e of
        None \<Rightarrow> None
      | Some (Inl err) \<Rightarrow> Some (moved c i Gone ((wsrv c)\<lparr>authFail := authFail (wsrv c) + 1\<rparr>))
      | Some (Inr nodeID) \<Rightarrow> Some (moved c i (Authed nodeID) ((wsrv c)\<lparr>authOK := authOK (wsrv c) + 1\<rparr>)))"
| "wss_do verify c (Install i) =
     (case phase c i of
        Authed nodeID \<Rightarrow>
          (case installPeer (wsrv c) nodeID of
             Panicked _ \<Rightarrow> None
           | Done (s, None) \<Rightarrow> Some (moved c i Gone s)
           | Done (s, Some a) \<Rightarrow> Some (moved c i (AtHead a) s))
      | _ \<Rightarrow> None)"
| "wss_do verify c (Head i) =
     (case phase c i of
        AtHead a \<Rightarrow>
          if peerClosed (wheap (wsrv c) ! a) then Some (moved c i Gone (dropPeer (wsrv c) a))
          else Some (moved c i (InRead a) (wsrv c))
      | _ \<Rightarrow> None)"
| "wss_do verify c (ReadEv i r) =
     (case phase c i of
        InRead a \<Rightarrow>
          (case readTurn (wsrv c) a r of
             (False, s) \<Rightarrow> Some (moved c i Gone s)
           | (True, s) \<Rightarrow> Some (moved c i (AtHead a) s))
      | _ \<Rightarrow> None)"
| "wss_do verify c (SendEv d f ok) = Some (c\<lparr>wsrv := snd (WriteFrame (wsrv c) d f ok)\<rparr>)"
| "wss_do verify c CloseEv = Some (c\<lparr>wsrv := wss_Close (wsrv c)\<rparr>)"

fun wss_run :: "verifier \<Rightarrow> wss_sys \<Rightarrow> wss_ev list \<Rightarrow> wss_sys option" where
  "wss_run verify c [] = Some c"
| "wss_run verify c (ev # evs) = (case wss_do verify c ev of None \<Rightarrow> None | Some c' \<Rightarrow> wss_run verify c' evs)"

lemma phase_at: "phase c i = h \<Longrightarrow> h \<noteq> Gone \<Longrightarrow> at_phase c i h"
  by (auto simp: phase_def at_phase_def split: if_splits)

lemma wss_do_step: "wss_do verify c ev = Some c' \<Longrightarrow> wss_step verify c c'"
  by (cases ev) (auto intro: wss_step.intros dest: phase_at
      split: if_splits option.splits sum.splits outcome.splits prod.splits handler.splits bool.splits)

lemma wss_run_reach:
  "wss_run verify c evs = Some c' \<Longrightarrow> wss_reach verify config c \<Longrightarrow> wss_reach verify config c'"
  by (induction evs arbitrary: c) (auto split: option.splits, meson wss_reach.more wss_do_step)

text \<open>
  A concrete bridge: two registered nodes, a signature that is the message itself, and the
  handshake of an honest client.
\<close>

definition exVerify :: verifier where
  "exVerify key msg sig \<longleftrightarrow> sig = msg"

definition exLookup :: key_lookup where
  "exLookup nodeID = (if nodeID = 7 \<or> nodeID = 8 then (replicate 32 1, True) else ([], False))"

definition exReply :: "nodeid \<Rightarrow> authReplyMsg" where
  "exReply k = \<lparr>replyType = ''auth_reply'', replyNodeID = k, replyPublicKey = [],
     replySig = b64enc (authPreimage k (Unix zeroTime) (hexString [1, 2]))\<rparr>"

definition exHandshake :: "nodeid \<Rightarrow> auth_env" where
  "exHandshake k = \<lparr>nonceBytes = Some [1, 2], clkChallenge = zeroTime, challengeSent = True,
     replyRead = ReadMsg MessageText [], parseReply = (\<lambda>_. Some (exReply k)), clkAge = zeroTime, okSent = True\<rparr>"

definition exConfig :: "int \<Rightarrow> wssConfig" where
  "exConfig n = \<lparr>BindAddr = ''127.0.0.1:8443'', PubKeyLookup = Some exLookup, OnFrameSet = True,
     AuthTimeout = 1, IdleTimeout = 1, WriteTimeout = 1, MaxPeers = n\<rparr>"

definition exBridge :: "int \<Rightarrow> wss" where
  "exBridge n = \<lparr>wcfg = exConfig n, wlookup = exLookup, wpeers = Some fmempty, wclosed = False, wheap = [],
     wlistener = None, peerGen = 0, upgradeOK = 0, upgradeFail = 0, authOK = 0, authFail = 0,
     framesIn = 0, framesOut = 0, idleDisconns = 0, dispatched = []\<rparr>"

lemma exBridge_New: "wss_New (exConfig n) = Inr (exBridge n)"
  by (simp add: wss_New_def exConfig_def exBridge_def Let_def)

lemma exHandshake_ok: "k = 7 \<or> k = 8 \<Longrightarrow> wss_runAuth exVerify exLookup (exHandshake k) = Some (Inr k)"
  by (auto simp: wss_runAuth_def exHandshake_def checkReply_def exReply_def exLookup_def authChallenge_def
      ed25519_Verify_def PublicKeySize_def exVerify_def maxAuthAge_def word_sless_alt Let_def)

lemma exReach:
  "wss_run exVerify \<lparr>wsrv = exBridge n, handlers = []\<rparr> evs = Some c \<Longrightarrow> wss_reach exVerify (exConfig n) c"
  by (rule wss_run_reach [OF _ wss_reach.start [OF exBridge_New]])

lemmas bridge_eval = exHandshake_ok exBridge_def exConfig_def upgradeFull_def PeerCount_def phase_def moved_def
  installPeer_def readTurn_def dropPeer_def closeConn_def peerAt_def peerGenForNode_def MaxFrameSize_def
  Let_def

text \<open>A node connects, sends a frame, and connects again while the first connection is in a read.\<close>

definition exConnect :: "nat \<Rightarrow> nodeid \<Rightarrow> wss_ev list" where
  "exConnect i k = [Request, Accept i True, Auth i (exHandshake k), Install i, Head i]"

definition exReplaced :: wss_sys where
  "exReplaced = the (wss_run exVerify \<lparr>wsrv = exBridge 0, handlers = []\<rparr>
     (exConnect 0 7 @ [ReadEv 0 (ReadMsg MessageBinary [9]), Head 0] @ exConnect 1 7))"

lemma exReplaced_eq:
  "wss_run exVerify \<lparr>wsrv = exBridge 0, handlers = []\<rparr>
     (exConnect 0 7 @ [ReadEv 0 (ReadMsg MessageBinary [9]), Head 0] @ exConnect 1 7) = Some exReplaced"
  by (simp add: exReplaced_def exConnect_def bridge_eval)

lemma exReplaced_simps:
  "handlers exReplaced = [InRead 0, InRead 1]" "dispatched (wsrv exReplaced) = [(7, [9])]"
  "length (wheap (wsrv exReplaced)) = 2" "wpeers (wsrv exReplaced) = Some (fmupd 7 1 fmempty)"
  "wheap (wsrv exReplaced) ! 0 = \<lparr>peerNode = 7, peerClosed = True, gen = 1, connOpen = False, connOut = []\<rparr>"
  "wheap (wsrv exReplaced) ! 1 = \<lparr>peerNode = 7, peerClosed = False, gen = 2, connOpen = True, connOut = []\<rparr>"
  by (simp_all add: exReplaced_def exConnect_def bridge_eval)

lemma exReplaced_reach: "wss_reach exVerify (exConfig 0) exReplaced"
  by (rule exReach [OF exReplaced_eq])

section \<open>The handler on its own\<close>

lemma PeerCount_drop: "PeerCount (dropPeer s a) \<le> PeerCount s"
  by (auto simp: PeerCount_def dropPeer_def closeConn_def Let_def fm_len_drop split: option.splits)

lemma PeerCount_read: "PeerCount (snd (readTurn s a r)) \<le> PeerCount s"
proof -
  have "PeerCount (dropPeer (s\<lparr>idleDisconns := n\<rparr>) a) \<le> PeerCount s" for n
    using PeerCount_drop [of "s\<lparr>idleDisconns := n\<rparr>" a] by (simp add: PeerCount_def)
  moreover have "PeerCount (s\<lparr>framesIn := n, dispatched := d\<rparr>) = PeerCount s" for n d
    by (simp add: PeerCount_def)
  ultimately show ?thesis by (simp add: readTurn_def Let_def PeerCount_drop split: ws_read.split)
qed

lemma readLoop_inv:
  assumes "table_inv s" "a < length (wheap s)"
  shows "table_inv (snd (peerReadLoop s a rs)) \<and> PeerCount (snd (peerReadLoop s a rs)) \<le> PeerCount s"
  using assms
proof (induction rs arbitrary: s)
  case Nil
  then show ?case by (simp add: peerReadLoop.simps table_inv_drop PeerCount_drop)
next
  case (Cons r rs)
  obtain again t where t: "readTurn s a r = (again, t)" by force
  have "table_inv t" "a < length (wheap t)" "PeerCount t \<le> PeerCount s"
    using table_inv_read [OF Cons.prems, of r] read_frame(1) [of s a r] PeerCount_read [of s a r] Cons.prems(2)
    by (simp_all add: t)
  then show ?case
    using Cons.IH [of t] Cons.prems
    by (cases again) (auto simp: peerReadLoop.simps [of s] t table_inv_drop PeerCount_drop)
qed

lemma PeerCount_install:
  assumes "table_inv s" "installPeer s nodeID = Done (s', r)"
  shows "PeerCount s' \<le> Suc (PeerCount s)"
  by (rule installPeer_cases [OF assms(1), of nodeID]) (use assms(2) in \<open>auto simp: PeerCount_def\<close>)

lemma installPeer_Done: "table_inv s \<Longrightarrow> \<exists>r. installPeer s nodeID = Done r"
  by (rule installPeer_cases [of s nodeID]) auto

section \<open>Properties\<close>

text \<open>
  C11: Whatever the handlers, writers and \<^verbatim>\<open>Close\<close> do, every frame handed to \<^verbatim>\<open>OnFrame\<close> is at most
  \<open>MaxFrameSize\<close> long and carries the id of a node that completed the challenge: the key registered
  for that id has 32 bytes and verifies a signature on the challenge's own nonce and time stamp.
\<close>

theorem bridge_frames_authenticated:
  assumes "wss_reach verify config c" "PubKeyLookup config = Some lookup"
    "(nodeID, frame) \<in> set (dispatched (wsrv c))"
  shows "length frame \<le> MaxFrameSize \<and>
    (\<exists>e nonce key sig. wss_runAuth verify lookup e = Some (Inr nodeID) \<and> nonceBytes e = Some nonce
       \<and> lookup nodeID = (key, True) \<and> length key = PublicKeySize
       \<and> verify key (authPreimage nodeID (Unix (clkChallenge e)) (hexString nonce)) sig)"
proof -
  have l: "wlookup (wsrv c) = lookup" using reach_lookup [OF assms(1)] assms(2) by simp
  have "authentic verify lookup nodeID" and len: "length frame \<le> MaxFrameSize"
    using wss_reach_inv [OF assms(1)] assms(3) by (auto simp: wss_inv_def l)
  from this(1) show ?thesis by (rule authentic_key) (use len in blast)
qed

theorem bridge_frames_authenticated_witness:
  "wss_reach exVerify (exConfig 0) exReplaced \<and> PubKeyLookup (exConfig 0) = Some exLookup
   \<and> (7, [9]) \<in> set (dispatched (wsrv exReplaced))
   \<and> (\<exists>e. wss_runAuth exVerify exLookup e = Some (Inr 7))"
proof -
  have h: "PubKeyLookup (exConfig 0) = Some exLookup" "(7, [9]) \<in> set (dispatched (wsrv exReplaced))"
    by (simp_all add: exConfig_def exReplaced_simps)
  show ?thesis using exReplaced_reach h bridge_frames_authenticated [OF exReplaced_reach h] by blast
qed



text \<open>
  A frame that arrives on a connection its node has since replaced is not dispatched, whatever
  the frame is, as long as the newer connection is still open and fewer than \<open>2 ^ 32\<close> connections
  have been installed, so that the generation stamps have not wrapped round.
\<close>

theorem bridge_stale_frame_dropped:
  assumes "wss_reach verify config c" "at_phase c i (InRead a)" "length (wheap (wsrv c)) < 2 ^ 32"
    "a < b" "b < length (wheap (wsrv c))" "peerNode (wheap (wsrv c) ! b) = peerNode (wheap (wsrv c) ! a)"
    "connOpen (wheap (wsrv c) ! b)"
  shows "dispatched (snd (readTurn (wsrv c) a r)) = dispatched (wsrv c)
    \<and> framesIn (snd (readTurn (wsrv c) a r)) = framesIn (wsrv c)"
proof -
  let ?s = "wsrv c"
  note i = table_invD [OF reach_table [OF assms(1)]]
  have at: "peerAt ?s (peerNode (wheap ?s ! a)) = Some b"
    using i(4,5) [OF assms(5)] assms(6,7) by simp
  have g: "gen (wheap ?s ! b) = of_nat (Suc b)" "gen (wheap ?s ! a) = of_nat (Suc a)"
    using i(3) [OF assms(5)] i(3) [of a] assms(4,5) by simp_all
  have "unat (of_nat (Suc a) :: u32) = Suc a" "unat (of_nat (Suc b) :: u32) = Suc b"
    using assms(3-5) by (simp_all only: unat_of_nat take_bit_eq_mod mod_less len_of_numeral_defs) simp_all
  then have "gen (wheap ?s ! a) < peerGenForNode ?s (peerNode (wheap ?s ! a))"
    using assms(4) by (simp only: peerGenForNode_def at option.case g word_less_nat_alt)
  moreover from this have "0 < peerGenForNode ?s (peerNode (wheap ?s ! a))"
    by (rule le_less_trans [OF word_zero_le])
  moreover have "framesIn (dropPeer t a) = framesIn t" for t
    by (simp add: dropPeer_def closeConn_def Let_def)
  ultimately show ?thesis
    by (simp add: readTurn_def Let_def split: ws_read.split)
qed

theorem bridge_stale_frame_dropped_witness:
  "wss_reach exVerify (exConfig 0) exReplaced \<and> at_phase exReplaced 0 (InRead 0)
   \<and> dispatched (snd (readTurn (wsrv exReplaced) 0 (ReadMsg MessageBinary [5]))) = [(7, [9])]"
proof -
  have h: "at_phase exReplaced 0 (InRead 0)" "length (wheap (wsrv exReplaced)) < 2 ^ 32" "(0 :: nat) < 1"
      "1 < length (wheap (wsrv exReplaced))"
      "peerNode (wheap (wsrv exReplaced) ! 1) = peerNode (wheap (wsrv exReplaced) ! 0)"
      "connOpen (wheap (wsrv exReplaced) ! 1)"
    by (simp_all add: at_phase_def exReplaced_simps del: One_nat_def)
  show ?thesis
    using exReplaced_reach h(1) bridge_stale_frame_dropped [OF exReplaced_reach h]
    by (simp add: exReplaced_simps)
qed

text \<open>
  That guard covers only the time the newer connection stays open.  Once the newer connection
  has ended, a frame still in flight on the replaced one is dispatched, after frames of the newer
  one may have been.
\<close>

definition exLateFrame :: "wss_ev list" where
  "exLateFrame = exConnect 0 7 @ exConnect 1 7 @ [ReadEv 1 (ReadMsg MessageBinary [2]), Head 1, ReadEv 1 ReadFailed,
     ReadEv 0 (ReadMsg MessageBinary [1])]"

theorem bridge_late_stale_frame:
  "\<exists>c. wss_reach exVerify (exConfig 0) c \<and> \<not> IsConnected (wsrv c) 7
     \<and> \<not> connOpen (wheap (wsrv c) ! 0) \<and> dispatched (wsrv c) = [(7, [2]), (7, [1])]"
proof -
  let ?c = "the (wss_run exVerify \<lparr>wsrv = exBridge 0, handlers = []\<rparr> exLateFrame)"
  have run: "wss_run exVerify \<lparr>wsrv = exBridge 0, handlers = []\<rparr> exLateFrame = Some ?c"
    and res: "\<not> IsConnected (wsrv ?c) 7" "\<not> connOpen (wheap (wsrv ?c) ! 0)"
      "dispatched (wsrv ?c) = [(7, [2]), (7, [1])]"
    by (simp_all add: exLateFrame_def exConnect_def bridge_eval IsConnected_def)
  show ?thesis using exReach [OF run] res by blast
qed

text \<open>
  C36: after \<^verbatim>\<open>Close\<close> the bridge stays shut: every connection ever installed is closed, no node is
  connected, \<^verbatim>\<open>WriteFrame\<close> refuses and changes nothing, and a handshake that finishes late is
  turned away instead of writing to the nil map.
\<close>

theorem bridge_closed_final:
  assumes "wss_reach verify config c" "wclosed (wsrv c)"
  shows "(\<forall>p \<in> set (wheap (wsrv c)). \<not> connOpen p) \<and> PeerCount (wsrv c) = 0
    \<and> \<not> IsConnected (wsrv c) nodeID \<and> WriteFrame (wsrv c) nodeID frame ok = (False, wsrv c)
    \<and> installPeer (wsrv c) nodeID = Done (wsrv c, None)"
proof -
  note i = table_invD [OF reach_table [OF assms(1)]]
  have n: "wpeers (wsrv c) = None" using i(1) assms(2) by simp
  then have "\<not> connOpen (wheap (wsrv c) ! a)" if "a < length (wheap (wsrv c))" for a
    using i(4,5) [OF that] by simp
  then show ?thesis
    using n assms(2) by (auto simp: in_set_conv_nth PeerCount_def IsConnected_def WriteFrame_def installPeer_def)
qed

theorem bridge_closed_final_witness:
  "wss_reach exVerify (exConfig 0) (exReplaced\<lparr>wsrv := wss_Close (wsrv exReplaced)\<rparr>)
   \<and> wclosed (wss_Close (wsrv exReplaced)) \<and> \<not> IsConnected (wss_Close (wsrv exReplaced)) 7"
proof -
  let ?c = "exReplaced\<lparr>wsrv := wss_Close (wsrv exReplaced)\<rparr>"
  have r: "wss_reach exVerify (exConfig 0) ?c"
    by (rule wss_reach.more [OF exReplaced_reach wss_step.shutdown])
  have c: "wclosed (wsrv ?c)" by (simp add: wss_Close_def Let_def)
  show ?thesis using r c bridge_closed_final [OF r c, of 7] by simp
qed



text \<open>
  A write goes to the registered connection and nowhere else.  It succeeds exactly when the
  node is connected and the socket takes the frame, which is then the last frame on that
  connection; when the socket fails, the node is no longer connected afterwards; every other
  connection and every other node's registration are untouched.
\<close>

theorem write_frame_exact:
  assumes "wss_reach verify config c" "WriteFrame (wsrv c) nodeID frame ok = (sent, s)"
  shows "(sent \<longleftrightarrow> IsConnected (wsrv c) nodeID \<and> ok)
    \<and> (sent \<longrightarrow> (\<exists>a. peerAt (wsrv c) nodeID = Some a \<and> a < length (wheap s)
          \<and> connOut (wheap s ! a) = connOut (wheap (wsrv c) ! a) @ [frame]))
    \<and> (\<not> sent \<longrightarrow> \<not> IsConnected s nodeID)
    \<and> (\<forall>b < length (wheap s). peerNode (wheap (wsrv c) ! b) \<noteq> nodeID \<longrightarrow> wheap s ! b = wheap (wsrv c) ! b)
    \<and> (\<forall>k. k \<noteq> nodeID \<longrightarrow> peerAt s k = peerAt (wsrv c) k)"
proof (cases "peerAt (wsrv c) nodeID")
  case None
  then show ?thesis using assms(2) by (auto simp: WriteFrame_def IsConnected_def)
next
  case (Some a)
  let ?s = "wsrv c"
  note i = table_invD [OF reach_table [OF assms(1)]]
  have a: "a < length (wheap ?s)" "peerNode (wheap ?s ! a) = nodeID" "\<not> peerClosed (wheap ?s ! a)"
    using i(6,7) [OF Some] i(5) [of a] Some by auto
  have con: "IsConnected ?s nodeID" using Some a(3) by (simp add: IsConnected_def)
  show ?thesis
  proof (cases ok)
    case True
    then have "sent" "s = ?s\<lparr>wheap := (wheap ?s)[a := (wheap ?s ! a)\<lparr>connOut := connOut (wheap ?s ! a) @ [frame]\<rparr>],
                        framesOut := framesOut ?s + 1\<rparr>"
      using assms(2) Some a by (auto simp: WriteFrame_def Let_def)
    then show ?thesis using con True Some a by (auto simp: nth_list_update peerAt_def)
  next
    case False
    then have "\<not> sent" "s = dropPeer ?s a"
      using assms(2) Some a by (auto simp: WriteFrame_def Let_def)
    moreover from this have "peerAt s nodeID = None" "\<forall>k. k \<noteq> nodeID \<longrightarrow> peerAt s k = peerAt ?s k"
      using a Some by (simp_all add: dropPeer_def Let_def peerAt_drop)
    moreover have "wheap (dropPeer ?s a) ! b = wheap ?s ! b" if "peerNode (wheap ?s ! b) \<noteq> nodeID" for b
      using that a(2) by (cases "b = a") (simp_all add: dropPeer_def Let_def closeConn_def)
    ultimately show ?thesis using con False a by (auto simp: IsConnected_def)
  qed
qed

theorem write_frame_exact_witness:
  "wss_reach exVerify (exConfig 0) exReplaced \<and> fst (WriteFrame (wsrv exReplaced) 7 [1, 2, 3] True)
   \<and> \<not> IsConnected (snd (WriteFrame (wsrv exReplaced) 7 [1, 2, 3] False)) 7"
proof -
  have "IsConnected (wsrv exReplaced) 7"
    by (simp add: IsConnected_def peerAt_def exReplaced_simps del: One_nat_def)
  then show ?thesis
    using exReplaced_reach
      write_frame_exact [OF exReplaced_reach, of 7 "[1, 2, 3]" True] write_frame_exact [OF exReplaced_reach, of 7 "[1, 2, 3]" False]
    by (metis prod.collapse)
qed

text \<open>
  A request served without interference is answered on every branch.  The handler never
  panics, keeps the table invariant, and does not raise the number of peers above \<open>MaxPeers\<close>
  when a limit is set.
\<close>

theorem upgrade_respects_limit:
  assumes "table_inv s" "0 < MaxPeers (wcfg s)" "int (PeerCount s) \<le> MaxPeers (wcfg s)"
  shows "\<exists>s' result. handleUpgrade verify s acceptOk e reads = Done (s', Some result) \<and> table_inv s'
    \<and> int (PeerCount s') \<le> MaxPeers (wcfg s)"
proof -
  let ?s1 = "s\<lparr>upgradeOK := upgradeOK s + 1\<rparr>"
  have c: "table_inv (s\<lparr>upgradeFail := n\<rparr>)" "table_inv (?s1\<lparr>authFail := m\<rparr>)" "table_inv (?s1\<lparr>authOK := m\<rparr>)"
      "PeerCount (s\<lparr>upgradeFail := n\<rparr>) = PeerCount s" "PeerCount (?s1\<lparr>authFail := m\<rparr>) = PeerCount s"
      "PeerCount (?s1\<lparr>authOK := m\<rparr>) = PeerCount s" for n m
    using assms(1) table_inv_cong [of "s\<lparr>upgradeFail := n\<rparr>" s] table_inv_cong [of "?s1\<lparr>authFail := m\<rparr>" s]
      table_inv_cong [of "?s1\<lparr>authOK := m\<rparr>" s]
    by (simp_all add: PeerCount_def)
  show ?thesis
  proof (cases "upgradeFull s \<or> \<not> acceptOk")
    case True
    then show ?thesis using assms(3) c by (auto simp: handleUpgrade_def)
  next
    case False
    then have room: "int (PeerCount s) < MaxPeers (wcfg s)" using assms(2) by (auto simp: upgradeFull_def)
    obtain r where r: "wss_runAuth verify (wlookup s) e = Some r" using runAuth_defined by blast
    show ?thesis
    proof (cases r)
      case (Inl err)
      then show ?thesis using False r assms(3) c by (simp add: handleUpgrade_def Let_def)
    next
      case (Inr nodeID)
      let ?s2 = "?s1\<lparr>authOK := authOK s + 1\<rparr>"
      obtain t x where t: "installPeer ?s2 nodeID = Done (t, x)" using installPeer_Done [OF c(3)] by fastforce
      note ti = table_inv_install [OF c(3) t] and tn = PeerCount_install [OF c(3) t] install_frame [OF c(3) t]
      show ?thesis
      proof (cases x)
        case None
        then show ?thesis using False r Inr t ti tn(1) room c(6) by (simp add: handleUpgrade_def Let_def)
      next
        case (Some a)
        have "a < length (wheap t)" using tn(2) Some by simp
        then have "table_inv (snd (peerReadLoop t a reads)) \<and> PeerCount (snd (peerReadLoop t a reads)) \<le> PeerCount t"
          by (rule readLoop_inv [OF ti])
        then show ?thesis
          using False r Inr t Some tn(1) room c(6) by (auto simp: handleUpgrade_def Let_def split: prod.split)
      qed
    qed
  qed
qed

theorem upgrade_respects_limit_witness:
  "table_inv (exBridge 1) \<and> 0 < MaxPeers (wcfg (exBridge 1)) \<and> int (PeerCount (exBridge 1)) \<le> MaxPeers (wcfg (exBridge 1))
   \<and> (\<exists>s' result. handleUpgrade exVerify (exBridge 1) True (exHandshake 7) [] = Done (s', Some result)
        \<and> table_inv s' \<and> int (PeerCount s') \<le> MaxPeers (wcfg (exBridge 1)))"
proof -
  have h: "table_inv (exBridge 1)" "0 < MaxPeers (wcfg (exBridge 1))"
      "int (PeerCount (exBridge 1)) \<le> MaxPeers (wcfg (exBridge 1))"
    using table_inv_New [OF exBridge_New] by (simp_all add: exBridge_def exConfig_def PeerCount_def)
  show ?thesis using h upgrade_respects_limit [OF h] by blast
qed

text \<open>
  Requests served together can exceed the limit.  The capacity is tested before the upgrade and
  the peer is installed after the handshake, so with a limit of one, two nodes that start together
  both end up connected.
\<close>

definition exTogether :: "wss_ev list" where
  "exTogether = [Request, Request, Accept 0 True, Accept 1 True, Auth 0 (exHandshake 7), Auth 1 (exHandshake 8),
     Install 0, Install 1]"

theorem upgrade_limit_race:
  "\<exists>c. wss_reach exVerify (exConfig 1) c \<and> MaxPeers (wcfg (wsrv c)) = 1 \<and> PeerCount (wsrv c) = 2
     \<and> IsConnected (wsrv c) 7 \<and> IsConnected (wsrv c) 8"
proof -
  let ?c = "the (wss_run exVerify \<lparr>wsrv = exBridge 1, handlers = []\<rparr> exTogether)"
  have run: "wss_run exVerify \<lparr>wsrv = exBridge 1, handlers = []\<rparr> exTogether = Some ?c"
    and res: "MaxPeers (wcfg (wsrv ?c)) = 1" "PeerCount (wsrv ?c) = 2" "IsConnected (wsrv ?c) 7" "IsConnected (wsrv ?c) 8"
    by (simp_all add: exTogether_def bridge_eval IsConnected_def)
  show ?thesis using exReach [OF run] res by blast
qed

end
