(* ===== verification/BeaconState.thy ===== *)
theory BeaconState
  imports NodeMap RateLimit WssServer
begin

text \<open>
  The state of the beacon (\<^verbatim>\<open>Server\<close> of \<^verbatim>\<open>server.go\<close>), its constants, constructor, setters and
  accessors.  A handler is a function on this state.  The constants of \<^verbatim>\<open>common/protocol\<close> and
  \<^verbatim>\<open>ed25519.Verify\<close> are not part of the repository: they are the fields of \<open>externs\<close>.  What a
  handler reads from its surroundings is an \<open>env\<close>: the clock at its \<open>i\<close>-th reading, and whether
  its \<open>i\<close>-th datagram is accepted by the socket.  Datagrams that were accepted are recorded, in
  order, in \<open>outbox\<close>.
\<close>

section \<open>Surroundings\<close>

text \<open>Clock readings and writes are numbered from 0; keep \<open>1\<close> as it is written.\<close>

declare One_nat_def [simp del]

record externs =
  BeaconMsgDiscover :: byte
  BeaconMsgDiscoverEx :: byte
  BeaconMsgDiscoverReply :: byte
  BeaconMsgPunchRequest :: byte
  BeaconMsgPunchCommand :: byte
  BeaconMsgRelay :: byte
  BeaconMsgRelayDeliver :: byte
  BeaconMsgRelayDeliverDest :: byte
  BeaconMsgSync :: byte
  edVerify :: verifier

text \<open>
  The constants a \<^verbatim>\<open>switch\<close> lists in its cases are pairwise different, or the program would not
  compile.
\<close>

definition inbound_types :: "externs \<Rightarrow> byte list" where
  "inbound_types x = [BeaconMsgDiscover x, BeaconMsgDiscoverEx x, BeaconMsgPunchRequest x, BeaconMsgRelay x, BeaconMsgSync x]"

record env =
  clk :: "nat \<Rightarrow> gotime"
  sendOk :: "nat \<Rightarrow> udpaddr \<Rightarrow> bytes \<Rightarrow> bool"

section \<open>State\<close>

record relayJob =
  senderID :: u32
  destID :: u32
  payload :: bytes

text \<open>
  A buffered channel is the list of its elements, with the common capacity \<open>relayChCap\<close>.  The
  \<^verbatim>\<open>sync.Map\<close>s are a finite set and a finite map; a nil \<^verbatim>\<open>gossipSeen\<close> and a nil
  \<^verbatim>\<open>punchWhitelist\<close> behave like empty ones.  \<open>conn\<close> is the local address of the first socket,
  \<open>None\<close> before \<^verbatim>\<open>ListenAndServe\<close>; \<open>recoveredPanics\<close> is the counter of \<^verbatim>\<open>recover.go\<close>.
\<close>

record server =
  conn :: "udpaddr option"
  nodes :: nodeMap
  dstNodes :: "nodeid fset"
  relayChs :: "relayJob list list"
  relayChCap :: nat
  relayForwarded :: u64
  relayDropped :: u64
  relayNotFound :: u64
  lastDropLog :: i64
  punchRL :: punchRateLimiter
  lastPunchTime :: i64
  punchWhitelist :: "string fset"
  punchWhitelistAll :: bool
  requirePunchToken :: bool
  nodePubKeys :: "(nodeid, bytes) fmap"
  breakerAllow :: "(string \<Rightarrow> bool \<times> string) option"
  relayRL :: relayRateLimiter
  discoverRL :: discoverRateLimiter
  beaconID :: u32
  peers :: "udpaddr list"
  peerNodes :: "(nodeid, udpaddr) fmap"
  healthOk :: bool
  strictGossip :: bool
  gossipSeen :: "(string, gotime) fmap"
  registryAddr :: string
  advertiseAddr :: string
  registryAdminToken :: string
  wssServer :: "wss option"
  authKeyLookup :: "key_lookup option"
  serverDone :: bool
  recoveredPanics :: u64
  outbox :: "(udpaddr \<times> bytes) list"

section \<open>Constants\<close>

definition relayQueueSize :: nat where "relayQueueSize = 524288"
definition maxRelayPayload :: nat where "maxRelayPayload = 65535"
definition maxBeaconNodes :: int where "maxBeaconNodes = 500000"
definition beaconNodeTTL :: duration where "beaconNodeTTL = 10 * minute"
definition maxPunchPerSecond :: int where "maxPunchPerSecond = 10"
definition punchPerSourceInterval :: duration where "punchPerSourceInterval = second"
definition punchRateCleanupInterval :: duration where "punchRateCleanupInterval = 5 * minute"
definition discoverMinInterval :: duration where "discoverMinInterval = 30 * second"
definition maxRelaysPerSourcePerSecond :: u32 where "maxRelaysPerSourcePerSecond = 4000"
definition relaySourceCleanupInterval :: duration where "relaySourceCleanupInterval = 5 * minute"
definition gossipPeerTTL :: duration where "gossipPeerTTL = 90 * second"
definition notifyMinInterval :: duration where "notifyMinInterval = second"
definition MsgNotify :: byte where "MsgNotify = 0x0A"
definition NotifyKindHandshake :: byte where "NotifyKindHandshake = 0x01"
definition relayBatchCap :: nat where "relayBatchCap = 32"

lemmas beacon_consts = relayQueueSize_def maxRelayPayload_def maxBeaconNodes_def beaconNodeTTL_def
  maxPunchPerSecond_def punchPerSourceInterval_def punchRateCleanupInterval_def discoverMinInterval_def
  maxRelaysPerSourcePerSecond_def relaySourceCleanupInterval_def gossipPeerTTL_def notifyMinInterval_def
  relayBatchCap_def

section \<open>Construction\<close>

text \<open>\<open>ncpu\<close> is \<^verbatim>\<open>runtime.NumCPU()\<close>, \<open>resolve\<close> is \<^verbatim>\<open>net.ResolveUDPAddr\<close> (\<open>None\<close> on error).\<close>

definition relayWorkerCount :: "nat \<Rightarrow> nat" where
  "relayWorkerCount ncpu = (if ncpu < 8 then 8 else ncpu)"

definition relayQueueDepth :: "nat \<Rightarrow> nat" where
  "relayQueueDepth n = (let per = relayQueueSize div n in if per < 1 then 1 else per)"

fun resolvePeers :: "(string \<Rightarrow> udpaddr option) \<Rightarrow> string list \<Rightarrow> udpaddr list" where
  "resolvePeers resolve [] = []"
| "resolvePeers resolve (p # ps) =
     (case resolve p of None \<Rightarrow> resolvePeers resolve ps | Some a \<Rightarrow> a # resolvePeers resolve ps)"

definition NewWithPeers :: "nat \<Rightarrow> (string \<Rightarrow> udpaddr option) \<Rightarrow> u32 \<Rightarrow> string list \<Rightarrow> server" where
  "NewWithPeers ncpu resolve bid ps =
     (let n = relayWorkerCount ncpu in
      \<lparr>conn = None, nodes = newNodeMap, dstNodes = {||}, relayChs = replicate n [],
       relayChCap = relayQueueDepth n, relayForwarded = 0, relayDropped = 0, relayNotFound = 0,
       lastDropLog = 0, punchRL = newPunchRateLimiter, lastPunchTime = 0, punchWhitelist = {||},
       punchWhitelistAll = False, requirePunchToken = False, nodePubKeys = fmempty, breakerAllow = None,
       relayRL = newRelayRateLimiter, discoverRL = newDiscoverRateLimiter, beaconID = bid,
       peers = resolvePeers resolve ps, peerNodes = fmempty, healthOk = True, strictGossip = False,
       gossipSeen = fmempty, registryAddr = [], advertiseAddr = [], registryAdminToken = [],
       wssServer = None, authKeyLookup = None, serverDone = False, recoveredPanics = 0, outbox = []\<rparr>)"

definition New :: "nat \<Rightarrow> (string \<Rightarrow> udpaddr option) \<Rightarrow> server" where
  "New ncpu resolve = NewWithPeers ncpu resolve 0 []"

section \<open>Setters and accessors\<close>

definition SetAuthoritativeKeyLookup :: "server \<Rightarrow> key_lookup option \<Rightarrow> server" where
  "SetAuthoritativeKeyLookup s fn = s\<lparr>authKeyLookup := fn\<rparr>"

definition SetStrictGossip :: "server \<Rightarrow> bool \<Rightarrow> server" where
  "SetStrictGossip s v = s\<lparr>strictGossip := v\<rparr>"

definition SetRegistry :: "server \<Rightarrow> string \<Rightarrow> server" where
  "SetRegistry s a = s\<lparr>registryAddr := a\<rparr>"

definition SetAdvertiseAddr :: "server \<Rightarrow> string \<Rightarrow> server" where
  "SetAdvertiseAddr s a = s\<lparr>advertiseAddr := a\<rparr>"

definition SetRegistryAdminToken :: "server \<Rightarrow> string \<Rightarrow> server" where
  "SetRegistryAdminToken s t = s\<lparr>registryAdminToken := t\<rparr>"

definition SetBreakerAllow :: "server \<Rightarrow> (string \<Rightarrow> bool \<times> string) option \<Rightarrow> server" where
  "SetBreakerAllow s fn = s\<lparr>breakerAllow := fn\<rparr>"

definition SetRequirePunchToken :: "server \<Rightarrow> bool \<Rightarrow> server" where
  "SetRequirePunchToken s v = s\<lparr>requirePunchToken := v\<rparr>"

definition SetHealthy :: "server \<Rightarrow> bool \<Rightarrow> server" where
  "SetHealthy s ok = s\<lparr>healthOk := ok\<rparr>"

definition PeerNodeCount :: "server \<Rightarrow> nat" where
  "PeerNodeCount s = fm_len (peerNodes s)"

definition LocalNodeCount :: "server \<Rightarrow> nat" where
  "LocalNodeCount s = Len (nodes s)"

definition breakerOpen :: "server \<Rightarrow> string \<Rightarrow> bool \<times> string" where
  "breakerOpen s name =
     (case breakerAllow s of
        None \<Rightarrow> (False, [])
      | Some fn \<Rightarrow> (case fn name of (allow, reason) \<Rightarrow> (\<not> allow, reason)))"

text \<open>\<^verbatim>\<open>strings.TrimSpace\<close> on ASCII input.\<close>

definition isSpace :: "char \<Rightarrow> bool" where
  "isSpace c \<longleftrightarrow> c \<in> {CHR '' '', CHR 0x09, CHR 0x0A, CHR 0x0B, CHR 0x0C, CHR 0x0D}"

definition TrimSpace :: "string \<Rightarrow> string" where
  "TrimSpace s = rev (dropWhile isSpace (rev (dropWhile isSpace s)))"

fun whitelistEntries :: "string list \<Rightarrow> bool \<times> string fset" where
  "whitelistEntries [] = (False, {||})"
| "whitelistEntries (ip # ips) =
     (case whitelistEntries ips of
        (every, m) \<Rightarrow>
          let ip = TrimSpace ip in
          if ip = [] then (every, m)
          else if ip = ''*'' \<or> ip = ''all'' then (True, m)
          else (every, finsert ip m))"

definition SetPunchWhitelist :: "server \<Rightarrow> string list \<Rightarrow> server" where
  "SetPunchWhitelist s ips =
     (case whitelistEntries ips of (every, m) \<Rightarrow> s\<lparr>punchWhitelist := m, punchWhitelistAll := every\<rparr>)"

section \<open>Datagrams\<close>

text \<open>\<^verbatim>\<open>s.conn.WriteToUDP\<close>, the \<open>k\<close>-th write of a handler; \<open>True\<close> is a nil error.\<close>

definition WriteToUDP :: "env \<Rightarrow> nat \<Rightarrow> server \<Rightarrow> bytes \<Rightarrow> udpaddr \<Rightarrow> bool \<times> server" where
  "WriteToUDP e k s msg dst =
     (if sendOk e k dst msg then (True, s\<lparr>outbox := outbox s @ [(dst, msg)]\<rparr>) else (False, s))"

text \<open>
  The address part of the discover reply and of the punch command:
  \<^verbatim>\<open>[type(1)][iplen(1)][IP(4 or 16)][port(2)]\<close>.
\<close>

definition endpointMsg :: "byte \<Rightarrow> ip \<Rightarrow> u16 \<Rightarrow> bytes" where
  "endpointMsg t p port = [t, of_nat (length p)] @ p @ be_PutUint16 port"

text \<open>What a receiver of such a message reads off it.\<close>

definition parseEndpoint :: "bytes \<Rightarrow> (byte \<times> ip \<times> u16) option" where
  "parseEndpoint m = (case m of
     t # n # rest \<Rightarrow>
       (case (slice rest 0 (unat n), uint16_at rest (unat n)) of
          (Some p, Some port) \<Rightarrow> Some (t, p, port) | _ \<Rightarrow> None)
   | _ \<Rightarrow> None)"

lemma parseEndpoint_msg [codec]:
  assumes "ipBytes q = Some p"
  shows "parseEndpoint (endpointMsg t p port) = Some (t, p, port)"
proof -
  have "length p = 4 \<or> length p = 16" by (rule ipBytes_length [OF assms])
  then have "unat (of_nat (length p) :: byte) = length p" by auto
  moreover have "uint16_at (p @ be_PutUint16 port) (length p) = Some port"
    using uint16_at_Put [of p "length p" port "[]"] by simp
  ultimately show ?thesis
    by (simp add: parseEndpoint_def endpointMsg_def slice_prefix)
qed

section \<open>Recovery\<close>

text \<open>
  \<^verbatim>\<open>recoverHandler\<close> and \<^verbatim>\<open>safely\<close> of \<^verbatim>\<open>recover.go\<close>: a panic ends the call, keeps what it had
  written and is counted.
\<close>

definition recoverHandler :: "server outcome \<Rightarrow> server" where
  "recoverHandler r =
     (case r of Done s \<Rightarrow> s | Panicked s \<Rightarrow> s\<lparr>recoveredPanics := recoveredPanics s + 1\<rparr>)"

definition safely :: "server outcome \<Rightarrow> server" where
  "safely r = recoverHandler r"

section \<open>Invariant\<close>

text \<open>
  The queue that carries a destination, \<^verbatim>\<open>relayQueueFor\<close>: an index into \<open>relayChs\<close>, \<open>None\<close> for the
  division by zero when there is no queue.
\<close>

definition relayQueueFor :: "server \<Rightarrow> u32 \<Rightarrow> nat option" where
  "relayQueueFor s d =
     (if length (relayChs s) = 0 then None else Some (unat (d mod of_nat (length (relayChs s)))))"

definition job_ok :: "nat \<Rightarrow> nat \<Rightarrow> relayJob \<Rightarrow> bool" where
  "job_ok n i j \<longleftrightarrow> unat (destID j) mod n = i \<and> length (payload j) \<le> maxRelayPayload"

definition queues_ok :: "relayJob list list \<Rightarrow> nat \<Rightarrow> bool" where
  "queues_ok qs cap \<longleftrightarrow> 0 < length qs \<and> length qs < 2 ^ 32 \<and>
     (\<forall>i < length qs. length (qs ! i) \<le> cap \<and> list_all (job_ok (length qs) i) (qs ! i))"

text \<open>Every route learned by gossip belongs to a source whose last sync is on record.\<close>

definition routes_ok :: "(nodeid, udpaddr) fmap \<Rightarrow> (string, gotime) fmap \<Rightarrow> bool" where
  "routes_ok routes seen \<longleftrightarrow>
     (\<forall>k a. fmlookup routes k = Some a \<longrightarrow> fmlookup seen (UDPAddrString a) \<noteq> None)"

definition keys_ok :: "(nodeid, bytes) fmap \<Rightarrow> bool" where
  "keys_ok keys \<longleftrightarrow> (\<forall>k pub. fmlookup keys k = Some pub \<longrightarrow> length pub = PublicKeySize)"

definition server_inv :: "server \<Rightarrow> bool" where
  "server_inv s \<longleftrightarrow>
     node_wf (nodes s) \<and> shard_caps maxBeaconNodes (nodes s) \<and>
     discover_wf (discoverRL s) \<and> punch_wf (punchRL s) \<and> relay_wf (relayRL s) \<and>
     queues_ok (relayChs s) (relayChCap s) \<and> routes_ok (peerNodes s) (gossipSeen s) \<and>
     keys_ok (nodePubKeys s) \<and> (case wssServer s of None \<Rightarrow> True | Some w \<Rightarrow> table_inv w)"

lemma server_inv_wf:
  "server_inv s \<Longrightarrow> node_wf (nodes s)" "server_inv s \<Longrightarrow> discover_wf (discoverRL s)"
  "server_inv s \<Longrightarrow> punch_wf (punchRL s)" "server_inv s \<Longrightarrow> relay_wf (relayRL s)"
  "server_inv s \<Longrightarrow> shard_caps maxBeaconNodes (nodes s)"
  by (simp_all add: server_inv_def)

text \<open>Updates that touch no field the invariant reads.\<close>

lemma server_inv_irrelevant [simp]:
  "server_inv (s\<lparr>outbox := a\<rparr>) = server_inv s" "server_inv (s\<lparr>recoveredPanics := b\<rparr>) = server_inv s"
  "server_inv (s\<lparr>dstNodes := c\<rparr>) = server_inv s" "server_inv (s\<lparr>relayForwarded := d\<rparr>) = server_inv s"
  "server_inv (s\<lparr>relayDropped := d\<rparr>) = server_inv s" "server_inv (s\<lparr>relayNotFound := d\<rparr>) = server_inv s"
  "server_inv (s\<lparr>lastDropLog := g\<rparr>) = server_inv s" "server_inv (s\<lparr>lastPunchTime := g\<rparr>) = server_inv s"
  "server_inv (s\<lparr>peers := p\<rparr>) = server_inv s" "server_inv (s\<lparr>conn := q\<rparr>) = server_inv s"
  "server_inv (s\<lparr>serverDone := r\<rparr>) = server_inv s"
  by (simp_all add: server_inv_def)

lemma server_inv_nodes: "server_inv s \<Longrightarrow> node_wf m \<Longrightarrow> shard_caps maxBeaconNodes m \<Longrightarrow> server_inv (s\<lparr>nodes := m\<rparr>)"
  by (simp add: server_inv_def)

lemma server_inv_Upsert:
  "server_inv s \<Longrightarrow> server_inv (s\<lparr>nodes := fst (Upsert (nodes s) k a t maxBeaconNodes)\<rparr>)"
  by (intro server_inv_nodes node_wf_Upsert shard_caps_Upsert) (simp_all add: server_inv_wf, simp add: maxBeaconNodes_def)

lemma server_inv_discoverRL: "server_inv s \<Longrightarrow> discover_wf rl \<Longrightarrow> server_inv (s\<lparr>discoverRL := rl\<rparr>)"
  by (simp add: server_inv_def)

lemma server_inv_punchRL: "server_inv s \<Longrightarrow> punch_wf rl \<Longrightarrow> server_inv (s\<lparr>punchRL := rl\<rparr>)"
  by (simp add: server_inv_def)

lemma server_inv_relayRL: "server_inv s \<Longrightarrow> relay_wf rl \<Longrightarrow> server_inv (s\<lparr>relayRL := rl\<rparr>)"
  by (simp add: server_inv_def)

lemma WriteToUDP_inv [simp]: "server_inv (snd (WriteToUDP e k s msg dst)) = server_inv s"
  by (simp add: WriteToUDP_def)

lemma relayQueueFor_less:
  assumes "queues_ok (relayChs s) cap"
  shows "\<exists>i < length (relayChs s). relayQueueFor s d = Some i \<and> i = unat d mod length (relayChs s)"
proof -
  have n: "0 < length (relayChs s)" "length (relayChs s) < 2 ^ 32"
    using assms by (simp_all add: queues_ok_def)
  have "unat (of_nat (length (relayChs s)) :: u32) = length (relayChs s)"
    using n(2) by (simp add: unat_of_nat take_bit_eq_mod)
  then have "unat (d mod of_nat (length (relayChs s))) = unat d mod length (relayChs s)"
    by (simp add: unat_mod)
  then show ?thesis using n(1) by (simp add: relayQueueFor_def)
qed

lemma New_inv:
  assumes "ncpu < 2 ^ 32"
  shows "server_inv (NewWithPeers ncpu resolve bid ps)"
  using assms
  by (simp add: server_inv_def NewWithPeers_def Let_def queues_ok_def relayWorkerCount_def routes_ok_def
      keys_ok_def maxBeaconNodes_def)

section \<open>Example\<close>

text \<open>A beacon that listens, a node behind an IPv4 address, and surroundings in which time stands still.\<close>

definition exExterns :: externs where
  "exExterns = \<lparr>BeaconMsgDiscover = 1, BeaconMsgDiscoverEx = 8, BeaconMsgDiscoverReply = 2, BeaconMsgPunchRequest = 3,
     BeaconMsgPunchCommand = 4, BeaconMsgRelay = 5, BeaconMsgRelayDeliver = 6, BeaconMsgRelayDeliverDest = 9,
     BeaconMsgSync = 7, edVerify = exVerify\<rparr>"

definition exEnv :: "int \<Rightarrow> env" where
  "exEnv t = \<lparr>clk = (\<lambda>_. at_s t), sendOk = (\<lambda>_ _ _. True)\<rparr>"

definition exServer :: server where
  "exServer = (NewWithPeers 8 (\<lambda>_. None) 1 [])\<lparr>conn := Some exAddr\<rparr>"

lemma exEnv_simps [simp]: "clk (exEnv t) i = at_s t" "sendOk (exEnv t) k dst msg"
  by (simp_all add: exEnv_def)

lemma exServer_inv: "server_inv exServer"
  unfolding exServer_def server_inv_irrelevant by (rule New_inv) simp

lemma exServer_simps [simp]:
  "breakerAllow exServer = None" "conn exServer = Some exAddr" "outbox exServer = []" "nodePubKeys exServer = fmempty"
  "nodes exServer = newNodeMap" "discoverRL exServer = newDiscoverRateLimiter" "dstNodes exServer = {||}"
  "peerNodes exServer = fmempty" "relayChs exServer = replicate 8 []" "relayChCap exServer = 65536"
  "wssServer exServer = None" "relayRL exServer = newRelayRateLimiter" "relayDropped exServer = 0"
  "relayNotFound exServer = 0" "relayForwarded exServer = 0" "peers exServer = []" "gossipSeen exServer = fmempty"
  "strictGossip exServer = False" "punchRL exServer = newPunchRateLimiter" "lastPunchTime exServer = 0"
  "punchWhitelist exServer = {||}" "punchWhitelistAll exServer = False" "requirePunchToken exServer = False"
  "authKeyLookup exServer = None" "beaconID exServer = 1" "serverDone exServer = False" "recoveredPanics exServer = 0"
  by (simp_all add: exServer_def NewWithPeers_def relayWorkerCount_def relayQueueDepth_def relayQueueSize_def Let_def)

lemma exServer_breaker [simp]: "breakerOpen exServer name = (False, [])"
  by (simp add: breakerOpen_def)

end
