(* ===== verification/Discover.thy ===== *)
theory Discover
  imports BeaconState
begin

text \<open>
  Registration: \<^verbatim>\<open>handleDiscover\<close> of \<^verbatim>\<open>server.go\<close>.  A node announces itself and learns the
  endpoint the beacon observes.  Clock readings 0 and 1 are those of the rate limiter, reading 2
  is the time stamp of the registration.
\<close>

section \<open>The handler\<close>

definition discoverReply :: "externs \<Rightarrow> env \<Rightarrow> server \<Rightarrow> udpaddr \<Rightarrow> server" where
  "discoverReply x e s remote =
     (case ipBytes (IP remote) of
        None \<Rightarrow> s
      | Some p \<Rightarrow>
          let reply = endpointMsg (BeaconMsgDiscoverReply x) p (word_of_int (Port remote)) in
          case conn s of None \<Rightarrow> s | Some _ \<Rightarrow> snd (WriteToUDP e 0 s reply remote))"

text \<open>\<^verbatim>\<open>nodePubKeys.LoadOrStore\<close>: the first key announced for a node id stays.\<close>

definition storeKey :: "server \<Rightarrow> nodeid \<Rightarrow> bytes \<Rightarrow> server" where
  "storeKey s nodeID pub =
     (case fmlookup (nodePubKeys s) nodeID of
        None \<Rightarrow> s\<lparr>nodePubKeys := fmupd nodeID pub (nodePubKeys s)\<rparr>
      | Some _ \<Rightarrow> s)"

definition discoverUpsert :: "externs \<Rightarrow> env \<Rightarrow> server \<Rightarrow> nodeid \<Rightarrow> udpaddr \<Rightarrow> server" where
  "discoverUpsert x e s nodeID remote =
     (case discover_allow (discoverRL s) nodeID discoverMinInterval (clk e 0) (clk e 1) of
        (allowed, rl) \<Rightarrow>
          let s1 = s\<lparr>discoverRL := rl\<rparr> in
          if \<not> allowed then discoverReply x e s1 remote
          else case Upsert (nodes s1) nodeID remote (clk e 2) maxBeaconNodes of
            (m, inserted, atCap) \<Rightarrow>
              let s2 = s1\<lparr>nodes := m\<rparr> in
              if atCap then s2 else discoverReply x e s2 remote)"

definition handleDiscover :: "externs \<Rightarrow> env \<Rightarrow> server \<Rightarrow> bytes \<Rightarrow> udpaddr \<Rightarrow> bool \<Rightarrow> server outcome" where
  "handleDiscover x e s data remote wantDest =
     (if length data < 4 then Done s
      else if fst (breakerOpen s ''beacon.discover'') then Done s
      else case uint32_at data 0 of
        None \<Rightarrow> Panicked s
      | Some nodeID \<Rightarrow>
          let s1 = (if wantDest then s\<lparr>dstNodes := finsert nodeID (dstNodes s)\<rparr> else s) in
          if 4 + PublicKeySize \<le> length data then
            (case slice data 4 (4 + PublicKeySize) of
               None \<Rightarrow> Panicked s1
             | Some pub \<Rightarrow> Done (discoverUpsert x e (storeKey s1 nodeID pub) nodeID remote))
          else Done (discoverUpsert x e s1 nodeID remote))"

section \<open>Invariant and frame\<close>

lemma discoverReply_inv [simp]: "server_inv (discoverReply x e s remote) = server_inv s"
  by (simp add: discoverReply_def Let_def split: option.splits)

lemma discoverUpsert_inv: "server_inv s \<Longrightarrow> server_inv (discoverUpsert x e s nodeID remote)"
proof -
  assume s: "server_inv s"
  obtain allowed rl where rl: "discover_allow (discoverRL s) nodeID discoverMinInterval (clk e 0) (clk e 1) = (allowed, rl)"
    by force
  have "discover_wf rl"
    using dl.invar_allow [OF server_inv_wf(2) [OF s], of nodeID discoverMinInterval "clk e 0" "clk e 1"] by (simp add: rl)
  then have "server_inv (s\<lparr>discoverRL := rl\<rparr>)" by (rule server_inv_discoverRL [OF s])
  then show ?thesis
    using server_inv_Upsert [of "s\<lparr>discoverRL := rl\<rparr>" nodeID remote "clk e 2"]
    by (auto simp: discoverUpsert_def rl Let_def split: prod.split)
qed

lemma storeKey_inv: "server_inv s \<Longrightarrow> length pub = PublicKeySize \<Longrightarrow> server_inv (storeKey s k pub)"
  by (auto simp: storeKey_def server_inv_def keys_ok_def split: option.splits)

lemma handleDiscover_inv:
  assumes "server_inv s"
  shows "\<exists>s'. handleDiscover x e s data remote wantDest = Done s' \<and> server_inv s'"
proof -
  have "server_inv (if wantDest then s\<lparr>dstNodes := finsert k (dstNodes s)\<rparr> else s)" for k
    using assms by simp
  moreover have "4 \<le> length data \<Longrightarrow> \<exists>k. uint32_at data 0 = Some k"
    using uint32_at_defined [of 0 data] by simp
  ultimately show ?thesis
    using assms
    by (auto simp: handleDiscover_def Let_def slice_def not_less
        intro!: discoverUpsert_inv storeKey_inv)
qed

section \<open>What a registration does\<close>

text \<open>
  The effect on the table, the limiter and the socket, stated once for every branch behind the
  guards: \<open>allowed\<close> and \<open>atCap\<close> are the answers of the limiter and of \<^verbatim>\<open>Upsert\<close>.
\<close>

definition discover_allowed :: "env \<Rightarrow> server \<Rightarrow> nodeid \<Rightarrow> bool" where
  "discover_allowed e s nodeID = fst (discover_allow (discoverRL s) nodeID discoverMinInterval (clk e 0) (clk e 1))"

definition discover_full :: "env \<Rightarrow> server \<Rightarrow> nodeid \<Rightarrow> udpaddr \<Rightarrow> bool" where
  "discover_full e s nodeID remote = snd (snd (Upsert (nodes s) nodeID remote (clk e 2) maxBeaconNodes))"

lemma discoverReply_simps [simp]:
  "nodes (discoverReply x e s remote) = nodes s" "nodePubKeys (discoverReply x e s remote) = nodePubKeys s"
  "dstNodes (discoverReply x e s remote) = dstNodes s" "discoverRL (discoverReply x e s remote) = discoverRL s"
  by (simp_all add: discoverReply_def WriteToUDP_def Let_def split: option.splits)

lemma discoverReply_outbox:
  assumes "conn s = Some c" "ipBytes (IP remote) = Some p" "\<And>msg. sendOk e 0 remote msg"
  shows "outbox (discoverReply x e s remote)
    = outbox s @ [(remote, endpointMsg (BeaconMsgDiscoverReply x) p (word_of_int (Port remote)))]"
  using assms by (simp add: discoverReply_def WriteToUDP_def Let_def)

lemma discoverUpsert_nodes:
  "nodes (discoverUpsert x e s nodeID remote) =
     (if discover_allowed e s nodeID then fst (Upsert (nodes s) nodeID remote (clk e 2) maxBeaconNodes) else nodes s)"
  by (simp add: discoverUpsert_def discover_allowed_def Let_def split: prod.splits)

lemma discoverUpsert_outbox:
  assumes "conn s = Some c" "ipBytes (IP remote) = Some p" "\<And>msg. sendOk e 0 remote msg"
  shows "outbox (discoverUpsert x e s nodeID remote) =
     (if discover_allowed e s nodeID \<and> discover_full e s nodeID remote then outbox s
      else outbox s @ [(remote, endpointMsg (BeaconMsgDiscoverReply x) p (word_of_int (Port remote)))])"
  using assms
  by (auto simp: discoverUpsert_def discover_allowed_def discover_full_def discoverReply_outbox Let_def split: prod.splits)

lemma discoverUpsert_keys [simp]:
  "nodePubKeys (discoverUpsert x e s nodeID remote) = nodePubKeys s"
  "dstNodes (discoverUpsert x e s nodeID remote) = dstNodes s"
  by (simp_all add: discoverUpsert_def Let_def split: prod.splits)

lemma storeKey_simps [simp]:
  "nodes (storeKey s k pub) = nodes s" "discoverRL (storeKey s k pub) = discoverRL s" "conn (storeKey s k pub) = conn s"
  "outbox (storeKey s k pub) = outbox s" "dstNodes (storeKey s k pub) = dstNodes s"
  by (simp_all add: storeKey_def split: option.splits)

lemma storeKey_keys:
  "fmlookup (nodePubKeys (storeKey s k pub)) =
     (if fmlookup (nodePubKeys s) k = None then (fmlookup (nodePubKeys s))(k \<mapsto> pub) else fmlookup (nodePubKeys s))"
  by (auto simp: storeKey_def split: option.splits)

text \<open>Behind the guards the handler is \<open>discoverUpsert\<close> on a state with the same table, limiter and socket.\<close>

lemma handleDiscover_served:
  assumes "4 \<le> length data" "\<not> fst (breakerOpen s ''beacon.discover'')" "uint32_at data 0 = Some nodeID"
  obtains t where "handleDiscover x e s data remote wantDest = Done (discoverUpsert x e t nodeID remote)"
    "nodes t = nodes s" "discoverRL t = discoverRL s" "conn t = conn s" "outbox t = outbox s"
    "dstNodes t = (if wantDest then finsert nodeID (dstNodes s) else dstNodes s)"
    "fmlookup (nodePubKeys t) =
       (if 4 + PublicKeySize \<le> length data \<and> fmlookup (nodePubKeys s) nodeID = None
        then (fmlookup (nodePubKeys s))(nodeID \<mapsto> take PublicKeySize (drop 4 data)) else fmlookup (nodePubKeys s))"
proof -
  let ?s1 = "if wantDest then s\<lparr>dstNodes := finsert nodeID (dstNodes s)\<rparr> else s"
  show thesis
  proof (cases "4 + PublicKeySize \<le> length data")
    case True
    then show thesis
      using assms by (intro that [of "storeKey ?s1 nodeID (take PublicKeySize (drop 4 data))"])
        (auto simp: handleDiscover_def slice_def Let_def storeKey_keys not_less)
  next
    case False
    then show thesis
      using assms by (intro that [of ?s1]) (simp_all add: handleDiscover_def Let_def not_less)
  qed
qed

lemma discover_cong:
  "discoverRL t = discoverRL s \<Longrightarrow> discover_allowed e t k = discover_allowed e s k"
  "nodes t = nodes s \<Longrightarrow> discover_full e t k remote = discover_full e s k remote"
  by (simp_all add: discover_allowed_def discover_full_def)

section \<open>Sequences of registrations\<close>

type_synonym discover_req = "env \<times> bytes \<times> udpaddr \<times> bool"

fun discover_run :: "externs \<Rightarrow> server \<Rightarrow> discover_req list \<Rightarrow> server" where
  "discover_run x s [] = s"
| "discover_run x s ((e, data, remote, wantDest) # reqs) =
     discover_run x (state_of (handleDiscover x e s data remote wantDest)) reqs"

lemma handleDiscover_keys_mono:
  "fmlookup (nodePubKeys s) k = Some pub \<Longrightarrow>
   fmlookup (nodePubKeys (state_of (handleDiscover x e s data remote wantDest))) k = Some pub"
  by (auto simp: handleDiscover_def Let_def storeKey_def split: option.splits)

lemma discover_run_keys_mono:
  "fmlookup (nodePubKeys s) k = Some pub \<Longrightarrow> fmlookup (nodePubKeys (discover_run x s reqs)) k = Some pub"
  by (induction x s reqs rule: discover_run.induct) (simp_all add: handleDiscover_keys_mono)

lemma discover_effect:
  assumes "server_inv s" "4 \<le> length data" "\<not> fst (breakerOpen s ''beacon.discover'')" "uint32_at data 0 = Some nodeID"
    "conn s = Some c" "ipBytes (IP remote) = Some p" "\<forall>msg. sendOk e 0 remote msg"
  obtains s' where "handleDiscover x e s data remote wantDest = Done s'"
    "outbox s' = outbox s @ (if discover_allowed e s nodeID \<and> discover_full e s nodeID remote then []
       else [(remote, endpointMsg (BeaconMsgDiscoverReply x) p (word_of_int (Port remote)))])"
    "nodes_abs (nodes s') =
        (if discover_allowed e s nodeID \<and> \<not> discover_full e s nodeID remote
         then (nodes_abs (nodes s))(nodeID \<mapsto> touch (nodes_abs (nodes s) nodeID) remote (clk e 2))
         else nodes_abs (nodes s))"
proof -
  let ?reply = "endpointMsg (BeaconMsgDiscoverReply x) p (word_of_int (Port remote))"
  obtain t where t: "handleDiscover x e s data remote wantDest = Done (discoverUpsert x e t nodeID remote)"
      "nodes t = nodes s" "discoverRL t = discoverRL s" "conn t = conn s" "outbox t = outbox s"
    by (rule handleDiscover_served [OF assms(2,3,4), of x e remote wantDest])
  have o: "outbox (discoverUpsert x e t nodeID remote) = outbox s @
      (if discover_allowed e s nodeID \<and> discover_full e s nodeID remote then [] else [(remote, ?reply)])"
    using discoverUpsert_outbox [of t c remote p e x nodeID] assms(5,6,7) t by (simp add: discover_cong(1) [OF t(3)] discover_cong(2) [OF t(2)])
  have "nodes_abs (fst (Upsert (nodes s) nodeID remote (clk e 2) maxBeaconNodes)) =
      (if discover_full e s nodeID remote then nodes_abs (nodes s)
       else (nodes_abs (nodes s))(nodeID \<mapsto> touch (nodes_abs (nodes s) nodeID) remote (clk e 2)))"
    using server_inv_wf(1) [OF assms(1)]
    by (simp add: discover_full_def Upsert_put nodes_abs_put split: option.splits)
  then have "nodes_abs (nodes (discoverUpsert x e t nodeID remote)) =
      (if discover_allowed e s nodeID \<and> \<not> discover_full e s nodeID remote
       then (nodes_abs (nodes s))(nodeID \<mapsto> touch (nodes_abs (nodes s) nodeID) remote (clk e 2))
       else nodes_abs (nodes s))"
    by (simp add: discoverUpsert_nodes t(2) discover_cong(1) [OF t(3)])
  with t(1) o show thesis by (rule that)
qed

section \<open>Properties\<close>

text \<open>
  C24: Registration on every branch behind the guards.  A node whose update is refused by the limiter
  keeps its entry and still gets a reply; a new node whose shard is full gets neither an entry nor a
  reply; every other node is entered under the address the datagram came from.  A reply goes to that
  address, and what its receiver decodes from it is that very address, in its 4-byte form where it
  has one, with the port modulo \<open>2 ^ 16\<close>.
\<close>

theorem discover_exact:
  assumes "server_inv s" "4 \<le> length data" "\<not> fst (breakerOpen s ''beacon.discover'')" "uint32_at data 0 = Some nodeID"
    "conn s = Some c" "ipBytes (IP remote) = Some p" "\<forall>msg. sendOk e 0 remote msg"
  shows "\<exists>s' reply. handleDiscover x e s data remote wantDest = Done s'
    \<and> outbox s' = outbox s @ (if discover_allowed e s nodeID \<and> discover_full e s nodeID remote then [] else [(remote, reply)])
    \<and> parseEndpoint reply = Some (BeaconMsgDiscoverReply x, p, word_of_int (Port remote)) \<and> IPEqual p (IP remote)
    \<and> nodes_abs (nodes s') =
        (if discover_allowed e s nodeID \<and> \<not> discover_full e s nodeID remote
         then (nodes_abs (nodes s))(nodeID \<mapsto> touch (nodes_abs (nodes s) nodeID) remote (clk e 2))
         else nodes_abs (nodes s))"
proof -
  obtain s' where "handleDiscover x e s data remote wantDest = Done s'"
    "outbox s' = outbox s @ (if discover_allowed e s nodeID \<and> discover_full e s nodeID remote then []
       else [(remote, endpointMsg (BeaconMsgDiscoverReply x) p (word_of_int (Port remote)))])"
    "nodes_abs (nodes s') =
        (if discover_allowed e s nodeID \<and> \<not> discover_full e s nodeID remote
         then (nodes_abs (nodes s))(nodeID \<mapsto> touch (nodes_abs (nodes s) nodeID) remote (clk e 2))
         else nodes_abs (nodes s))"
    by (rule discover_effect [OF assms])
  then show ?thesis
    by (intro exI [of _ s'] exI [of _ "endpointMsg (BeaconMsgDiscoverReply x) p (word_of_int (Port remote))"] conjI)
      (simp_all only: parseEndpoint_msg [OF assms(6)] ipBytes_IPEqual [OF assms(6)])
qed

theorem discover_exact_witness:
  "server_inv exServer \<and> uint32_at [0, 0, 0, 7] 0 = Some 7 \<and>
   (\<exists>s' reply. handleDiscover exExterns (exEnv 1) exServer [0, 0, 0, 7] exAddr False = Done s'
      \<and> parseEndpoint reply = Some (2, [10, 0, 0, 1], word_of_int (Port exAddr)))"
proof -
  have h: "4 \<le> length [0, 0, 0, 7 :: byte]" "\<not> fst (breakerOpen exServer ''beacon.discover'')"
      "uint32_at [0, 0, 0, 7] 0 = Some 7" "conn exServer = Some exAddr" "ipBytes (IP exAddr) = Some [10, 0, 0, 1]"
      "\<forall>msg. sendOk (exEnv 1) 0 exAddr msg"
    by (simp_all add: uint32_at_def slice_def exAddr_def ipBytes_def To4_def)
  have "BeaconMsgDiscoverReply exExterns = 2" by (simp add: exExterns_def)
  then show ?thesis
    using exServer_inv h(3) discover_exact [OF exServer_inv h, of exExterns False] by metis
qed

text \<open>
  C33: the first public key announced for a node id is the one kept.  The announcement that comes
  first stores exactly its bytes 4 to 35, and no later sequence of registrations, from any address
  and with any key, changes it.
\<close>

theorem discover_key_pinned:
  assumes "4 + PublicKeySize \<le> length data" "\<not> fst (breakerOpen s ''beacon.discover'')" "uint32_at data 0 = Some nodeID"
    "fmlookup (nodePubKeys s) nodeID = None"
  shows "fmlookup (nodePubKeys (discover_run x s ((e, data, remote, wantDest) # reqs))) nodeID
    = Some (take PublicKeySize (drop 4 data))"
proof -
  obtain t where "handleDiscover x e s data remote wantDest = Done (discoverUpsert x e t nodeID remote)"
      "fmlookup (nodePubKeys t) = (fmlookup (nodePubKeys s))(nodeID \<mapsto> take PublicKeySize (drop 4 data))"
    using handleDiscover_served [OF add_leD1 [OF assms(1)] assms(2,3), of x e remote wantDest thesis] assms(1,4)
    by simp
  then show ?thesis by (simp add: discover_run_keys_mono)
qed

theorem discover_key_pinned_witness:
  "fmlookup (nodePubKeys (discover_run exExterns exServer
     [(exEnv 1, [0, 0, 0, 7] @ replicate 32 1, exAddr, False), (exEnv 2, [0, 0, 0, 7] @ replicate 32 2, exAddr, True)])) 7
   = Some (replicate 32 1)"
proof -
  have h: "4 + PublicKeySize \<le> length ([0, 0, 0, 7] @ replicate 32 (1 :: byte))"
      "\<not> fst (breakerOpen exServer ''beacon.discover'')"
      "uint32_at ([0, 0, 0, 7] @ replicate 32 1) 0 = Some 7" "fmlookup (nodePubKeys exServer) 7 = None"
    by (simp_all add: PublicKeySize_def uint32_at_def slice_def)
  have "take PublicKeySize (drop 4 ([0, 0, 0, 7] @ replicate 32 (1 :: byte))) = replicate 32 1"
    by (simp add: PublicKeySize_def)
  then show ?thesis
    using discover_key_pinned [OF h, of exExterns "exEnv 1" exAddr False] by metis
qed

end
