(* ===== verification/Punch.thy ===== *)
theory Punch
  imports BeaconState
begin

text \<open>
  Hole punching and notification: \<^verbatim>\<open>handlePunchRequest\<close> with its rate limits and its grant
  check, \<^verbatim>\<open>SendPunchCommand\<close> and \<^verbatim>\<open>NotifyNode\<close> of \<^verbatim>\<open>server.go\<close>.  Of the clock readings of a
  punch request, 0 is the global cap's, 1 and 2 are the per-source limiter's, 3 is the grant
  check's and 4 stamps the registration.
\<close>

section \<open>Grants\<close>

definition punchGrantExpirySize :: nat where
  "punchGrantExpirySize = 8"

definition punchGrantTrailerSize :: nat where
  "punchGrantTrailerSize = punchGrantExpirySize + SignatureSize"

definition targetPubKey :: "server \<Rightarrow> nodeid \<Rightarrow> bytes \<times> bool" where
  "targetPubKey s targetID =
     (case authKeyLookup s of
        Some fn \<Rightarrow> fn targetID
      | None \<Rightarrow> (case fmlookup (nodePubKeys s) targetID of None \<Rightarrow> ([], False) | Some pub \<Rightarrow> (pub, True)))"

text \<open>\<open>None\<close> is a panic.\<close>

definition verifyPunchGrant :: "externs \<Rightarrow> gotime \<Rightarrow> server \<Rightarrow> bytes \<Rightarrow> u32 \<Rightarrow> u32 \<Rightarrow> bool option" where
  "verifyPunchGrant x now s trailer requesterID targetID =
     (if length trailer < punchGrantTrailerSize then Some False
      else case Option.bind (slice trailer 0 punchGrantExpirySize) be_Uint64 of
        None \<Rightarrow> None
      | Some expiry \<Rightarrow>
          if expiry <s Unix now then Some False
          else case slice trailer punchGrantExpirySize (punchGrantExpirySize + SignatureSize) of
            None \<Rightarrow> None
          | Some sig \<Rightarrow>
              (case targetPubKey s targetID of
                 (pub, ok) \<Rightarrow>
                   if \<not> ok \<or> length pub \<noteq> PublicKeySize then Some False
                   else ed25519_Verify (edVerify x) pub (punchPreimage requesterID targetID expiry) sig))"

section \<open>Commands\<close>

datatype sendError = NotListening | ErrNodeNotFound nodeid | CannotEncodeIP | WriteError

definition SendPunchCommand ::
    "externs \<Rightarrow> env \<Rightarrow> nat \<Rightarrow> server \<Rightarrow> nodeid \<Rightarrow> ip \<Rightarrow> u16 \<Rightarrow> sendError option \<times> server" where
  "SendPunchCommand x e k s nodeID targetIP targetPort =
     (if conn s = None then (Some NotListening, s)
      else case Snapshot (nodes s) nodeID of
        None \<Rightarrow> (Some (ErrNodeNotFound nodeID), s)
      | Some nodeAddr \<Rightarrow>
          (case ipBytes targetIP of
             None \<Rightarrow> (Some CannotEncodeIP, s)
           | Some p \<Rightarrow>
               (case WriteToUDP e k s (endpointMsg (BeaconMsgPunchCommand x) p targetPort) nodeAddr of
                  (ok, s1) \<Rightarrow> (if ok then None else Some WriteError, s1))))"

definition NotifyNode :: "env \<Rightarrow> server \<Rightarrow> nodeid \<Rightarrow> sendError option \<times> server" where
  "NotifyNode e s nodeID =
     (if conn s = None then (Some NotListening, s)
      else case claimNotify (nodes s) nodeID (clk e 0) notifyMinInterval of
        (m, NotFound) \<Rightarrow> (Some (ErrNodeNotFound nodeID), s\<lparr>nodes := m\<rparr>)
      | (m, Throttled _) \<Rightarrow> (None, s\<lparr>nodes := m\<rparr>)
      | (m, Claimed nodeAddr) \<Rightarrow>
          (case WriteToUDP e 0 (s\<lparr>nodes := m\<rparr>) [MsgNotify, NotifyKindHandshake] nodeAddr of
             (ok, s1) \<Rightarrow> (if ok then None else Some WriteError, s1)))"

section \<open>The handler\<close>

definition punchGlobalGap :: i64 where
  "punchGlobalGap = word_of_int (second div maxPunchPerSecond)"

definition whitelisted :: "server \<Rightarrow> string \<Rightarrow> bool" where
  "whitelisted s sourceKey \<longleftrightarrow> punchWhitelistAll s \<or> sourceKey |\<in>| punchWhitelist s"

text \<open>The rate-limit guard; \<open>False\<close> is the early return.\<close>

definition punchGate :: "env \<Rightarrow> server \<Rightarrow> string \<Rightarrow> bool \<times> server" where
  "punchGate e s sourceKey =
     (let now = UnixNano (clk e 0) in
      if now - lastPunchTime s <s punchGlobalGap then (False, s)
      else case punch_allow (punchRL s) sourceKey punchPerSourceInterval (clk e 1) (clk e 2) of
        (allowed, rl) \<Rightarrow>
          let s1 = s\<lparr>punchRL := rl\<rparr> in
          if \<not> allowed then (False, s1) else (True, s1\<lparr>lastPunchTime := now\<rparr>))"

definition coordinatePunch :: "externs \<Rightarrow> env \<Rightarrow> server \<Rightarrow> u32 \<Rightarrow> u32 \<Rightarrow> udpaddr \<Rightarrow> server" where
  "coordinatePunch x e s requesterID targetID remote =
     (let s1 = s\<lparr>nodes := fst (Upsert (nodes s) requesterID remote (clk e 4) maxBeaconNodes)\<rparr> in
      case (Snapshot (nodes s1) targetID, Snapshot (nodes s1) requesterID) of
        (Some targetAddr0, Some requesterAddr0) \<Rightarrow>
          let targetAddr = (case Snapshot (nodes s1) targetID of Some a \<Rightarrow> a | None \<Rightarrow> targetAddr0);
              s2 = snd (SendPunchCommand x e 0 s1 requesterID (IP targetAddr) (word_of_int (Port targetAddr)));
              requesterAddr = (case Snapshot (nodes s2) requesterID of Some a \<Rightarrow> a | None \<Rightarrow> requesterAddr0)
          in snd (SendPunchCommand x e 1 s2 targetID (IP requesterAddr) (word_of_int (Port requesterAddr)))
      | _ \<Rightarrow> s1)"

definition servePunch :: "externs \<Rightarrow> env \<Rightarrow> server \<Rightarrow> bytes \<Rightarrow> udpaddr \<Rightarrow> server outcome" where
  "servePunch x e s data remote =
     (case (uint32_at data 0, uint32_at data 4) of
        (Some requesterID, Some targetID) \<Rightarrow>
          if requirePunchToken s then
            (case verifyPunchGrant x (clk e 3) s (drop 8 data) requesterID targetID of
               None \<Rightarrow> Panicked s
             | Some False \<Rightarrow> Done s
             | Some True \<Rightarrow> Done (coordinatePunch x e s requesterID targetID remote))
          else Done (coordinatePunch x e s requesterID targetID remote)
      | _ \<Rightarrow> Panicked s)"

definition handlePunchRequest :: "externs \<Rightarrow> env \<Rightarrow> server \<Rightarrow> bytes \<Rightarrow> udpaddr \<Rightarrow> server outcome" where
  "handlePunchRequest x e s data remote =
     (if length data < 8 then Done s
      else if fst (breakerOpen s ''beacon.punch'') then Done s
      else
        let sourceKey = IPString (IP remote) in
        if whitelisted s sourceKey then servePunch x e s data remote
        else case punchGate e s sourceKey of
          (False, s1) \<Rightarrow> Done s1
        | (True, s1) \<Rightarrow> servePunch x e s1 data remote)"

section \<open>Invariant\<close>

lemma SendPunchCommand_frame [simp]:
  "nodes (snd (SendPunchCommand x e k s n p q)) = nodes s"
  "server_inv (snd (SendPunchCommand x e k s n p q)) = server_inv s"
  by (simp_all add: SendPunchCommand_def WriteToUDP_def split: option.splits prod.splits)

lemma coordinatePunch_inv: "server_inv s \<Longrightarrow> server_inv (coordinatePunch x e s r t remote)"
  by (simp add: coordinatePunch_def Let_def server_inv_Upsert split: option.splits)

lemma punchGate_inv: "server_inv s \<Longrightarrow> server_inv (snd (punchGate e s key))"
  using pl.invar_allow [OF server_inv_wf(3), of s key punchPerSourceInterval "clk e 1" "clk e 2"]
  by (auto simp: punchGate_def Let_def intro!: server_inv_punchRL split: prod.split)

lemma verifyPunchGrant_defined: "verifyPunchGrant x now s trailer r t \<noteq> None"
proof -
  have "\<exists>v. be_Uint64 (take 8 trailer) = Some v" if "72 \<le> length trailer"
    using that by (intro be_Uint64_defined) simp
  then show ?thesis
    by (auto simp: verifyPunchGrant_def punchGrantTrailerSize_def punchGrantExpirySize_def SignatureSize_def
        slice_def ed25519_Verify_def split: prod.split; blast)
qed

lemma servePunch_inv:
  assumes "server_inv s" "8 \<le> length data"
  shows "\<exists>s'. servePunch x e s data remote = Done s' \<and> server_inv s'"
proof -
  obtain r t where rt: "uint32_at data 0 = Some r" "uint32_at data 4 = Some t"
    using uint32_at_defined [of 0 data] uint32_at_defined [of 4 data] assms(2) by auto
  obtain b where "verifyPunchGrant x (clk e 3) s (drop 8 data) r t = Some b"
    using verifyPunchGrant_defined [of x "clk e 3" s "drop 8 data" r t] by blast
  then show ?thesis
    using assms(1) coordinatePunch_inv by (cases b) (auto simp: servePunch_def rt)
qed

lemma handlePunchRequest_inv:
  assumes "server_inv s"
  shows "\<exists>s'. handlePunchRequest x e s data remote = Done s' \<and> server_inv s'"
proof (cases "length data < 8 \<or> fst (breakerOpen s ''beacon.punch'')")
  case True
  then show ?thesis using assms by (auto simp: handlePunchRequest_def)
next
  case False
  obtain ok s1 where g: "punchGate e s (IPString (IP remote)) = (ok, s1)" by force
  have "server_inv s1" using punchGate_inv [OF assms, of e "IPString (IP remote)"] by (simp add: g)
  then show ?thesis
    using servePunch_inv [OF assms, of data x e remote] servePunch_inv [of s1 data x e remote] False
    by (cases ok) (auto simp: handlePunchRequest_def Let_def g)
qed

lemma NotifyNode_inv:
  assumes "server_inv s"
  shows "server_inv (snd (NotifyNode e s k))"
proof -
  obtain m r where m: "claimNotify (nodes s) k (clk e 0) notifyMinInterval = (m, r)" by force
  have "node_wf m" "shard_caps maxBeaconNodes m"
    using node_wf_claim [OF server_inv_wf(1) [OF assms]] shard_caps_claim [OF server_inv_wf(1) [OF assms] server_inv_wf(5) [OF assms]] m
    by (metis fst_conv)+
  then have "server_inv (s\<lparr>nodes := m\<rparr>)" by (rule server_inv_nodes [OF assms])
  then show ?thesis
    using assms by (auto simp: NotifyNode_def m WriteToUDP_def split: notify_claim.split)
qed

section \<open>Lemmas for the properties\<close>

lemma verifyPunchGrant_True:
  assumes "verifyPunchGrant x now s trailer r t = Some True"
  obtains expiry pub where "punchGrantTrailerSize \<le> length trailer" "be_Uint64 (take 8 trailer) = Some expiry"
    "Unix now \<le>s expiry" "targetPubKey s t = (pub, True)" "length pub = PublicKeySize"
    "edVerify x pub (punchPreimage r t expiry) (take SignatureSize (drop 8 trailer))"
  using assms
  by (auto simp: verifyPunchGrant_def punchGrantExpirySize_def slice_def ed25519_Verify_def signed.not_less not_less
      split: if_splits option.splits prod.splits)

text \<open>Two commands are sent when both endpoints are known, none otherwise.\<close>

lemma coordinatePunch_outbox:
  assumes "conn s = Some c" "\<And>k dst msg. sendOk e k dst msg"
    "nodes_abs (fst (Upsert (nodes s) r remote (clk e 4) maxBeaconNodes)) = m"
  shows "outbox (coordinatePunch x e s r t remote) = outbox s @
    (case (m t, m r) of
       (Some nt, Some nr) \<Rightarrow>
         (case ipBytes (IP (addr nt)) of None \<Rightarrow> []
          | Some p \<Rightarrow> [(addr nr, endpointMsg (BeaconMsgPunchCommand x) p (word_of_int (Port (addr nt))))]) @
         (case ipBytes (IP (addr nr)) of None \<Rightarrow> []
          | Some p \<Rightarrow> [(addr nt, endpointMsg (BeaconMsgPunchCommand x) p (word_of_int (Port (addr nr))))])
     | _ \<Rightarrow> [])"
  using assms(1,2)
  by (auto simp: coordinatePunch_def Let_def SendPunchCommand_def WriteToUDP_def Snapshot_abs assms(3)
      split: option.splits)

lemma coordinatePunch_nodes [simp]:
  "nodes (coordinatePunch x e s r t remote) = fst (Upsert (nodes s) r remote (clk e 4) maxBeaconNodes)"
  by (simp add: coordinatePunch_def Let_def split: option.splits)

lemma Upsert_nodes_abs:
  assumes "node_wf m" "\<not> snd (snd (Upsert m k a t mx))"
  shows "nodes_abs (fst (Upsert m k a t mx)) = (nodes_abs m)(k \<mapsto> touch (nodes_abs m k) a t)"
  using assms by (auto simp: Upsert_put nodes_abs_put split: option.splits if_splits)

lemma Upsert_full:
  assumes "snd (snd (Upsert m k a t mx))"
  shows "fst (Upsert m k a t mx) = m" "nodes_abs m k = None"
  using assms by (auto simp: Upsert_put split: option.splits if_splits)

lemma addr_touch [simp]: "addr (touch n a t) = a"
  by (simp add: touch_def split: option.split)

lemma punchGate_frame [simp]:
  "nodes (snd (punchGate e s key)) = nodes s" "outbox (snd (punchGate e s key)) = outbox s"
  "conn (snd (punchGate e s key)) = conn s" "requirePunchToken (snd (punchGate e s key)) = requirePunchToken s"
  "authKeyLookup (snd (punchGate e s key)) = authKeyLookup s" "nodePubKeys (snd (punchGate e s key)) = nodePubKeys s"
  by (auto simp: punchGate_def Let_def split: prod.split)

lemma targetPubKey_gate [simp]: "targetPubKey (snd (punchGate e s key)) k = targetPubKey s k"
  by (cases "authKeyLookup s") (simp_all add: targetPubKey_def)

text \<open>Past the guards the handler is \<open>servePunch\<close> on a state with the same table, socket and keys.\<close>

lemma handlePunchRequest_cases:
  obtains "handlePunchRequest x e s data remote = Done s"
  | "handlePunchRequest x e s data remote = Done (snd (punchGate e s (IPString (IP remote))))"
  | s1 where "8 \<le> length data" "s1 = s \<or> s1 = snd (punchGate e s (IPString (IP remote)))"
      "handlePunchRequest x e s data remote = servePunch x e s1 data remote"
proof (cases "length data < 8 \<or> fst (breakerOpen s ''beacon.punch'')")
  case True
  then show thesis by (intro that(1)) (auto simp: handlePunchRequest_def)
next
  case False
  obtain ok s1 where g: "punchGate e s (IPString (IP remote)) = (ok, s1)" by force
  show thesis
  proof (cases "whitelisted s (IPString (IP remote))")
    case True
    then show thesis using False by (intro that(3) [of s]) (auto simp: handlePunchRequest_def)
  next
    case wl: False
    show thesis
      using False wl by (cases ok; intro that(2) that(3) [of s1]) (auto simp: handlePunchRequest_def g)
  qed
qed

text \<open>The accepted requests of a sequence of sources that are not on the whitelist, by the clock.\<close>

fun gate_run :: "server \<Rightarrow> (env \<times> string) list \<Rightarrow> int list" where
  "gate_run s [] = []"
| "gate_run s ((e, key) # reqs) =
     (case punchGate e s key of
        (True, s1) \<Rightarrow> sint (UnixNano (clk e 0)) # gate_run s1 reqs
      | (False, s1) \<Rightarrow> gate_run s1 reqs)"

lemma punchGate_cases:
  assumes "punchGate e s key = (ok, s1)" "0 \<le> sint (lastPunchTime s)" "0 \<le> sint (UnixNano (clk e 0))"
  shows "ok \<Longrightarrow> lastPunchTime s1 = UnixNano (clk e 0)
      \<and> sint (lastPunchTime s) + second div maxPunchPerSecond \<le> sint (UnixNano (clk e 0))"
    "\<not> ok \<Longrightarrow> lastPunchTime s1 = lastPunchTime s"
proof -
  have gap: "sint punchGlobalGap = second div maxPunchPerSecond"
    by (simp add: punchGlobalGap_def second_def maxPunchPerSecond_def)
  have "sint (UnixNano (clk e 0) - lastPunchTime s) = sint (UnixNano (clk e 0)) - sint (lastPunchTime s)"
    using assms(2,3) by (rule sint_diff_nonneg [rotated])
  then show "ok \<Longrightarrow> lastPunchTime s1 = UnixNano (clk e 0)
      \<and> sint (lastPunchTime s) + second div maxPunchPerSecond \<le> sint (UnixNano (clk e 0))"
    using assms(1) gap by (auto simp: punchGate_def Let_def word_sless_alt split: if_splits prod.splits)
  show "\<not> ok \<Longrightarrow> lastPunchTime s1 = lastPunchTime s"
    using assms(1) by (auto simp: punchGate_def Let_def split: if_splits prod.splits)
qed

lemma gate_run_spaced:
  assumes "0 \<le> sint (lastPunchTime s)" "\<forall>(e, key) \<in> set reqs. 0 \<le> sint (UnixNano (clk e 0))"
  shows "sorted_wrt (\<lambda>a b. a + second div maxPunchPerSecond \<le> b) (gate_run s reqs)
    \<and> (\<forall>t \<in> set (gate_run s reqs). sint (lastPunchTime s) + second div maxPunchPerSecond \<le> t)"
  using assms
proof (induction s reqs rule: gate_run.induct)
  case (2 s e key reqs)
  obtain ok s1 where g: "punchGate e s key = (ok, s1)" by force
  have nn: "0 \<le> sint (UnixNano (clk e 0))" using 2(4) by simp
  note c = punchGate_cases [OF g 2(3) nn]
  have pos: "0 \<le> second div maxPunchPerSecond" by (simp add: second_def maxPunchPerSecond_def)
  show ?case
  proof (cases ok)
    case True
    then have l: "lastPunchTime s1 = UnixNano (clk e 0)"
        "sint (lastPunchTime s) + second div maxPunchPerSecond \<le> sint (UnixNano (clk e 0))"
      using c(1) by auto
    have "sorted_wrt (\<lambda>a b. a + second div maxPunchPerSecond \<le> b) (gate_run s1 reqs)
        \<and> (\<forall>t \<in> set (gate_run s1 reqs). sint (lastPunchTime s1) + second div maxPunchPerSecond \<le> t)"
      using "2.IH"(1) [OF g [symmetric]] 2(4) l(1) nn True by simp
    then show ?thesis using True l pos g by (auto simp: l(1))
  next
    case False
    then have "lastPunchTime s1 = lastPunchTime s" using c(2) by simp
    then show ?thesis using "2.IH"(2) [OF g [symmetric]] 2(3,4) False g by simp
  qed
qed simp

text \<open>
  With punch tokens required, a request has no effect on the node table and sends nothing unless
  it carries a grant: an expiry that has not passed and a signature, by the key of the target, on
  exactly this requester, this target and this expiry.
\<close>

lemma punch_grant_needed:
  assumes "requirePunchToken s" "handlePunchRequest x e s data remote = Done s'"
    "nodes s' \<noteq> nodes s \<or> outbox s' \<noteq> outbox s"
  shows "\<exists>r t expiry pub. uint32_at data 0 = Some r \<and> uint32_at data 4 = Some t
    \<and> be_Uint64 (take 8 (drop 8 data)) = Some expiry \<and> Unix (clk e 3) \<le>s expiry
    \<and> targetPubKey s t = (pub, True) \<and> length pub = PublicKeySize
    \<and> edVerify x pub (punchPreimage r t expiry) (take SignatureSize (drop 16 data))"
proof (rule handlePunchRequest_cases [of x e s data remote])
  fix s1
  assume len: "8 \<le> length data" and s1: "s1 = s \<or> s1 = snd (punchGate e s (IPString (IP remote)))"
    and h: "handlePunchRequest x e s data remote = servePunch x e s1 data remote"
  have same: "nodes s1 = nodes s" "outbox s1 = outbox s" "requirePunchToken s1"
      "targetPubKey s1 k = targetPubKey s k" for k
    using s1 assms(1) by auto
  obtain r t where rt: "uint32_at data 0 = Some r" "uint32_at data 4 = Some t"
    using uint32_at_defined [of 0 data] uint32_at_defined [of 4 data] len by auto
  have "verifyPunchGrant x (clk e 3) s1 (drop 8 data) r t = Some True"
    using assms(2,3) h rt same by (auto simp: servePunch_def split: option.splits bool.splits)
  then show ?thesis
    by (rule verifyPunchGrant_True) (use rt same in \<open>auto simp: add.commute\<close>)
qed (use assms(2,3) in auto)

section \<open>Properties\<close>

definition exGrant :: bytes where
  "exGrant = [0, 0, 0, 1, 0, 0, 0, 2] @ [0, 0, 0, 0, 0, 0, 0, 100] @ replicate 64 0"

definition exAll :: externs where
  "exAll = exExterns\<lparr>edVerify := (\<lambda>key msg sig. True)\<rparr>"

definition exPunchServer :: server where
  "exPunchServer = exServer\<lparr>requirePunchToken := True, nodePubKeys := fmupd 2 (replicate 32 1) fmempty, punchWhitelistAll := True\<rparr>"

lemma exPunch_eval:
  "handlePunchRequest exAll (exEnv 50) exPunchServer exGrant exAddr
     = Done (coordinatePunch exAll (exEnv 50) exPunchServer 1 2 exAddr)"
  by (simp add: handlePunchRequest_def breakerOpen_def exPunchServer_def whitelisted_def servePunch_def exGrant_def
      uint32_at_def slice_def verifyPunchGrant_def punchGrantTrailerSize_def punchGrantExpirySize_def SignatureSize_def
      targetPubKey_def PublicKeySize_def ed25519_Verify_def exAll_def Unix_def at_s_def unixToInternal_def second_def
      word_sless_alt)

lemma punch_grant_needed_example:
  "\<exists>s'. requirePunchToken exPunchServer \<and> handlePunchRequest exAll (exEnv 50) exPunchServer exGrant exAddr = Done s'
     \<and> nodes s' \<noteq> nodes exPunchServer
     \<and> (\<exists>pub. targetPubKey exPunchServer 2 = (pub, True) \<and> length pub = PublicKeySize)"
proof -
  let ?s' = "coordinatePunch exAll (exEnv 50) exPunchServer 1 2 exAddr"
  have "\<not> snd (snd (Upsert newNodeMap 1 exAddr (at_s 50) maxBeaconNodes))"
    by (simp add: Upsert_def newNodeMap_def shardFor_def nodeShardCount_def maxBeaconNodes_def Let_def)
  then have "nodes_abs (nodes ?s') 1 \<noteq> nodes_abs (nodes exPunchServer) 1"
    by (simp add: exPunchServer_def Upsert_nodes_abs [OF node_wf_new])
  then have n: "nodes ?s' \<noteq> nodes exPunchServer" by auto
  have r: "requirePunchToken exPunchServer" by (simp add: exPunchServer_def)
  obtain r' t where rt: "uint32_at exGrant 4 = Some t"
      "\<exists>pub. targetPubKey exPunchServer t = (pub, True) \<and> length pub = PublicKeySize"
    using punch_grant_needed [OF r exPunch_eval] n by blast
  then have "t = 2" by (simp add: uint32_at_def slice_def exGrant_def)
  then show ?thesis using r exPunch_eval n rt(2) by blast
qed


text \<open>A verifier that knows one signature, on one message.\<close>

definition exOneVerify :: verifier where
  "exOneVerify key msg sig \<longleftrightarrow> msg = punchPreimage 1 2 100 \<and> sig = replicate 64 0"


text \<open>
  C25: what a served request does.  The requester is entered under the address the datagram came from.
  If the target is registered (and the requester's shard had room), exactly two commands are sent:
  the requester is told the target's endpoint, then the target is told the requester's; otherwise
  nothing is sent.  The receivers decode the very addresses the table holds.
\<close>

theorem punch_exact:
  assumes "server_inv s" "conn s = Some c" "\<forall>k dst msg. sendOk e k dst msg"
    "nodes_abs (nodes s) t = Some nt" "t \<noteq> r" "ipBytes (IP (addr nt)) = Some pt" "ipBytes (IP remote) = Some pr"
    "\<not> snd (snd (Upsert (nodes s) r remote (clk e 4) maxBeaconNodes))"
  shows "\<exists>m1 m2. outbox (coordinatePunch x e s r t remote) = outbox s @ [(remote, m1), (addr nt, m2)]
    \<and> parseEndpoint m1 = Some (BeaconMsgPunchCommand x, pt, word_of_int (Port (addr nt))) \<and> IPEqual pt (IP (addr nt))
    \<and> parseEndpoint m2 = Some (BeaconMsgPunchCommand x, pr, word_of_int (Port remote)) \<and> IPEqual pr (IP remote)
    \<and> nodes_abs (nodes (coordinatePunch x e s r t remote))
        = (nodes_abs (nodes s))(r \<mapsto> touch (nodes_abs (nodes s) r) remote (clk e 4))"
proof -
  note m = Upsert_nodes_abs [OF server_inv_wf(1) [OF assms(1)] assms(8)]
  have "outbox (coordinatePunch x e s r t remote) = outbox s @
      [(remote, endpointMsg (BeaconMsgPunchCommand x) pt (word_of_int (Port (addr nt)))),
       (addr nt, endpointMsg (BeaconMsgPunchCommand x) pr (word_of_int (Port remote)))]"
    using coordinatePunch_outbox [OF assms(2) _ m, of x t] assms(3-7) by simp
  then show ?thesis
    using parseEndpoint_msg [OF assms(6)] parseEndpoint_msg [OF assms(7)] ipBytes_IPEqual [OF assms(6)]
      ipBytes_IPEqual [OF assms(7)] m by (metis coordinatePunch_nodes)
qed

definition exTarget :: udpaddr where
  "exTarget = \<lparr>IP = [10, 0, 0, 2], Port = 5000, Zone = []\<rparr>"

definition exPair :: server where
  "exPair = exServer\<lparr>nodes := fst (Upsert newNodeMap 2 exTarget (at_s 1) maxBeaconNodes)\<rparr>"

lemma exPair_facts:
  "server_inv exPair" "conn exPair = Some exAddr" "outbox exPair = []"
  "nodes_abs (nodes exPair) = [2 \<mapsto> touch None exTarget (at_s 1)]"
  "\<not> snd (snd (Upsert (nodes exPair) 1 exAddr (at_s 50) maxBeaconNodes))"
proof -
  have room: "\<not> snd (snd (Upsert newNodeMap 2 exTarget (at_s 1) maxBeaconNodes))"
      "\<not> snd (snd (Upsert (fst (Upsert newNodeMap 2 exTarget (at_s 1) maxBeaconNodes)) 1 exAddr (at_s 50) maxBeaconNodes))"
    by (simp_all add: Upsert_def newNodeMap_def shardFor_def nodeShardCount_def maxBeaconNodes_def Let_def)
  then show "nodes_abs (nodes exPair) = [2 \<mapsto> touch None exTarget (at_s 1)]"
      "\<not> snd (snd (Upsert (nodes exPair) 1 exAddr (at_s 50) maxBeaconNodes))"
    by (simp_all add: exPair_def Upsert_nodes_abs [OF node_wf_new])
  show "server_inv exPair"
    using server_inv_Upsert [OF exServer_inv, of 2 exTarget "at_s 1"] by (simp add: exPair_def)
qed (simp_all add: exPair_def)

theorem punch_exact_witness:
  "\<exists>m1 m2. outbox (coordinatePunch exExterns (exEnv 50) exPair 1 2 exAddr) = [(exAddr, m1), (exTarget, m2)]
     \<and> parseEndpoint m1 = Some (4, [10, 0, 0, 2], 5000) \<and> parseEndpoint m2 = Some (4, [10, 0, 0, 1], 4000)"
proof -
  have h: "\<forall>k dst msg. sendOk (exEnv 50) k dst msg" "nodes_abs (nodes exPair) 2 = Some (touch None exTarget (at_s 1))"
      "(2 :: nodeid) \<noteq> 1" "ipBytes (IP (addr (touch None exTarget (at_s 1)))) = Some [10, 0, 0, 2]"
      "ipBytes (IP exAddr) = Some [10, 0, 0, 1]"
      "\<not> snd (snd (Upsert (nodes exPair) 1 exAddr (clk (exEnv 50) 4) maxBeaconNodes))"
    using exPair_facts by (simp_all add: exTarget_def exAddr_def ipBytes_def To4_def)
  show ?thesis
    using punch_exact [OF exPair_facts(1,2) h, of exExterns] exPair_facts(3)
    by (simp add: exExterns_def exTarget_def exAddr_def) blast
qed

text \<open>
  The global cap spaces requests out.  Among the requests from sources that are not whitelisted,
  whatever their sources and however the per-source limiter answers, those that pass the guard are at
  least a tenth of a second apart on the wall clock.
\<close>

theorem punch_global_spacing:
  assumes "0 \<le> sint (lastPunchTime s)" "\<forall>(e, key) \<in> set reqs. 0 \<le> sint (UnixNano (clk e 0))"
  shows "sorted_wrt (\<lambda>a b. a + 100000000 \<le> b) (gate_run s reqs)"
  using gate_run_spaced [OF assms] by (simp add: second_def maxPunchPerSecond_def)

theorem punch_global_spacing_witness:
  "gate_run exServer [(exEnv 1, ''10.0.0.1''), (exEnv 1, ''10.0.0.2''), (exEnv 3, ''10.0.0.1'')] = [1000000000, 3000000000]
   \<and> sorted_wrt (\<lambda>a b. a + 100000000 \<le> b)
       (gate_run exServer [(exEnv 1, ''10.0.0.1''), (exEnv 1, ''10.0.0.2''), (exEnv 3, ''10.0.0.1'')])"
proof -
  have nano: "UnixNano (at_s 1) = 1000000000" "UnixNano (at_s 3) = 3000000000"
    by (simp_all add: UnixNano_def at_s_def unixToInternal_def second_def)
  have h: "0 \<le> sint (lastPunchTime exServer)"
      "\<forall>(e, key) \<in> set [(exEnv 1, ''10.0.0.1''), (exEnv 1, ''10.0.0.2''), (exEnv 3, ''10.0.0.1'')]. 0 \<le> sint (UnixNano (clk e 0))"
    by (simp_all add: nano)
  have put: "punch_last (newPunchRateLimiter\<lparr>punchShards := sh_put punchIdx k t (punchShards newPunchRateLimiter)\<rparr>) k = Some t"
    for k t
    using punch_wf_new by (simp add: punch_last_def punch_wf_def ps.get_put)
  have "\<not> Sub (at_s 3) (at_s 1) < punchPerSourceInterval"
    by (simp add: Sub_def at_s_def duration_defs punchPerSourceInterval_def)
  then have "gate_run exServer [(exEnv 1, ''10.0.0.1''), (exEnv 1, ''10.0.0.2''), (exEnv 3, ''10.0.0.1'')]
      = [1000000000, 3000000000]"
    by (simp add: punchGate_def nano punchGlobalGap_def second_def maxPunchPerSecond_def word_sless_alt punch_allow_eq
        put Let_def)
  then show ?thesis using punch_global_spacing [OF h] by simp
qed

text \<open>
  \<^verbatim>\<open>SendPunchCommand\<close> and \<^verbatim>\<open>NotifyNode\<close> fail exactly when they say so.  Each error has its own
  cause, an error sends nothing, success of a punch command sends one datagram to the node's
  registered address, and a notify within the minimum interval is skipped without an error.
\<close>

theorem send_errors_exact:
  assumes "SendPunchCommand x e k s nodeID ip port = (r, s1)" "NotifyNode e s nodeID = (r', s2)"
  shows "r = (if conn s = None then Some NotListening
              else if nodes_abs (nodes s) nodeID = None then Some (ErrNodeNotFound nodeID)
              else if ipBytes ip = None then Some CannotEncodeIP
              else if sendOk e k (addr (the (nodes_abs (nodes s) nodeID)))
                        (endpointMsg (BeaconMsgPunchCommand x) (the (ipBytes ip)) port) then None
              else Some WriteError)
    \<and> (outbox s1 = (if r = None then outbox s @ [(addr (the (nodes_abs (nodes s) nodeID)),
                        endpointMsg (BeaconMsgPunchCommand x) (the (ipBytes ip)) port)] else outbox s))
    \<and> (r' = Some NotListening \<longleftrightarrow> conn s = None)
    \<and> (r' = Some (ErrNodeNotFound nodeID) \<longleftrightarrow> conn s \<noteq> None \<and> nodes_abs (nodes s) nodeID = None)
    \<and> (outbox s2 \<noteq> outbox s \<longrightarrow> r' = None \<and> (\<exists>n. nodes_abs (nodes s) nodeID = Some n
          \<and> outbox s2 = outbox s @ [(addr n, [0x0A, 0x01])]
          \<and> (IsZero (lastNotify n) \<or> second \<le> Sub (clk e 0) (lastNotify n))))"
proof -
  have p: "r = (if conn s = None then Some NotListening
              else if nodes_abs (nodes s) nodeID = None then Some (ErrNodeNotFound nodeID)
              else if ipBytes ip = None then Some CannotEncodeIP
              else if sendOk e k (addr (the (nodes_abs (nodes s) nodeID)))
                        (endpointMsg (BeaconMsgPunchCommand x) (the (ipBytes ip)) port) then None
              else Some WriteError)
    \<and> (outbox s1 = (if r = None then outbox s @ [(addr (the (nodes_abs (nodes s) nodeID)),
                        endpointMsg (BeaconMsgPunchCommand x) (the (ipBytes ip)) port)] else outbox s))"
    using assms(1)
    by (auto simp: SendPunchCommand_def Snapshot_abs WriteToUDP_def split: option.splits if_splits)
  have n: "(r' = Some NotListening \<longleftrightarrow> conn s = None)
    \<and> (r' = Some (ErrNodeNotFound nodeID) \<longleftrightarrow> conn s \<noteq> None \<and> nodes_abs (nodes s) nodeID = None)
    \<and> (outbox s2 \<noteq> outbox s \<longrightarrow> r' = None \<and> (\<exists>n. nodes_abs (nodes s) nodeID = Some n
          \<and> outbox s2 = outbox s @ [(addr n, [0x0A, 0x01])]
          \<and> (IsZero (lastNotify n) \<or> second \<le> Sub (clk e 0) (lastNotify n))))"
    using assms(2)
    by (auto simp: NotifyNode_def claimNotify_put WriteToUDP_def MsgNotify_def NotifyKindHandshake_def notifyMinInterval_def
        split: option.splits if_splits)
  show ?thesis using p n by blast
qed

theorem send_errors_exact_witness:
  "fst (SendPunchCommand exExterns (exEnv 50) 0 exPair 3 [10, 0, 0, 1] 80) = Some (ErrNodeNotFound 3)
   \<and> fst (SendPunchCommand exExterns (exEnv 50) 0 exPair 2 [10, 0, 0] 80) = Some CannotEncodeIP
   \<and> fst (SendPunchCommand exExterns (exEnv 50) 0 exPair 2 [10, 0, 0, 1] 80) = None
   \<and> fst (NotifyNode (exEnv 50) exPair 3) = Some (ErrNodeNotFound 3)"
proof -
  have t: "fst (SendPunchCommand exExterns (exEnv 50) 0 exPair n ip 80) = (if conn exPair = None then Some NotListening
              else if nodes_abs (nodes exPair) n = None then Some (ErrNodeNotFound n)
              else if ipBytes ip = None then Some CannotEncodeIP
              else if sendOk (exEnv 50) 0 (addr (the (nodes_abs (nodes exPair) n)))
                        (endpointMsg (BeaconMsgPunchCommand exExterns) (the (ipBytes ip)) 80) then None
              else Some WriteError)"
      "fst (NotifyNode (exEnv 50) exPair n) = Some (ErrNodeNotFound n)
         \<longleftrightarrow> conn exPair \<noteq> None \<and> nodes_abs (nodes exPair) n = None" for n ip
    using send_errors_exact [of exExterns "exEnv 50" 0 exPair n ip 80] by (metis prod.collapse)+
  show ?thesis using exPair_facts(2,4) by (simp add: t ipBytes_def To4_def To16_def)
qed

end
