(* ===== verification/Relay.thy ===== *)
theory Relay
  imports BeaconState "HOL-Library.Sublist"
begin

text \<open>
  The relay path of \<^verbatim>\<open>server.go\<close>: \<^verbatim>\<open>dispatchRelay\<close>, which checks a packet and queues it for the
  worker of its destination, and \<^verbatim>\<open>relayWorkerLoop\<close>, which turns queued jobs into frames and sends
  them in batches.  Of the clock readings of a dispatch, 0 is the rate limiter's and 1 the drop
  log's.
\<close>

section \<open>Dispatch\<close>

definition wssConnected :: "server \<Rightarrow> nodeid \<Rightarrow> bool" where
  "wssConnected s d = (case wssServer s of None \<Rightarrow> False | Some w \<Rightarrow> IsConnected w d)"

definition relayKnown :: "server \<Rightarrow> nodeid \<Rightarrow> bool" where
  "relayKnown s d \<longleftrightarrow> Get (nodes s) d \<noteq> None \<or> fmlookup (peerNodes s) d \<noteq> None \<or> wssConnected s d"

definition enqueueRelay :: "env \<Rightarrow> server \<Rightarrow> relayJob \<Rightarrow> server outcome" where
  "enqueueRelay e s job =
     (case relayQueueFor s (destID job) of
        None \<Rightarrow> Panicked s
      | Some i \<Rightarrow>
          if length (relayChs s ! i) < relayChCap s
          then Done (s\<lparr>relayChs := (relayChs s)[i := relayChs s ! i @ [job]]\<rparr>)
          else
            let s1 = s\<lparr>relayDropped := relayDropped s + 1\<rparr>; now = UnixNano (clk e 1) in
            Done (if word_of_int second <s now - lastDropLog s1 then s1\<lparr>lastDropLog := now\<rparr> else s1))"

definition dispatchRelay :: "env \<Rightarrow> server \<Rightarrow> bytes \<Rightarrow> relaySourceKey \<Rightarrow> server outcome" where
  "dispatchRelay e s data src =
     (if length data < 8 then Done s
      else if fst (breakerOpen s ''beacon.relay'') then Done (s\<lparr>relayDropped := relayDropped s + 1\<rparr>)
      else case (uint32_at data 0, uint32_at data 4) of
        (Some sender, Some dest) \<Rightarrow>
          if \<not> relayKnown s dest then Done (s\<lparr>relayNotFound := relayNotFound s + 1\<rparr>)
          else (case relay_allow (relayRL s) src (UnixNano (clk e 0)) maxRelaysPerSourcePerSecond of
            (allowed, rl) \<Rightarrow>
              let s1 = s\<lparr>relayRL := rl\<rparr>; body = drop 8 data in
              if \<not> allowed then Done s1
              else if maxRelayPayload < length body then Done s1
              else enqueueRelay e s1 \<lparr>senderID = sender, destID = dest, payload = body\<rparr>)
      | _ \<Rightarrow> Panicked s)"

section \<open>Frames\<close>

definition frameDeliver :: "externs \<Rightarrow> relayJob \<Rightarrow> bytes" where
  "frameDeliver x job = [BeaconMsgRelayDeliver x] @ be_PutUint32 (senderID job) @ payload job"

definition frameDeliverDest :: "externs \<Rightarrow> relayJob \<Rightarrow> bytes" where
  "frameDeliverDest x job =
     [BeaconMsgRelayDeliverDest x] @ be_PutUint32 (senderID job) @ be_PutUint32 (destID job) @ payload job"

definition frameForward :: "externs \<Rightarrow> relayJob \<Rightarrow> bytes" where
  "frameForward x job =
     [BeaconMsgRelay x] @ be_PutUint32 (senderID job) @ be_PutUint32 (destID job) @ payload job"

text \<open>An output buffer has room for \<open>outBufCap\<close> bytes; slicing beyond its capacity panics.\<close>

definition outBufCap :: nat where
  "outBufCap = maxRelayPayload + 9"

text \<open>Tiers 1 to 3: the datagram a job becomes, \<open>None\<close> for an unknown destination.\<close>

definition relayRoute :: "externs \<Rightarrow> server \<Rightarrow> relayJob \<Rightarrow> (udpaddr \<times> bytes) option" where
  "relayRoute x s job =
     (case Snapshot (nodes s) (destID job) of
        Some localAddr \<Rightarrow>
          Some (localAddr, if destID job |\<in>| dstNodes s then frameDeliverDest x job else frameDeliver x job)
      | None \<Rightarrow>
          (case fmlookup (peerNodes s) (destID job) of
             None \<Rightarrow> None
           | Some peerAddr \<Rightarrow> Some (peerAddr, frameForward x job)))"

section \<open>The worker\<close>

text \<open>
  \<open>dualStack\<close> is \<^verbatim>\<open>isWildcardIPv6\<close> of the worker's socket.  What the sockets answer is an input:
  \<open>wssOk\<close> for the WebSocket write, \<open>batchN\<close> for the count \<^verbatim>\<open>WriteBatch\<close> returns on a batch and \<open>rawOk i\<close> for
  the \<^verbatim>\<open>WriteToUDP\<close> of the \<open>i\<close>-th message of the batch.
\<close>

definition isWildcardIPv6 :: "udpaddr \<Rightarrow> bool" where
  "isWildcardIPv6 a \<longleftrightarrow> To4 (IP a) = None"

record wenv =
  dualStack :: bool
  wssOk :: bool
  batchN :: "(udpaddr \<times> bytes) list \<Rightarrow> int"
  rawOk :: "nat \<Rightarrow> bool"

record worker =
  msgs :: "(udpaddr \<times> bytes) list"
  timerActive :: bool

definition freshWorker :: worker where
  "freshWorker = \<lparr>msgs = [], timerActive = False\<rparr>"

fun sendEach :: "(nat \<Rightarrow> bool) \<Rightarrow> nat \<Rightarrow> 'a list \<Rightarrow> 'a list" where
  "sendEach ok i [] = []"
| "sendEach ok i (m # ms) = (if ok i then m # sendEach ok (i + 1) ms else sendEach ok (i + 1) ms)"

definition countForwarded :: "server \<Rightarrow> int \<Rightarrow> server" where
  "countForwarded s n = (if 0 < n then s\<lparr>relayForwarded := relayForwarded s + of_int n\<rparr> else s)"

definition flush :: "wenv \<Rightarrow> server \<Rightarrow> worker \<Rightarrow> (server \<times> worker) outcome" where
  "flush e s w =
     (let ms = msgs w in
      if ms = [] then Done (s, w)
      else if dualStack e then
        (let sent = sendEach (rawOk e) 0 ms in
         Done (countForwarded (s\<lparr>outbox := outbox s @ sent\<rparr>) (int (length sent)), w\<lparr>msgs := []\<rparr>))
      else
        (let n = batchN e ms; s1 = s\<lparr>outbox := outbox s @ take (nat n) ms\<rparr> in
         if n < int (length ms) then
           (if n < 0 then Panicked (s1, w)
            else let sent = sendEach (rawOk e) (nat n) (drop (nat n) ms) in
              Done (countForwarded (s1\<lparr>outbox := outbox s1 @ sent\<rparr>) (n + int (length sent)), w\<lparr>msgs := []\<rparr>))
         else Done (countForwarded s1 n, w\<lparr>msgs := []\<rparr>)))"

text \<open>Tiers 1 to 3: shape the job, add it to the batch, and flush a full batch or arm the timer.\<close>

definition batchJob :: "externs \<Rightarrow> wenv \<Rightarrow> server \<Rightarrow> worker \<Rightarrow> relayJob \<Rightarrow> (server \<times> worker) outcome" where
  "batchJob x e s w job =
     (case relayRoute x s job of
        None \<Rightarrow> Done (s\<lparr>relayNotFound := relayNotFound s + 1\<rparr>, w)
      | Some (dst, frame) \<Rightarrow>
          if outBufCap < length frame then Panicked (s, w)
          else
            let w1 = w\<lparr>msgs := msgs w @ [(dst, frame)]\<rparr> in
            if relayBatchCap \<le> length (msgs w1) then flush e s (w1\<lparr>timerActive := False\<rparr>)
            else Done (s, w1\<lparr>timerActive := True\<rparr>))"

text \<open>One job: tier 0 writes to the bridge at once, the other tiers add to the batch.\<close>

definition workerJob :: "externs \<Rightarrow> wenv \<Rightarrow> server \<Rightarrow> worker \<Rightarrow> relayJob \<Rightarrow> (server \<times> worker) outcome" where
  "workerJob x e s w job =
     (case wssServer s of
        Some b \<Rightarrow>
          if IsConnected b (destID job) then
            (if outBufCap < length (frameDeliver x job) then Panicked (s, w)
             else case WriteFrame b (destID job) (frameDeliver x job) (wssOk e) of
               (ok, b1) \<Rightarrow>
                 let s1 = s\<lparr>wssServer := Some b1\<rparr> in
                 Done (if ok then s1\<lparr>relayForwarded := relayForwarded s1 + 1\<rparr>
                       else s1\<lparr>relayNotFound := relayNotFound s1 + 1\<rparr>, w))
          else batchJob x e s w job
      | None \<Rightarrow> batchJob x e s w job)"

text \<open>
  One turn of the loop of worker \<open>i\<close>: it takes a job from its queue, its timer fires, or the server
  is shut down.  \<open>None\<close> means that the \<^verbatim>\<open>select\<close> has nothing to do for that event.
\<close>

datatype worker_ev = TakeJob | TimerFired | Shutdown

definition workerTurn :: "externs \<Rightarrow> nat \<Rightarrow> wenv \<Rightarrow> server \<Rightarrow> worker \<Rightarrow> worker_ev \<Rightarrow> (server \<times> worker) outcome option" where
  "workerTurn x i e s w ev =
     (case ev of
        TakeJob \<Rightarrow>
          (case relayChs s ! i of
             [] \<Rightarrow> None
           | job # rest \<Rightarrow> Some (workerJob x e (s\<lparr>relayChs := (relayChs s)[i := rest]\<rparr>) w job))
      | TimerFired \<Rightarrow> if timerActive w then Some (flush e s (w\<lparr>timerActive := False\<rparr>)) else None
      | Shutdown \<Rightarrow> if serverDone s then Some (flush e s w) else None)"

text \<open>\<^verbatim>\<open>relayWorker\<close>: a panic is counted and the loop resumes with an empty batch.\<close>

definition workerResume :: "(server \<times> worker) outcome \<Rightarrow> server \<times> worker" where
  "workerResume r =
     (case r of
        Done c \<Rightarrow> c
      | Panicked (s, w) \<Rightarrow> (s\<lparr>recoveredPanics := recoveredPanics s + 1\<rparr>, freshWorker))"

section \<open>Invariant\<close>

lemma queues_ok_enqueue:
  assumes "queues_ok qs cap" "i < length qs" "length (qs ! i) < cap" "job_ok (length qs) i job"
  shows "queues_ok (qs[i := qs ! i @ [job]]) cap"
  using assms by (auto simp: queues_ok_def nth_list_update)

lemma queues_ok_dequeue:
  assumes "queues_ok qs cap" "i < length qs" "qs ! i = job # rest"
  shows "queues_ok (qs[i := rest]) cap" "job_ok (length qs) i job"
  using assms by (force simp: queues_ok_def nth_list_update)+

lemma server_inv_queues: "server_inv s \<Longrightarrow> queues_ok qs (relayChCap s) \<Longrightarrow> server_inv (s\<lparr>relayChs := qs\<rparr>)"
  by (simp add: server_inv_def)

lemma server_invD: "server_inv s \<Longrightarrow> queues_ok (relayChs s) (relayChCap s)"
    "server_inv s \<Longrightarrow> wssServer s = Some b \<Longrightarrow> table_inv b"
  by (simp_all add: server_inv_def)

lemma enqueueRelay_cases:
  assumes "server_inv s"
  shows "\<exists>i < length (relayChs s). i = unat (destID job) mod length (relayChs s) \<and> enqueueRelay e s job =
    (if length (relayChs s ! i) < relayChCap s
     then Done (s\<lparr>relayChs := (relayChs s)[i := relayChs s ! i @ [job]]\<rparr>)
     else Done (let s1 = s\<lparr>relayDropped := relayDropped s + 1\<rparr>; now = UnixNano (clk e 1) in
            if word_of_int second <s now - lastDropLog s1 then s1\<lparr>lastDropLog := now\<rparr> else s1))"
  using relayQueueFor_less [OF server_invD(1) [OF assms], of "destID job"]
  by (auto simp: enqueueRelay_def Let_def)

lemma enqueueRelay_inv:
  assumes "server_inv s" "length (payload job) \<le> maxRelayPayload"
  shows "\<exists>s'. enqueueRelay e s job = Done s' \<and> server_inv s'"
proof -
  obtain i where i: "i < length (relayChs s)" "i = unat (destID job) mod length (relayChs s)"
    and r: "enqueueRelay e s job =
    (if length (relayChs s ! i) < relayChCap s
     then Done (s\<lparr>relayChs := (relayChs s)[i := relayChs s ! i @ [job]]\<rparr>)
     else Done (let s1 = s\<lparr>relayDropped := relayDropped s + 1\<rparr>; now = UnixNano (clk e 1) in
            if word_of_int second <s now - lastDropLog s1 then s1\<lparr>lastDropLog := now\<rparr> else s1))"
    using enqueueRelay_cases [OF assms(1)] by blast
  have "job_ok (length (relayChs s)) i job" using i(2) assms(2) by (simp add: job_ok_def)
  then have "length (relayChs s ! i) < relayChCap s \<Longrightarrow>
      server_inv (s\<lparr>relayChs := (relayChs s)[i := relayChs s ! i @ [job]]\<rparr>)"
    using i(1) assms(1) by (intro server_inv_queues queues_ok_enqueue server_invD)
  then show ?thesis using assms(1) by (simp add: r Let_def)
qed

lemma dispatchRelay_inv:
  assumes "server_inv s"
  shows "\<exists>s'. dispatchRelay e s data src = Done s' \<and> server_inv s'"
proof (cases "length data < 8")
  case False
  obtain a d where ad: "uint32_at data 0 = Some a" "uint32_at data 4 = Some d"
    using uint32_at_defined [of 0 data] uint32_at_defined [of 4 data] False by auto
  obtain ok rl where rl: "relay_allow (relayRL s) src (UnixNano (clk e 0)) maxRelaysPerSourcePerSecond = (ok, rl)"
    by force
  have "relay_wf rl"
    using relay_wf_allow [OF server_inv_wf(4) [OF assms]] rl by (metis snd_conv)
  then have s1: "server_inv (s\<lparr>relayRL := rl\<rparr>)" by (rule server_inv_relayRL [OF assms])
  have "length (drop 8 data) \<le> maxRelayPayload \<Longrightarrow> \<exists>s'. enqueueRelay e (s\<lparr>relayRL := rl\<rparr>)
      \<lparr>senderID = a, destID = d, payload = drop 8 data\<rparr> = Done s' \<and> server_inv s'"
    by (rule enqueueRelay_inv [OF s1]) simp
  then show ?thesis
    using False assms s1 by (auto simp: dispatchRelay_def ad rl Let_def not_less)
qed (use assms in \<open>simp add: dispatchRelay_def\<close>)

text \<open>Every frame fits its buffer.\<close>

lemma frame_lengths:
  "length (frameDeliver x job) = 5 + length (payload job)"
  "length (frameDeliverDest x job) = 9 + length (payload job)"
  "length (frameForward x job) = 9 + length (payload job)"
  by (simp_all add: frameDeliver_def frameDeliverDest_def frameForward_def)

lemma relayRoute_fits:
  "relayRoute x s job = Some (dst, frame) \<Longrightarrow> length (payload job) \<le> maxRelayPayload \<Longrightarrow> length frame \<le> outBufCap"
  by (auto simp: relayRoute_def outBufCap_def frame_lengths split: option.splits if_splits)

lemma sendEach_subseq: "subseq (sendEach ok i ms) ms"
  by (induction ok i ms rule: sendEach.induct) auto

lemma sendEach_all: "(\<And>j. ok j) \<Longrightarrow> sendEach ok i ms = ms"
  by (induction ok i ms rule: sendEach.induct) auto

lemma countForwarded_frame [simp]:
  "server_inv (countForwarded s n) = server_inv s" "outbox (countForwarded s n) = outbox s"
  "nodes (countForwarded s n) = nodes s" "peerNodes (countForwarded s n) = peerNodes s"
  "dstNodes (countForwarded s n) = dstNodes s" "wssServer (countForwarded s n) = wssServer s"
  "relayNotFound (countForwarded s n) = relayNotFound s" "relayChs (countForwarded s n) = relayChs s"
  by (simp_all add: countForwarded_def)

lemma countForwarded_forwarded: "0 \<le> n \<Longrightarrow> relayForwarded (countForwarded s n) = relayForwarded s + of_int n"
  by (simp add: countForwarded_def)

lemma flush_inv:
  assumes "server_inv s" "\<forall>ms. 0 \<le> batchN e ms"
  shows "\<exists>s' w'. flush e s w = Done (s', w') \<and> server_inv s'"
  using assms(1) assms(2) [rule_format, of "msgs w"] by (simp add: flush_def Let_def)

lemma batchJob_inv:
  assumes "server_inv s" "\<forall>ms. 0 \<le> batchN e ms" "length (payload job) \<le> maxRelayPayload"
  shows "\<exists>s' w'. batchJob x e s w job = Done (s', w') \<and> server_inv s'"
proof (cases "relayRoute x s job")
  case (Some a)
  then show ?thesis
    using assms flush_inv [OF assms(1,2)] relayRoute_fits [of x s job "fst a" "snd a"]
    by (cases a) (auto simp: batchJob_def Let_def)
qed (use assms in \<open>simp add: batchJob_def\<close>)

lemma server_inv_wss: "server_inv s \<Longrightarrow> table_inv b \<Longrightarrow> server_inv (s\<lparr>wssServer := Some b\<rparr>)"
  by (simp add: server_inv_def)

lemma workerJob_inv:
  assumes "server_inv s" "\<forall>ms. 0 \<le> batchN e ms" "length (payload job) \<le> maxRelayPayload"
  shows "\<exists>s' w'. workerJob x e s w job = Done (s', w') \<and> server_inv s'"
proof (cases "wssServer s")
  case None
  then show ?thesis using batchJob_inv [OF assms, of x w] by (simp add: workerJob_def)
next
  case (Some b)
  obtain ok b1 where b1: "WriteFrame b (destID job) (frameDeliver x job) (wssOk e) = (ok, b1)" by force
  have "table_inv b1"
    using table_inv_write [OF server_invD(2) [OF assms(1) Some], of "destID job" "frameDeliver x job" "wssOk e"] b1
    by simp
  then have "server_inv (s\<lparr>wssServer := Some b1\<rparr>)" by (rule server_inv_wss [OF assms(1)])
  then show ?thesis
    using batchJob_inv [OF assms, of x w] assms(3) Some
    by (simp add: workerJob_def b1 Let_def outBufCap_def frame_lengths)
qed

lemma workerTurn_inv:
  assumes "server_inv s" "\<forall>ms. 0 \<le> batchN e ms" "i < length (relayChs s)" "workerTurn x i e s w ev = Some r"
  shows "\<exists>s' w'. r = Done (s', w') \<and> server_inv s'"
proof (cases ev)
  case TakeJob
  then obtain job rest where q: "relayChs s ! i = job # rest"
    and r: "r = workerJob x e (s\<lparr>relayChs := (relayChs s)[i := rest]\<rparr>) w job"
    using assms(4) by (auto simp: workerTurn_def split: list.splits)
  note d = queues_ok_dequeue [OF server_invD(1) [OF assms(1)] assms(3) q]
  have "server_inv (s\<lparr>relayChs := (relayChs s)[i := rest]\<rparr>)"
    by (rule server_inv_queues [OF assms(1) d(1)])
  then show ?thesis using workerJob_inv [OF _ assms(2)] d(2) r by (simp add: job_ok_def)
qed (use assms flush_inv [OF assms(1,2)] in \<open>auto simp: workerTurn_def split: if_splits\<close>)

section \<open>Order and counts\<close>

text \<open>
  The worker on a sequence of jobs, each with the answers of the sockets at that moment, followed by
  the flush of its timer.
\<close>

fun workerJobs :: "externs \<Rightarrow> server \<Rightarrow> worker \<Rightarrow> (wenv \<times> relayJob) list \<Rightarrow> (server \<times> worker) outcome" where
  "workerJobs x s w [] = Done (s, w)"
| "workerJobs x s w ((e, job) # jobs) =
     (case workerJob x e s w job of
        Done (s1, w1) \<Rightarrow> workerJobs x s1 w1 jobs
      | Panicked c \<Rightarrow> Panicked c)"

definition workerDrain :: "externs \<Rightarrow> server \<Rightarrow> worker \<Rightarrow> (wenv \<times> relayJob) list \<Rightarrow> wenv \<Rightarrow> (server \<times> worker) outcome" where
  "workerDrain x s w jobs e =
     (case workerJobs x s w jobs of Done (s1, w1) \<Rightarrow> flush e s1 w1 | Panicked c \<Rightarrow> Panicked c)"

text \<open>
  What \<^verbatim>\<open>WriteBatch\<close> documents: the number of messages it has sent, at most the whole batch.  The
  sockets are healthy when every single write succeeds.
\<close>

definition batch_ok :: "wenv \<Rightarrow> bool" where
  "batch_ok e \<longleftrightarrow> (\<forall>ms. 0 \<le> batchN e ms \<and> batchN e ms \<le> int (length ms))"

definition healthy :: "wenv \<Rightarrow> bool" where
  "healthy e \<longleftrightarrow> batch_ok e \<and> (\<forall>i. rawOk e i)"

definition same_routes :: "server \<Rightarrow> server \<Rightarrow> bool" where
  "same_routes s t \<longleftrightarrow> nodes t = nodes s \<and> peerNodes t = peerNodes s \<and> dstNodes t = dstNodes s \<and> wssServer t = wssServer s"

lemma same_routes_refl [simp]: "same_routes s s"
  by (simp add: same_routes_def)

lemma same_routes_trans: "same_routes s t \<Longrightarrow> same_routes t u \<Longrightarrow> same_routes s u"
  by (simp add: same_routes_def)

lemma same_routes_route: "same_routes s t \<Longrightarrow> relayRoute x t job = relayRoute x s job"
  by (auto simp: same_routes_def relayRoute_def split: option.splits)

lemma same_routes_wss: "same_routes s t \<Longrightarrow> wssConnected t d = wssConnected s d"
  by (simp add: same_routes_def wssConnected_def)

text \<open>
  A flush sends a subsequence of the batch, in order, and counts what it sends; with healthy
  sockets it sends all of it, on the batch path, after a short batch and on the per-packet path alike.
\<close>

lemma flush_sends:
  assumes "batch_ok e"
  shows "\<exists>s' sent. flush e s w = Done (s', w\<lparr>msgs := []\<rparr>) \<and> outbox s' = outbox s @ sent \<and> subseq sent (msgs w)
    \<and> relayForwarded s' = relayForwarded s + of_nat (length sent) \<and> relayNotFound s' = relayNotFound s
    \<and> same_routes s s' \<and> (healthy e \<longrightarrow> sent = msgs w)"
proof (cases "msgs w = []")
  case True
  then show ?thesis by (cases w) (simp add: flush_def)
next
  case False
  note fw = countForwarded_forwarded
  have h: "healthy e \<Longrightarrow> sendEach (rawOk e) i ms = ms" for i and ms :: "(udpaddr \<times> bytes) list"
    by (rule sendEach_all) (simp add: healthy_def)
  show ?thesis
  proof (cases "dualStack e")
    case True
    then show ?thesis
      using False sendEach_subseq [of "rawOk e" 0 "msgs w"] h
      by (auto simp: flush_def Let_def fw same_routes_def)
  next
    case nd: False
    let ?n = "batchN e (msgs w)"
    let ?sent = "sendEach (rawOk e) (nat ?n) (drop (nat ?n) (msgs w))"
    have n: "0 \<le> ?n" "?n \<le> int (length (msgs w))" using assms by (simp_all add: batch_ok_def)
    have sub: "subseq (take (nat ?n) (msgs w) @ ?sent) (msgs w)"
      using list_emb_append_mono [OF subseq_order.order_refl sendEach_subseq, of "take (nat ?n) (msgs w)"] by (metis append_take_drop_id)
    show ?thesis
    proof (cases "?n < int (length (msgs w))")
      case True
      then show ?thesis
        using False nd n sub h
        by (intro exI [of _ "countForwarded (s\<lparr>outbox := outbox s @ take (nat ?n) (msgs w) @ ?sent\<rparr>) (?n + int (length ?sent))"]
            exI [of _ "take (nat ?n) (msgs w) @ ?sent"])
          (auto simp: flush_def Let_def fw same_routes_def)
    next
      case eq: False
      then have "?n = int (length (msgs w))" using n by simp
      then show ?thesis
        using False nd by (simp add: flush_def Let_def fw same_routes_def)
    qed
  qed
qed

text \<open>
  One job whose destination is not on the bridge: with healthy sockets, what has been sent followed by
  what waits in the batch grows by exactly the job's datagram.
\<close>

definition routed :: "externs \<Rightarrow> server \<Rightarrow> relayJob list \<Rightarrow> (udpaddr \<times> bytes) list" where
  "routed x s jobs = List.map_filter (relayRoute x s) jobs"

lemma routed_simps [simp]:
  "routed x s [] = []"
  "routed x s (j # js) = (case relayRoute x s j of None \<Rightarrow> routed x s js | Some m \<Rightarrow> m # routed x s js)"
  by (simp_all add: routed_def List.map_filter_def split: option.split)

lemma routed_append: "routed x s (js @ ks) = routed x s js @ routed x s ks"
  by (induction js) (simp_all split: option.split)

lemma same_routes_routed: "same_routes s t \<Longrightarrow> routed x t jobs = routed x s jobs"
  by (induction jobs) (simp_all add: same_routes_route split: option.split)

definition unrouted :: "externs \<Rightarrow> server \<Rightarrow> relayJob list \<Rightarrow> nat" where
  "unrouted x s jobs = length (filter (\<lambda>j. relayRoute x s j = None) jobs)"

lemma same_routes_unrouted: "same_routes s t \<Longrightarrow> unrouted x t jobs = unrouted x s jobs"
  by (simp add: unrouted_def same_routes_route)

lemma workerJob_batched:
  "\<not> wssConnected s (destID job) \<Longrightarrow> workerJob x e s w job = batchJob x e s w job"
  by (auto simp: workerJob_def wssConnected_def split: option.splits)

lemma batchJob_sends:
  assumes "batch_ok e" "length (payload job) \<le> maxRelayPayload"
  shows "\<exists>s' w' sent. batchJob x e s w job = Done (s', w') \<and> same_routes s s' \<and> outbox s' = outbox s @ sent
    \<and> subseq (sent @ msgs w') (msgs w @ routed x s [job])
    \<and> relayForwarded s' = relayForwarded s + of_nat (length sent)
    \<and> relayNotFound s' = relayNotFound s + of_nat (unrouted x s [job])
    \<and> (healthy e \<longrightarrow> sent @ msgs w' = msgs w @ routed x s [job])"
proof (cases "relayRoute x s job")
  case None
  then show ?thesis
    by (intro exI [of _ "s\<lparr>relayNotFound := relayNotFound s + 1\<rparr>"] exI [of _ w] exI [of _ "[]"])
      (simp add: batchJob_def unrouted_def same_routes_def)
next
  case (Some m)
  obtain dst frame where m: "m = (dst, frame)" by force
  have fit: "\<not> outBufCap < length frame" using relayRoute_fits [of x s job dst frame] Some m assms(2) by simp
  let ?w = "w\<lparr>msgs := msgs w @ [m], timerActive := False\<rparr>"
  show ?thesis
  proof (cases "relayBatchCap \<le> length (msgs w) + 1")
    case True
    obtain s' sent where f: "flush e s ?w = Done (s', ?w\<lparr>msgs := []\<rparr>)" "outbox s' = outbox s @ sent"
        "subseq sent (msgs ?w)" "relayForwarded s' = relayForwarded s + of_nat (length sent)"
        "relayNotFound s' = relayNotFound s" "same_routes s s'" "healthy e \<longrightarrow> sent = msgs ?w"
      using flush_sends [OF assms(1), of s ?w] by blast
    have "batchJob x e s w job = Done (s', ?w\<lparr>msgs := []\<rparr>)"
      using f(1) fit True Some m by (simp add: batchJob_def Let_def)
    then show ?thesis
      using f(2-) Some m by (intro exI [of _ s'] exI [of _ "?w\<lparr>msgs := []\<rparr>"] exI [of _ sent]) (auto simp: unrouted_def)
  next
    case False
    then have "batchJob x e s w job = Done (s, w\<lparr>msgs := msgs w @ [m], timerActive := True\<rparr>)"
      using fit Some m by (simp add: batchJob_def Let_def)
    then show ?thesis using Some m by (auto simp: unrouted_def)
  qed
qed

lemma workerJobs_sends:
  assumes "\<forall>(e, job) \<in> set jobs. batch_ok e \<and> length (payload job) \<le> maxRelayPayload \<and> \<not> wssConnected s (destID job)"
  shows "\<exists>s' w' sent. workerJobs x s w jobs = Done (s', w') \<and> same_routes s s' \<and> outbox s' = outbox s @ sent
    \<and> subseq (sent @ msgs w') (msgs w @ routed x s (map snd jobs))
    \<and> relayForwarded s' = relayForwarded s + of_nat (length sent)
    \<and> relayNotFound s' = relayNotFound s + of_nat (unrouted x s (map snd jobs))
    \<and> ((\<forall>(e, job) \<in> set jobs. healthy e) \<longrightarrow> sent @ msgs w' = msgs w @ routed x s (map snd jobs))"
  using assms
proof (induction x s w jobs rule: workerJobs.induct)
  case (1 x s w)
  then show ?case by (auto simp: unrouted_def)
next
  case (2 x s w e job jobs)
  obtain s1 w1 sent1 where j: "batchJob x e s w job = Done (s1, w1)" "same_routes s s1" "outbox s1 = outbox s @ sent1"
      "subseq (sent1 @ msgs w1) (msgs w @ routed x s [job])"
      "relayForwarded s1 = relayForwarded s + of_nat (length sent1)"
      "relayNotFound s1 = relayNotFound s + of_nat (unrouted x s [job])"
      "healthy e \<longrightarrow> sent1 @ msgs w1 = msgs w @ routed x s [job]"
    using batchJob_sends [of e job x s w] 2(2) by auto
  have wj: "workerJob x e s w job = Done (s1, w1)" using workerJob_batched 2(2) j(1) by simp
  have rest: "\<forall>(e, job) \<in> set jobs. batch_ok e \<and> length (payload job) \<le> maxRelayPayload \<and> \<not> wssConnected s1 (destID job)"
    using 2(2) by (auto simp: same_routes_wss [OF j(2)])
  obtain s2 w2 sent2 where r: "workerJobs x s1 w1 jobs = Done (s2, w2)" "same_routes s1 s2" "outbox s2 = outbox s1 @ sent2"
      "subseq (sent2 @ msgs w2) (msgs w1 @ routed x s1 (map snd jobs))"
      "relayForwarded s2 = relayForwarded s1 + of_nat (length sent2)"
      "relayNotFound s2 = relayNotFound s1 + of_nat (unrouted x s1 (map snd jobs))"
      "(\<forall>(e, job) \<in> set jobs. healthy e) \<longrightarrow> sent2 @ msgs w2 = msgs w1 @ routed x s1 (map snd jobs)"
    using "2.IH" [OF wj refl rest] by blast
  note rr = same_routes_routed [OF j(2), of x] same_routes_unrouted [OF j(2), of x]
  have parts: "routed x s (job # map snd jobs) = routed x s [job] @ routed x s (map snd jobs)"
      "unrouted x s (job # map snd jobs) = unrouted x s [job] + unrouted x s (map snd jobs)"
    by (simp_all add: unrouted_def split: option.split)
  have "subseq (sent1 @ sent2 @ msgs w2) (sent1 @ msgs w1 @ routed x s (map snd jobs))"
    using list_emb_append_mono [OF subseq_order.order_refl r(4), of sent1] by (simp add: rr)
  also have "subseq (sent1 @ msgs w1 @ routed x s (map snd jobs)) (msgs w @ routed x s [job] @ routed x s (map snd jobs))"
    using list_emb_append_mono [OF j(4) subseq_order.order_refl, of "routed x s (map snd jobs)"] by simp
  finally have "subseq (sent1 @ sent2 @ msgs w2) (msgs w @ routed x s (job # map snd jobs))"
    by (simp add: parts del: routed_simps)
  moreover have "sent1 @ sent2 @ msgs w2 = msgs w @ routed x s (job # map snd jobs)"
    if "healthy e" "\<forall>(e, job) \<in> set jobs. healthy e"
    using j(7) r(7) that by (simp add: parts rr del: routed_simps)
  ultimately show ?case
    using same_routes_trans [OF j(2) r(2)] j(3,5,6) r(1,3,5,6) wj
    by (intro exI [of _ s2] exI [of _ w2] exI [of _ "sent1 @ sent2"])
      (simp add: parts rr del: routed_simps)
qed

lemma dispatch_queues:
  assumes "server_inv s" "8 \<le> length data" "\<not> fst (breakerOpen s ''beacon.relay'')"
    "uint32_at data 0 = Some sender" "uint32_at data 4 = Some dest" "relayKnown s dest"
    "relay_allow (relayRL s) src (UnixNano (clk e 0)) maxRelaysPerSourcePerSecond = (True, rl)"
    "length data \<le> maxRelayPayload + 8" "i = unat dest mod length (relayChs s)"
  shows "i < length (relayChs s)" "dispatchRelay e s data src =
    Done (if length (relayChs s ! i) < relayChCap s
     then s\<lparr>relayRL := rl, relayChs := (relayChs s)[i := relayChs s ! i @ [\<lparr>senderID = sender, destID = dest, payload = drop 8 data\<rparr>]]\<rparr>
     else if word_of_int second <s UnixNano (clk e 1) - lastDropLog s
     then s\<lparr>relayRL := rl, relayDropped := relayDropped s + 1, lastDropLog := UnixNano (clk e 1)\<rparr>
     else s\<lparr>relayRL := rl, relayDropped := relayDropped s + 1\<rparr>)"
proof -
  have "relay_wf rl" using relay_wf_allow [OF server_inv_wf(4) [OF assms(1)]] assms(7) by (metis snd_conv)
  then have s1: "server_inv (s\<lparr>relayRL := rl\<rparr>)" by (rule server_inv_relayRL [OF assms(1)])
  let ?job = "\<lparr>senderID = sender, destID = dest, payload = drop 8 data\<rparr>"
  have q: "i < length (relayChs s)" "enqueueRelay e (s\<lparr>relayRL := rl\<rparr>) ?job =
    (if length (relayChs s ! i) < relayChCap s
     then Done (s\<lparr>relayRL := rl, relayChs := (relayChs s)[i := relayChs s ! i @ [?job]]\<rparr>)
     else Done (let s1 = s\<lparr>relayRL := rl, relayDropped := relayDropped s + 1\<rparr>; now = UnixNano (clk e 1) in
            if word_of_int second <s now - lastDropLog s1 then s1\<lparr>lastDropLog := now\<rparr> else s1))"
    using enqueueRelay_cases [OF s1, of ?job e] assms(9) by auto
  show "i < length (relayChs s)" by (rule q(1))
  show "dispatchRelay e s data src =
    Done (if length (relayChs s ! i) < relayChCap s
     then s\<lparr>relayRL := rl, relayChs := (relayChs s)[i := relayChs s ! i @ [?job]]\<rparr>
     else if word_of_int second <s UnixNano (clk e 1) - lastDropLog s
     then s\<lparr>relayRL := rl, relayDropped := relayDropped s + 1, lastDropLog := UnixNano (clk e 1)\<rparr>
     else s\<lparr>relayRL := rl, relayDropped := relayDropped s + 1\<rparr>)"
    using assms(2-8) by (simp add: dispatchRelay_def q(2) Let_def)
qed

text \<open>
  A batch call that reports a negative count loses the batch: the fallback loop starts at a negative
  index and panics, and the worker resumes with an empty batch.
\<close>

lemma flush_negative_count:
  assumes "\<not> dualStack e" "msgs w \<noteq> []" "batchN e (msgs w) < 0"
  shows "workerResume (flush e s w) = (s\<lparr>recoveredPanics := recoveredPanics s + 1\<rparr>, freshWorker)"
  using assms by (simp add: flush_def workerResume_def Let_def)

section \<open>Properties\<close>

text \<open>
  C13: a relayed flow leaves in the order it arrived.  A worker that drains any sequence of jobs for
  destinations not on the bridge does not panic; it sends a subsequence of the datagrams the jobs
  stand for, in the order of the jobs, never twice, leaves nothing in the batch, and counts every
  datagram sent and every unknown destination.  When no write fails, it sends all of them, whether
  it uses the batch call, a batch call that stops short, or single writes.
\<close>

theorem relay_order:
  assumes "\<forall>(e, job) \<in> set jobs. batch_ok e \<and> length (payload job) \<le> maxRelayPayload \<and> \<not> wssConnected s (destID job)"
    "batch_ok last_e" "msgs w = []"
  shows "\<exists>s' w' sent. workerDrain x s w jobs last_e = Done (s', w') \<and> msgs w' = []
    \<and> outbox s' = outbox s @ sent \<and> subseq sent (routed x s (map snd jobs))
    \<and> relayForwarded s' = relayForwarded s + of_nat (length sent)
    \<and> relayNotFound s' = relayNotFound s + of_nat (unrouted x s (map snd jobs))
    \<and> (healthy last_e \<and> (\<forall>(e, job) \<in> set jobs. healthy e) \<longrightarrow> sent = routed x s (map snd jobs))"
proof -
  obtain s1 w1 sent1 where j: "workerJobs x s w jobs = Done (s1, w1)" "outbox s1 = outbox s @ sent1"
      "subseq (sent1 @ msgs w1) (routed x s (map snd jobs))"
      "relayForwarded s1 = relayForwarded s + of_nat (length sent1)"
      "relayNotFound s1 = relayNotFound s + of_nat (unrouted x s (map snd jobs))"
      "(\<forall>(e, job) \<in> set jobs. healthy e) \<longrightarrow> sent1 @ msgs w1 = routed x s (map snd jobs)"
    using workerJobs_sends [OF assms(1), of x w] unfolding assms(3) append_Nil by blast
  obtain s2 sent2 where f: "flush last_e s1 w1 = Done (s2, w1\<lparr>msgs := []\<rparr>)" "outbox s2 = outbox s1 @ sent2"
      "subseq sent2 (msgs w1)" "relayForwarded s2 = relayForwarded s1 + of_nat (length sent2)"
      "relayNotFound s2 = relayNotFound s1" "healthy last_e \<longrightarrow> sent2 = msgs w1"
    using flush_sends [OF assms(2), of s1 w1] by blast
  have "subseq (sent1 @ sent2) (routed x s (map snd jobs))"
    using list_emb_append_mono [OF subseq_order.order_refl f(3), of sent1] j(3) by (rule subseq_order.order_trans)
  then show ?thesis
    using j f by (intro exI [of _ s2] exI [of _ "w1\<lparr>msgs := []\<rparr>"] exI [of _ "sent1 @ sent2"])
      (auto simp: workerDrain_def)
qed

text \<open>Three packets for a known destination and one for an unknown one, over a batch call that stops after one message.\<close>

definition exShort :: wenv where
  "exShort = \<lparr>dualStack = False, wssOk = True, batchN = (\<lambda>ms. if ms = [] then 0 else 1), rawOk = (\<lambda>_. True)\<rparr>"

definition exJobs :: "relayJob list" where
  "exJobs = [\<lparr>senderID = 1, destID = 2, payload = [10]\<rparr>, \<lparr>senderID = 1, destID = 9, payload = [11]\<rparr>,
     \<lparr>senderID = 3, destID = 2, payload = [12]\<rparr>]"

definition exRelay :: server where
  "exRelay = exServer\<lparr>peerNodes := fmupd 2 exAddr fmempty,
     gossipSeen := fmupd (UDPAddrString exAddr) (at_s 1) fmempty\<rparr>"

lemma exRelay_inv: "server_inv exRelay"
  using exServer_inv by (simp add: server_inv_def exRelay_def routes_ok_def)

lemma exShort_healthy: "healthy exShort"
  by (auto simp: healthy_def batch_ok_def exShort_def Suc_le_eq One_nat_def)

theorem relay_order_witness:
  "\<exists>s' w'. workerDrain exExterns exRelay freshWorker (map (Pair exShort) exJobs) exShort = Done (s', w')
     \<and> outbox s' = [(exAddr, [5, 0, 0, 0, 1, 0, 0, 0, 2, 10]), (exAddr, [5, 0, 0, 0, 3, 0, 0, 0, 2, 12])]
     \<and> relayForwarded s' = 2 \<and> relayNotFound s' = 1"
proof -
  have h: "\<forall>(e, job) \<in> set (map (Pair exShort) exJobs). batch_ok e \<and> length (payload job) \<le> maxRelayPayload
        \<and> \<not> wssConnected exRelay (destID job)" "batch_ok exShort" "msgs freshWorker = []"
    using exShort_healthy by (auto simp: healthy_def exJobs_def maxRelayPayload_def wssConnected_def exRelay_def freshWorker_def)
  have all: "\<forall>(e, job) \<in> set (map (Pair exShort) exJobs). healthy e" using exShort_healthy by auto
  have r: "routed exExterns exRelay (map snd (map (Pair exShort) exJobs))
      = [(exAddr, [5, 0, 0, 0, 1, 0, 0, 0, 2, 10]), (exAddr, [5, 0, 0, 0, 3, 0, 0, 0, 2, 12])]"
      "unrouted exExterns exRelay (map snd (map (Pair exShort) exJobs)) = 1"
    by (simp_all add: exJobs_def relayRoute_def exRelay_def Snapshot_abs frameForward_def exExterns_def unrouted_def
        be_PutUint32_def)
  show ?thesis
    using relay_order [OF h, of exExterns] exShort_healthy all r by (auto simp: exRelay_def)
qed

text \<open>
  C19: every relay packet is accounted for on exactly one branch.  A packet that passes the breaker, has
  a known destination and budget left is appended, with the sender, destination and payload it carries,
  to the end of its destination's queue and of no other queue, or counted as dropped when that queue is
  full; one whose destination is unknown is counted as such and costs its source no budget; one over
  budget or over size is dropped without a count.
\<close>

theorem dispatch_accounting:
  assumes "server_inv s" "8 \<le> length data" "uint32_at data 0 = Some sender" "uint32_at data 4 = Some dest"
    "i = unat dest mod length (relayChs s)"
  shows "\<exists>s' queued dropped unknown. dispatchRelay e s data src = Done s' \<and> server_inv s'
    \<and> relayChs s' = (if queued then (relayChs s)[i := relayChs s ! i @
          [\<lparr>senderID = sender, destID = dest, payload = drop 8 data\<rparr>]] else relayChs s)
    \<and> relayDropped s' = relayDropped s + (if dropped then 1 else 0)
    \<and> relayNotFound s' = relayNotFound s + (if unknown then 1 else 0)
    \<and> relayForwarded s' = relayForwarded s \<and> outbox s' = outbox s
    \<and> (unknown \<longleftrightarrow> \<not> fst (breakerOpen s ''beacon.relay'') \<and> \<not> relayKnown s dest)
    \<and> (unknown \<longrightarrow> relayRL s' = relayRL s)
    \<and> (let passed = \<not> fst (breakerOpen s ''beacon.relay'') \<and> relayKnown s dest \<and> length data \<le> maxRelayPayload + 8
             \<and> fst (relay_allow (relayRL s) src (UnixNano (clk e 0)) maxRelaysPerSourcePerSecond)
       in (queued \<longleftrightarrow> passed \<and> length (relayChs s ! i) < relayChCap s)
        \<and> (dropped \<longleftrightarrow> fst (breakerOpen s ''beacon.relay'') \<or> passed \<and> relayChCap s \<le> length (relayChs s ! i)))"
proof -
  obtain s' where d: "dispatchRelay e s data src = Done s'" "server_inv s'"
    using dispatchRelay_inv [OF assms(1)] by blast
  obtain ok rl where rl: "relay_allow (relayRL s) src (UnixNano (clk e 0)) maxRelaysPerSourcePerSecond = (ok, rl)" by force
  let ?passed = "\<not> fst (breakerOpen s ''beacon.relay'') \<and> relayKnown s dest \<and> length data \<le> maxRelayPayload + 8 \<and> ok"
  show ?thesis
  proof (cases ?passed)
    case True
    then have rl': "relay_allow (relayRL s) src (UnixNano (clk e 0)) maxRelaysPerSourcePerSecond = (True, rl)"
      using rl by simp
    show ?thesis
      using True d dispatch_queues(2) [OF assms(1,2) _ assms(3,4) _ rl' _ assms(5)] rl
      by (intro exI [of _ s'] exI [of _ "length (relayChs s ! i) < relayChCap s"]
          exI [of _ "relayChCap s \<le> length (relayChs s ! i)"] exI [of _ False])
        (auto split: if_splits)
  next
    case False
    then show ?thesis
      using d assms(2,3,4) rl
      by (intro exI [of _ s'] exI [of _ False] exI [of _ "fst (breakerOpen s ''beacon.relay'')"]
          exI [of _ "\<not> fst (breakerOpen s ''beacon.relay'') \<and> \<not> relayKnown s dest"])
        (auto simp: dispatchRelay_def Let_def split: if_splits)
  qed
qed

theorem dispatch_accounting_witness:
  "\<exists>s'. dispatchRelay (exEnv 1) exRelay [0, 0, 0, 1, 0, 0, 0, 2, 10] zeroKey = Done s' \<and> relayDropped s' = 0
     \<and> relayNotFound s' = 0 \<and> relayChs s' = (replicate 8 [])[2 := [\<lparr>senderID = 1, destID = 2, payload = [10]\<rparr>]]"
proof -
  have h: "8 \<le> length [0, 0, 0, 1, 0, 0, 0, 2, 10 :: byte]" "uint32_at [0, 0, 0, 1, 0, 0, 0, 2, 10] 0 = Some 1"
      "uint32_at [0, 0, 0, 1, 0, 0, 0, 2, 10] 4 = Some 2" "2 = unat (2 :: u32) mod length (relayChs exRelay)"
    by (simp_all add: uint32_at_def slice_def exRelay_def)
  have p: "relayKnown exRelay 2" "\<not> fst (breakerOpen exRelay ''beacon.relay'')"
      "fst (relay_allow (relayRL exRelay) zeroKey (UnixNano (clk (exEnv 1) 0)) maxRelaysPerSourcePerSecond)"
    by (simp_all add: relayKnown_def exRelay_def breakerOpen_def relay_allow_fst window_step_def)
  have q: "relayChs exRelay = replicate 8 []" "relayChCap exRelay = 65536" "relayDropped exRelay = 0" "relayNotFound exRelay = 0"
    by (simp_all add: exRelay_def)
  show ?thesis
    using dispatch_accounting [OF exRelay_inv h, of "exEnv 1" zeroKey] p
    by (auto simp: q maxRelayPayload_def Let_def)
qed



end
