(* ===== verification/Gossip.thy ===== *)
theory Gossip
  imports BeaconState
begin

text \<open>
  The peer mesh and the periodic clean-up of \<^verbatim>\<open>server.go\<close>: \<^verbatim>\<open>sendGossip\<close>, \<^verbatim>\<open>handleSync\<close>,
  \<^verbatim>\<open>isKnownGossipPeer\<close>, \<^verbatim>\<open>sweepStaleGossip\<close> and \<^verbatim>\<open>reapStaleNodes\<close>.  The order in which the
  node table lists its ids is the parameter \<open>it\<close>.  Clock reading 0 stamps a sync; the clean-up
  reads the clock five times.
\<close>

section \<open>Sending\<close>

definition syncMsg :: "externs \<Rightarrow> u32 \<Rightarrow> nodeid list \<Rightarrow> bytes" where
  "syncMsg x bid ids =
     [BeaconMsgSync x] @ be_PutUint32 bid @ be_PutUint16 (of_nat (length ids)) @ concat (map be_PutUint32 ids)"

fun sendToPeers :: "env \<Rightarrow> nat \<Rightarrow> server \<Rightarrow> bytes \<Rightarrow> udpaddr list \<Rightarrow> server" where
  "sendToPeers e k s msg [] = s"
| "sendToPeers e k s msg (p # ps) = sendToPeers e (k + 1) (snd (WriteToUDP e k s msg p)) msg ps"

text \<open>Writing to the nil socket of a server that does not listen yet panics.\<close>

definition sendGossip :: "(nodeid fset \<Rightarrow> nodeid list) \<Rightarrow> externs \<Rightarrow> env \<Rightarrow> server \<Rightarrow> server outcome" where
  "sendGossip it x e s =
     (let ids = IDs it (nodes s);
          ids' = (if 65535 < length ids then take 65535 ids else ids);
          msg = syncMsg x (beaconID s) ids'
      in if conn s = None \<and> peers s \<noteq> [] then Panicked s else Done (sendToPeers e 0 s msg (peers s)))"

section \<open>Receiving\<close>

definition isKnownGossipPeer :: "server \<Rightarrow> udpaddr option \<Rightarrow> bool" where
  "isKnownGossipPeer s remote =
     (case remote of None \<Rightarrow> False | Some r \<Rightarrow> list_ex (\<lambda>p. IPEqual (IP p) (IP r)) (peers s))"

definition parseIDs :: "bytes \<Rightarrow> nat \<Rightarrow> nodeid list option" where
  "parseIDs data n = those (map (\<lambda>i. uint32_at data (6 + 4 * i)) [0..<n])"

definition sameEndpoint :: "udpaddr \<Rightarrow> udpaddr \<Rightarrow> bool" where
  "sameEndpoint a remote \<longleftrightarrow> IPEqual (IP a) (IP remote) \<and> Port a = Port remote"

fun addRoutes :: "nodeMap \<Rightarrow> udpaddr \<Rightarrow> nodeid list \<Rightarrow> (nodeid, udpaddr) fmap \<Rightarrow> (nodeid, udpaddr) fmap" where
  "addRoutes m remote [] next = next"
| "addRoutes m remote (k # ids) next = addRoutes m remote ids (if Has m k then next else fmupd k remote next)"

definition handleSync :: "env \<Rightarrow> server \<Rightarrow> bytes \<Rightarrow> udpaddr \<Rightarrow> server outcome" where
  "handleSync e s data remote =
     (if length data < 6 then Done s
      else if strictGossip s \<and> \<not> isKnownGossipPeer s (Some remote) then Done s
      else case (uint32_at data 0, uint16_at data 4) of
        (Some peerBeaconID, Some nodeCount) \<Rightarrow>
          if length data < 6 + 4 * unat nodeCount then Done s
          else (case parseIDs data (unat nodeCount) of
            None \<Rightarrow> Panicked s
          | Some ids \<Rightarrow>
              let kept = fm_keep (\<lambda>k a. \<not> sameEndpoint a remote) (peerNodes s) in
              Done (s\<lparr>peerNodes := addRoutes (nodes s) remote ids kept,
                      gossipSeen := fmupd (UDPAddrString remote) (clk e 0) (gossipSeen s)\<rparr>))
      | _ \<Rightarrow> Panicked s)"

section \<open>Clean-up\<close>

definition sweepStaleGossip :: "server \<Rightarrow> gotime \<Rightarrow> server" where
  "sweepStaleGossip s cutoff =
     (let stale = fm_keep (\<lambda>key last. Before last cutoff) (gossipSeen s);
          s1 = s\<lparr>gossipSeen := fm_keep (\<lambda>key last. \<not> Before last cutoff) (gossipSeen s)\<rparr>
      in if fm_len stale = 0 then s1
         else let next = fm_keep (\<lambda>k a. fmlookup stale (UDPAddrString a) = None) (peerNodes s1) in
           if fm_len next = fm_len (peerNodes s1) then s1 else s1\<lparr>peerNodes := next\<rparr>)"

definition reapStaleNodes :: "env \<Rightarrow> server \<Rightarrow> server" where
  "reapStaleNodes e s =
     (let s1 = s\<lparr>nodes := fst (ReapStale (nodes s) (Add (clk e 0) (- beaconNodeTTL)))\<rparr>;
          s2 = s1\<lparr>punchRL := punch_sweep (punchRL s1) (Add (clk e 1) (- punchRateCleanupInterval))\<rparr>;
          s3 = s2\<lparr>relayRL := relay_sweep (relayRL s2) (UnixNano (Add (clk e 2) (- relaySourceCleanupInterval)))\<rparr>;
          s4 = s3\<lparr>discoverRL := discover_sweep (discoverRL s3) (Add (clk e 3) (- discoverMinInterval * 2))\<rparr>;
          s5 = sweepStaleGossip s4 (Add (clk e 4) (- gossipPeerTTL));
          s6 = s5\<lparr>nodePubKeys := fm_keep (\<lambda>k pub. Has (nodes s5) k) (nodePubKeys s5)\<rparr>
      in s6\<lparr>dstNodes := ffilter (Has (nodes s6)) (dstNodes s6)\<rparr>)"

section \<open>Invariant\<close>

lemma sendToPeers_frame [simp]:
  "server_inv (sendToPeers e k s msg ps) = server_inv s" "peerNodes (sendToPeers e k s msg ps) = peerNodes s"
  "nodes (sendToPeers e k s msg ps) = nodes s" "gossipSeen (sendToPeers e k s msg ps) = gossipSeen s"
  by (induction e k s msg ps rule: sendToPeers.induct) (simp_all add: WriteToUDP_def)

lemma those_defined: "(\<And>x. x \<in> set xs \<Longrightarrow> x \<noteq> None) \<Longrightarrow> \<exists>ys. those xs = Some ys"
  by (induction xs) (auto split: option.splits)

lemma parseIDs_defined: "6 + 4 * n \<le> length data \<Longrightarrow> \<exists>ids. parseIDs data n = Some ids"
proof -
  assume len: "6 + 4 * n \<le> length data"
  have "\<exists>v. uint32_at data (6 + 4 * i) = Some v" if "i < n" for i
    using that len by (intro uint32_at_defined) linarith
  then show ?thesis unfolding parseIDs_def by (intro those_defined) auto
qed

lemma addRoutes_lookup:
  "fmlookup (addRoutes m remote ids next) k = (if k \<in> set ids \<and> \<not> Has m k then Some remote else fmlookup next k)"
  by (induction m remote ids "next" rule: addRoutes.induct) auto

text \<open>The routing table after a sync that is accepted.\<close>

definition syncRoutes :: "server \<Rightarrow> nodeid list \<Rightarrow> udpaddr \<Rightarrow> nodeid \<Rightarrow> udpaddr option" where
  "syncRoutes s ids remote k =
     (if k \<in> set ids \<and> \<not> Has (nodes s) k then Some remote
      else case fmlookup (peerNodes s) k of None \<Rightarrow> None | Some a \<Rightarrow> if sameEndpoint a remote then None else Some a)"

lemma handleSync_accepted:
  assumes "6 \<le> length data" "\<not> (strictGossip s \<and> \<not> isKnownGossipPeer s (Some remote))"
    "uint16_at data 4 = Some n" "6 + 4 * unat n \<le> length data" "parseIDs data (unat n) = Some ids"
  obtains s' where "handleSync e s data remote = Done s'" "fmlookup (peerNodes s') = syncRoutes s ids remote"
    "gossipSeen s' = fmupd (UDPAddrString remote) (clk e 0) (gossipSeen s)"
    "s' = s\<lparr>peerNodes := peerNodes s', gossipSeen := gossipSeen s'\<rparr>"
proof -
  obtain v where v: "uint32_at data 0 = Some v" using uint32_at_defined [of 0 data] assms(1) by auto
  let ?s' = "s\<lparr>peerNodes := addRoutes (nodes s) remote ids (fm_keep (\<lambda>k a. \<not> sameEndpoint a remote) (peerNodes s)),
    gossipSeen := fmupd (UDPAddrString remote) (clk e 0) (gossipSeen s)\<rparr>"
  have "handleSync e s data remote = Done ?s'"
    using assms v by (auto simp: handleSync_def Let_def)
  moreover have "fmlookup (peerNodes ?s') = syncRoutes s ids remote"
    by (rule ext) (auto simp: addRoutes_lookup syncRoutes_def split: option.splits)
  ultimately show thesis by (intro that [of ?s']) simp_all
qed

lemma routes_ok_sync:
  assumes "routes_ok routes seen" "\<And>k a. fmlookup routes' k = Some a \<Longrightarrow> a = remote \<or> fmlookup routes k = Some a"
  shows "routes_ok routes' (fmupd (UDPAddrString remote) t seen)"
  using assms unfolding routes_ok_def by (metis fmupd_lookup option.distinct(1))

lemma server_inv_routes:
  "server_inv s \<Longrightarrow> routes_ok routes seen \<Longrightarrow> server_inv (s\<lparr>peerNodes := routes, gossipSeen := seen\<rparr>)"
  by (simp add: server_inv_def)

lemma handleSync_inv:
  assumes "server_inv s"
  shows "\<exists>s'. handleSync e s data remote = Done s' \<and> server_inv s'"
proof (cases "length data < 6 \<or> (strictGossip s \<and> \<not> isKnownGossipPeer s (Some remote))")
  case False
  obtain v n where vn: "uint32_at data 0 = Some v" "uint16_at data 4 = Some n"
    using uint32_at_defined [of 0 data] uint16_at_defined [of 4 data] False by auto
  show ?thesis
  proof (cases "length data < 6 + 4 * unat n")
    case nl: False
    obtain ids where ids: "parseIDs data (unat n) = Some ids" using parseIDs_defined nl by (metis not_less)
    obtain s' where s': "handleSync e s data remote = Done s'" "fmlookup (peerNodes s') = syncRoutes s ids remote"
        "gossipSeen s' = fmupd (UDPAddrString remote) (clk e 0) (gossipSeen s)"
        "s' = s\<lparr>peerNodes := peerNodes s', gossipSeen := gossipSeen s'\<rparr>"
      by (rule handleSync_accepted [of data s remote n ids e]) (use False vn nl ids in auto)
    have "routes_ok (peerNodes s') (gossipSeen s')"
      unfolding s'(3) using assms
      by (intro routes_ok_sync [of "peerNodes s"])
        (auto simp: server_inv_def s'(2) syncRoutes_def split: if_splits option.splits)
    then have "server_inv s'" using server_inv_routes [OF assms] s'(4) by metis
    then show ?thesis using s'(1) by blast
  qed (use False vn assms in \<open>auto simp: handleSync_def\<close>)
qed (use assms in \<open>auto simp: handleSync_def\<close>)

text \<open>The sweep without its early returns.\<close>

definition fresh_owner :: "(string, gotime) fmap \<Rightarrow> gotime \<Rightarrow> udpaddr \<Rightarrow> bool" where
  "fresh_owner seen cutoff a \<longleftrightarrow>
     (case fmlookup seen (UDPAddrString a) of None \<Rightarrow> True | Some l \<Rightarrow> \<not> Before l cutoff)"

definition plainSweep :: "server \<Rightarrow> gotime \<Rightarrow> server" where
  "plainSweep s cutoff =
     s\<lparr>gossipSeen := fm_keep (\<lambda>key l. \<not> Before l cutoff) (gossipSeen s),
       peerNodes := fm_keep (\<lambda>k a. fresh_owner (gossipSeen s) cutoff a) (peerNodes s)\<rparr>"

lemma stale_lookup:
  "fmlookup (fm_keep (\<lambda>key l. Before l cutoff) seen) (UDPAddrString a) = None \<longleftrightarrow> fresh_owner seen cutoff a"
  by (simp add: fresh_owner_def split: option.split)

lemma sweep_plain: "sweepStaleGossip s cutoff = plainSweep s cutoff"
proof -
  let ?stale = "fm_keep (\<lambda>key l. Before l cutoff) (gossipSeen s)"
  let ?next = "fm_keep (\<lambda>k a. fresh_owner (gossipSeen s) cutoff a) (peerNodes s)"
  have "?next = peerNodes s" if "fm_len ?stale = 0"
    using that unfolding fm_len_zero by (intro fm_keep_all) (metis stale_lookup)
  moreover have "?next = peerNodes s" if "fm_len ?next = fm_len (peerNodes s)"
    using that by (rule fm_keep_same_len)
  ultimately show ?thesis
    by (auto simp: sweepStaleGossip_def plainSweep_def Let_def stale_lookup simp del: fmlookup_keep)
qed

lemma routes_ok_sweep:
  assumes "routes_ok routes seen"
  shows "routes_ok (fm_keep (\<lambda>k a. fresh_owner seen cutoff a) routes) (fm_keep (\<lambda>key l. \<not> Before l cutoff) seen)"
  using assms by (fastforce simp: routes_ok_def fresh_owner_def split: option.splits if_splits)

lemma sweep_inv: "server_inv s \<Longrightarrow> server_inv (sweepStaleGossip s cutoff)"
  unfolding sweep_plain plainSweep_def
  by (simp add: server_inv_def routes_ok_sweep)

lemma keys_ok_keep: "keys_ok m \<Longrightarrow> keys_ok (fm_keep P m)"
  by (auto simp: keys_ok_def split: option.splits if_splits)

text \<open>The clean-up in one piece.\<close>

lemma reapStaleNodes_eq:
  "reapStaleNodes e s =
     (let m = fst (ReapStale (nodes s) (Add (clk e 0) (- beaconNodeTTL))); cutoff = Add (clk e 4) (- gossipPeerTTL) in
      s\<lparr>nodes := m,
        punchRL := punch_sweep (punchRL s) (Add (clk e 1) (- punchRateCleanupInterval)),
        relayRL := relay_sweep (relayRL s) (UnixNano (Add (clk e 2) (- relaySourceCleanupInterval))),
        discoverRL := discover_sweep (discoverRL s) (Add (clk e 3) (- discoverMinInterval * 2)),
        gossipSeen := fm_keep (\<lambda>key l. \<not> Before l cutoff) (gossipSeen s),
        peerNodes := fm_keep (\<lambda>k a. fresh_owner (gossipSeen s) cutoff a) (peerNodes s),
        nodePubKeys := fm_keep (\<lambda>k pub. Has m k) (nodePubKeys s),
        dstNodes := ffilter (Has m) (dstNodes s)\<rparr>)"
  by (simp add: reapStaleNodes_def sweep_plain plainSweep_def Let_def)

lemma reapStaleNodes_inv:
  assumes "server_inv s"
  shows "server_inv (reapStaleNodes e s)"
  using assms
  by (simp add: server_inv_def reapStaleNodes_eq Let_def node_wf_reap shard_caps_reap dl.invar_sweep pl.invar_sweep
      relay_wf_sweep routes_ok_sweep keys_ok_keep)

section \<open>The message\<close>

lemma length_syncMsg: "length (syncMsg x bid ids) = 7 + 4 * length ids"
  by (induction ids) (simp_all add: syncMsg_def)

lemma uint32_at_skip: "length p = i \<Longrightarrow> uint32_at (p @ r) (i + j) = uint32_at r j"
  by (simp add: uint32_at_def slice_def)

lemma uint32_at_concat:
  "i < length ids \<Longrightarrow> uint32_at (concat (map be_PutUint32 ids)) (4 * i) = Some (ids ! i)"
proof (induction ids arbitrary: i)
  case (Cons k ids)
  show ?case
  proof (cases i)
    case 0
    then show ?thesis using uint32_at_Put [of "[]" 0 k] by simp
  next
    case (Suc j)
    then show ?thesis
      using Cons uint32_at_skip [of "be_PutUint32 k" 4 "concat (map be_PutUint32 ids)" "4 * j"] by simp
  qed
qed simp

lemma those_map_Some: "(\<And>x. x \<in> set xs \<Longrightarrow> f x = Some (g x)) \<Longrightarrow> those (map f xs) = Some (map g xs)"
  by (induction xs) auto

lemma parse_syncMsg:
  assumes "length ids \<le> 65535"
  shows "uint16_at (drop 1 (syncMsg x bid ids)) 4 = Some (of_nat (length ids))"
    "parseIDs (drop 1 (syncMsg x bid ids)) (length ids) = Some ids"
    "unat (of_nat (length ids) :: u16) = length ids"
proof -
  let ?body = "concat (map be_PutUint32 ids)"
  have d: "drop 1 (syncMsg x bid ids) = (be_PutUint32 bid @ be_PutUint16 (of_nat (length ids))) @ ?body"
    by (simp add: syncMsg_def One_nat_def)
  show "uint16_at (drop 1 (syncMsg x bid ids)) 4 = Some (of_nat (length ids))"
    using uint16_at_Put [of "be_PutUint32 bid" 4 "of_nat (length ids)" ?body] by (simp add: d)
  have "uint32_at (drop 1 (syncMsg x bid ids)) (6 + 4 * i) = Some (ids ! i)" if "i < length ids" for i
    unfolding d using uint32_at_skip [of "be_PutUint32 bid @ be_PutUint16 (of_nat (length ids))" 6 ?body "4 * i"]
      uint32_at_concat [OF that] by simp
  then have "parseIDs (drop 1 (syncMsg x bid ids)) (length ids) = Some (map ((!) ids) [0..<length ids])"
    unfolding parseIDs_def by (intro those_map_Some) simp
  then show "parseIDs (drop 1 (syncMsg x bid ids)) (length ids) = Some ids" by (simp add: map_nth)
  show "unat (of_nat (length ids) :: u16) = length ids"
    using assms by (simp add: unat_of_nat take_bit_eq_mod)
qed

lemma sendToPeers_outbox:
  "(\<And>k dst. sendOk e k dst msg) \<Longrightarrow> outbox (sendToPeers e k s msg ps) = outbox s @ map (\<lambda>p. (p, msg)) ps"
  "(\<And>k dst. \<not> sendOk e k dst msg) \<Longrightarrow> outbox (sendToPeers e k s msg ps) = outbox s"
  by (induction e k s msg ps rule: sendToPeers.induct) (simp_all add: WriteToUDP_def)

text \<open>A beacon with registered nodes, one peer and one route learned from it.\<close>

definition exKnown :: server where
  "exKnown = exServer\<lparr>nodes := exTable, dstNodes := {|7, 9|}, peers := [exAddr], peerNodes := fmap_of_list [(40, exAddr)],
     gossipSeen := fmap_of_list [(UDPAddrString exAddr, at_s 5)]\<rparr>"

lemma exKnown_inv: "server_inv exKnown"
proof -
  have "shard_caps maxBeaconNodes exTable"
    unfolding exTable_def maxBeaconNodes_def by (intro shard_caps_Upsert) (simp_all add: node_wf_Upsert)
  then show ?thesis
    using exServer_inv by (simp add: exKnown_def server_inv_def routes_ok_def)
qed

lemma exKnown_simps:
  "conn exKnown = Some exAddr" "peers exKnown = [exAddr]" "outbox exKnown = []" "nodes exKnown = exTable"
  by (simp_all add: exKnown_def)

lemma exTable_Len: "Len exTable = 2"
  by code_simp

lemma exTable_has: "Has exTable 71"
  by code_simp

section \<open>Properties\<close>

text \<open>
  C17: gossip is understood as it was meant.  A beacon sends to each peer one message that lists its
  registered nodes (the first 65535 of them, in the order the table lists them).  A peer that accepts
  the message routes to the sender exactly the listed nodes that are not registered with itself; routes
  it had to the sender before are replaced, and every route to another beacon stays unless the sender
  now announces that node.
\<close>

theorem gossip_roundtrip:
  assumes "conn s = Some c" "\<forall>k dst msg. sendOk e k dst msg" "ids = take 65535 (IDs it (nodes s))"
    "\<not> strictGossip t \<or> isKnownGossipPeer t (Some remote)"
  shows "\<exists>s' t' msg. sendGossip it x e s = Done s' \<and> outbox s' = outbox s @ map (\<lambda>p. (p, msg)) (peers s)
    \<and> hd msg = BeaconMsgSync x \<and> handleSync e' t (drop 1 msg) remote = Done t'
    \<and> (\<forall>k. fmlookup (peerNodes t') k =
         (if k \<in> set ids \<and> \<not> Has (nodes t) k then Some remote
          else case fmlookup (peerNodes t) k of None \<Rightarrow> None | Some a \<Rightarrow> if sameEndpoint a remote then None else Some a))"
proof -
  let ?msg = "syncMsg x (beaconID s) ids"
  have len: "length ids \<le> 65535" by (simp add: assms(3))
  note p = parse_syncMsg(1) [OF len, of x "beaconID s"] parse_syncMsg(2) [OF len, of x "beaconID s"]
    parse_syncMsg(3) [OF len]
  have send: "sendGossip it x e s = Done (sendToPeers e 0 s ?msg (peers s))"
    using assms(1) by (simp add: sendGossip_def Let_def assms(3))
  obtain t' where "handleSync e' t (drop 1 ?msg) remote = Done t'" "fmlookup (peerNodes t') = syncRoutes t ids remote"
    by (rule handleSync_accepted [of "drop 1 ?msg" t remote "of_nat (length ids)" ids e'])
      (use assms(4) p length_syncMsg [of x "beaconID s" ids] in auto)
  then show ?thesis
    using send sendToPeers_outbox(1) [of e ?msg 0 s "peers s"] assms(2)
    by (intro exI [of _ "sendToPeers e 0 s ?msg (peers s)"] exI [of _ t'] exI [of _ ?msg])
      (auto simp: syncMsg_def syncRoutes_def)
qed

theorem gossip_roundtrip_witness:
  "\<exists>s' t' msg. sendGossip sorted_list_of_fset exExterns (exEnv 5) exKnown = Done s' \<and> outbox s' = [(exAddr, msg)]
    \<and> handleSync (exEnv 6) exServer (drop 1 msg) exAddr = Done t' \<and> fmlookup (peerNodes t') 71 = Some exAddr"
proof -
  let ?ids = "take 65535 (IDs sorted_list_of_fset (nodes exKnown))"
  have "length (IDs sorted_list_of_fset exTable) \<le> 65535"
    using length_IDs [OF exTable_wf iter_ok_sorted] exTable_Len by simp
  then have "71 \<in> set ?ids"
    using sharded_ids [OF exTable_wf iter_ok_sorted] exTable_has by (auto simp: exKnown_simps Has_abs)
  moreover have "\<not> Has (nodes exServer) 71" by (simp add: Has_abs)
  ultimately show ?thesis
    using gossip_roundtrip [of exKnown exAddr "exEnv 5" ?ids sorted_list_of_fset exServer exAddr exExterns "exEnv 6"]
    by (force simp: exKnown_simps)
qed

text \<open>
  With the peer-set gate on, a sync from an address that no configured or discovered beacon has
  leaves the whole state as it was, whatever it contains.
\<close>

theorem strict_gossip_gate:
  assumes "strictGossip s" "\<forall>p \<in> set (peers s). \<not> IPEqual (IP p) (IP remote)"
  shows "handleSync e s data remote = Done s"
  using assms by (auto simp: handleSync_def isKnownGossipPeer_def list_ex_iff)

theorem strict_gossip_gate_witness:
  "handleSync (exEnv 5) (exServer\<lparr>strictGossip := True\<rparr>) [0, 0, 0, 1, 0, 1, 0, 0, 0, 9] exAddr = Done (exServer\<lparr>strictGossip := True\<rparr>)"
  by (rule strict_gossip_gate) simp_all

text \<open>
  C23: the clean-up withdraws what a silent beacon published and nothing else: a route survives exactly
  when its owner delivered a sync within the last 90 seconds (not before the cutoff); the early returns
  of the sweep change nothing.
\<close>

theorem stale_routes_withdrawn:
  assumes "server_inv s" "cutoff = Add (clk e 4) (- gossipPeerTTL)"
  shows "fmlookup (peerNodes (reapStaleNodes e s)) k = Some a \<longleftrightarrow>
    fmlookup (peerNodes s) k = Some a \<and>
    (\<exists>l. fmlookup (gossipSeen s) (UDPAddrString a) = Some l \<and> \<not> Before l cutoff)"
  using assms
  by (fastforce simp: reapStaleNodes_eq Let_def server_inv_def routes_ok_def fresh_owner_def split: option.splits if_splits)

theorem stale_routes_withdrawn_witness:
  "fmlookup (peerNodes exKnown) 40 = Some exAddr \<and> fmlookup (peerNodes (reapStaleNodes (exEnv 50) exKnown)) 40 = Some exAddr
   \<and> fmlookup (peerNodes (reapStaleNodes (exEnv 100) exKnown)) 40 \<noteq> Some exAddr"
  using stale_routes_withdrawn [of exKnown "Add (clk (exEnv 50) 4) (- gossipPeerTTL)" "exEnv 50" 40 exAddr]
    stale_routes_withdrawn [of exKnown "Add (clk (exEnv 100) 4) (- gossipPeerTTL)" "exEnv 100" 40 exAddr] exKnown_inv
  by (simp add: exKnown_def gossipPeerTTL_def at_s_def Before_def Add_def duration_defs Let_def)

text \<open>
  After a clean-up the key cache and the set of extended-frame nodes hold only nodes that are still
  registered, and the registered nodes are exactly those seen within the last ten minutes, so neither
  grows with the ids that datagrams once named.
\<close>

theorem reap_bounds_caches:
  assumes "node_wf (nodes s)" "s' = reapStaleNodes e s"
  shows "nodes_abs (nodes s') = flat_reap (nodes_abs (nodes s)) (Add (clk e 0) (- beaconNodeTTL)) \<and>
    fset (fmdom (nodePubKeys s')) \<subseteq> {k. Has (nodes s') k} \<and> fset (dstNodes s') \<subseteq> {k. Has (nodes s') k}"
  using assms
  by (auto simp: reapStaleNodes_eq Let_def nodes_abs_reap fmlookup_dom_iff split: option.splits if_splits)

theorem reap_bounds_caches_witness:
  "\<exists>s'. s' = reapStaleNodes (exEnv 700) exKnown
    \<and> fset (dstNodes exKnown) = {7, 9} \<and> fset (dstNodes s') \<subseteq> {k. Has (nodes s') k}"
  using reap_bounds_caches [of exKnown "reapStaleNodes (exEnv 700) exKnown" "exEnv 700"] exTable_wf
  by (auto simp: exKnown_def)

text \<open>
  Gossip is all or nothing.  Where the network refuses datagrams longer than \<open>L\<close> bytes, a beacon
  whose list does not fit in one datagram sends nothing to any peer: the cap of 65535 ids bounds the
  count field and not the datagram.  For UDP over IPv4, \<open>L = 65507\<close>, this is every beacon with more
  than 16375 nodes.
\<close>

theorem gossip_oversize_lost:
  assumes "conn s = Some c" "node_wf (nodes s)" "iter_ok it" "L < 7 + 4 * min 65535 (Len (nodes s))"
    "\<forall>k dst msg. L < length msg \<longrightarrow> \<not> sendOk e k dst msg"
  shows "\<exists>s'. sendGossip it x e s = Done s' \<and> outbox s' = outbox s"
proof -
  let ?ids = "if 65535 < length (IDs it (nodes s)) then take 65535 (IDs it (nodes s)) else IDs it (nodes s)"
  have "length ?ids = min 65535 (Len (nodes s))" using length_IDs [OF assms(2,3)] by simp
  then have "L < length (syncMsg x (beaconID s) ?ids)" using assms(4) by (simp only: length_syncMsg)
  then have "outbox (sendToPeers e 0 s (syncMsg x (beaconID s) ?ids) (peers s)) = outbox s"
    using assms(5) by (intro sendToPeers_outbox(2)) blast
  then show ?thesis using assms(1) by (simp add: sendGossip_def Let_def)
qed

theorem gossip_oversize_lost_witness:
  "\<exists>s'. sendGossip sorted_list_of_fset exExterns \<lparr>clk = \<lambda>_. at_s 5, sendOk = \<lambda>_ _ msg. length msg \<le> 10\<rparr> exKnown = Done s'
    \<and> outbox s' = []"
  using gossip_oversize_lost [of exKnown exAddr sorted_list_of_fset 10 "\<lparr>clk = \<lambda>_. at_s 5, sendOk = \<lambda>_ _ msg. length msg \<le> 10\<rparr>" exExterns]
    exTable_Len
  by (simp add: exKnown_def min_def iter_ok_sorted)

end
