(* ===== verification/Packets.thy ===== *)
theory Packets
  imports Discover Punch Relay Gossip
begin

text \<open>
  The entry points of \<^verbatim>\<open>server.go\<close>: \<^verbatim>\<open>handlePacketFrom\<close>, which selects the handler of a message, the
  callback \<^verbatim>\<open>OnFrame\<close> through which the bridge calls it, and the receive loop of a socket
  (\<^verbatim>\<open>readLoop\<close>, \<^verbatim>\<open>readLoopBatches\<close>).
\<close>

section \<open>One packet\<close>

text \<open>The body of \<^verbatim>\<open>handlePacketFrom\<close>, and the function itself with its deferred recovery.\<close>

definition dispatchPacket :: "externs \<Rightarrow> env \<Rightarrow> server \<Rightarrow> bytes \<Rightarrow> udpaddr \<Rightarrow> u32 \<Rightarrow> server outcome" where
  "dispatchPacket x e s data remote bridgePeer =
     (case data of
        [] \<Rightarrow> Done s
      | msgType # body \<Rightarrow>
          if msgType = BeaconMsgDiscover x then handleDiscover x e s body remote False
          else if msgType = BeaconMsgDiscoverEx x then handleDiscover x e s body remote True
          else if msgType = BeaconMsgPunchRequest x then handlePunchRequest x e s body remote
          else if msgType = BeaconMsgRelay x then
            (if bridgePeer \<noteq> 0 then dispatchRelay e s body (relaySourceForBridge bridgePeer)
             else dispatchRelay e s body (relaySourceForUDP (Some remote)))
          else if msgType = BeaconMsgSync x then handleSync e s body remote
          else Done s)"

definition handlePacketFrom :: "externs \<Rightarrow> env \<Rightarrow> server \<Rightarrow> bytes \<Rightarrow> udpaddr \<Rightarrow> u32 \<Rightarrow> server" where
  "handlePacketFrom x e s data remote bridgePeer = recoverHandler (dispatchPacket x e s data remote bridgePeer)"

definition handlePacket :: "externs \<Rightarrow> env \<Rightarrow> server \<Rightarrow> bytes \<Rightarrow> udpaddr \<Rightarrow> server" where
  "handlePacket x e s data remote = handlePacketFrom x e s data remote 0"

text \<open>The bridge hands over a frame with the node id it authenticated.\<close>

definition synthAddr :: "u32 \<Rightarrow> udpaddr" where
  "synthAddr sender = \<lparr>IP = v4InV6Prefix @ [192, 0, 2, 1], Port = uint (sender AND 0xFFFF), Zone = []\<rparr>"

definition onFrame :: "externs \<Rightarrow> env \<Rightarrow> server \<Rightarrow> u32 \<Rightarrow> bytes \<Rightarrow> server" where
  "onFrame x e s sender frame = handlePacketFrom x e s frame (synthAddr sender) sender"

section \<open>The receive loop\<close>

text \<open>
  A received message: its length, its source (\<open>None\<close> if it is no UDP address) and its buffer.  Each
  carries the surroundings its handler runs in.
\<close>

record rmsg =
  mN :: int
  mAddr :: "udpaddr option"
  mBuf :: bytes
  mEnv :: env

definition readBatchCap :: nat where
  "readBatchCap = 32"

definition readBufSize :: nat where
  "readBufSize = 65535"

text \<open>The dispatch of the first \<open>n\<close> messages; indexing and slicing beyond the buffers panics.\<close>

definition handleMsg :: "externs \<Rightarrow> server \<Rightarrow> rmsg \<Rightarrow> server outcome" where
  "handleMsg x s m =
     (if mN m < 1 then Done s
      else case mAddr m of
        None \<Rightarrow> Done s
      | Some remote \<Rightarrow>
          (case slice (mBuf m) 0 (nat (mN m)) of
             None \<Rightarrow> Panicked s
           | Some data \<Rightarrow> Done (handlePacket x (mEnv m) s data remote)))"

fun handleBatch :: "externs \<Rightarrow> server \<Rightarrow> rmsg list \<Rightarrow> nat \<Rightarrow> server outcome" where
  "handleBatch x s ms 0 = Done s"
| "handleBatch x s [] (Suc n) = Panicked s"
| "handleBatch x s (m # ms) (Suc n) =
     (case handleMsg x s m of Done s1 \<Rightarrow> handleBatch x s1 ms n | Panicked s1 \<Rightarrow> Panicked s1)"

text \<open>
  What \<^verbatim>\<open>ReadBatch\<close> returns: a batch, or an error that is or is not \<^verbatim>\<open>net.ErrClosed\<close>.  A loop on a
  finite sequence of returns ends because the socket or the server is closed, by a panic, or waits
  for more.
\<close>

datatype read_ev = Batch int "rmsg list" | ReadError bool

datatype read_end = ReadClosed | Unwound | Waiting

fun readLoopBatches :: "externs \<Rightarrow> server \<Rightarrow> read_ev list \<Rightarrow> server \<times> read_end \<times> read_ev list" where
  "readLoopBatches x s [] = (s, Waiting, [])"
| "readLoopBatches x s (ReadError closed # evs) =
     (if closed then (s, ReadClosed, evs)
      else if serverDone s then (s, ReadClosed, evs)
      else readLoopBatches x s evs)"
| "readLoopBatches x s (Batch n ms # evs) =
     (case handleBatch x s ms (nat n) of
        Panicked s1 \<Rightarrow> (recoverHandler (Panicked s1), Unwound, evs)
      | Done s1 \<Rightarrow> readLoopBatches x s1 evs)"

lemma readLoopBatches_shorter: "readLoopBatches x s evs = (s', Unwound, rest) \<Longrightarrow> length rest < length evs"
  by (induction x s evs rule: readLoopBatches.induct) (auto split: if_splits outcome.splits)

text \<open>The result tells whether the reader has returned.\<close>

function readLoop :: "externs \<Rightarrow> server \<Rightarrow> read_ev list \<Rightarrow> bool \<times> server" where
  "readLoop x s evs =
     (case readLoopBatches x s evs of
        (s1, ReadClosed, rest) \<Rightarrow> (True, s1)
      | (s1, Waiting, rest) \<Rightarrow> (False, s1)
      | (s1, Unwound, rest) \<Rightarrow> if serverDone s1 then (True, s1) else readLoop x s1 rest)"
  by pat_completeness auto
termination
  by (relation "measure (\<lambda>(x, s, evs). length evs)") (auto dest: readLoopBatches_shorter [OF sym])

declare readLoop.simps [simp del]

section \<open>Invariant\<close>

lemma dispatchPacket_inv:
  assumes "server_inv s"
  shows "\<exists>s'. dispatchPacket x e s data remote bridgePeer = Done s' \<and> server_inv s'"
proof (cases data)
  case (Cons msgType body)
  show ?thesis
    using assms handleDiscover_inv [OF assms] handlePunchRequest_inv [OF assms] dispatchRelay_inv [OF assms] handleSync_inv [OF assms]
    by (simp add: dispatchPacket_def Cons)
qed (use assms in \<open>simp add: dispatchPacket_def\<close>)

lemma handlePacketFrom_inv:
  assumes "server_inv s"
  shows "server_inv (handlePacketFrom x e s data remote bridgePeer)"
  using dispatchPacket_inv [OF assms, of x e data remote bridgePeer] by (auto simp: handlePacketFrom_def recoverHandler_def)

text \<open>What no handler changes.\<close>

definition kept :: "server \<Rightarrow> server \<Rightarrow> bool" where
  "kept s s' \<longleftrightarrow> recoveredPanics s' = recoveredPanics s \<and> serverDone s' = serverDone s \<and> conn s' = conn s
     \<and> wssServer s' = wssServer s \<and> length (relayChs s') = length (relayChs s) \<and> peers s' = peers s
     \<and> strictGossip s' = strictGossip s \<and> beaconID s' = beaconID s"

lemma kept_refl [simp]: "kept s s"
  by (simp add: kept_def)

lemma kept_trans: "kept s t \<Longrightarrow> kept t u \<Longrightarrow> kept s u"
  by (simp add: kept_def)

lemma kept_updates [simp]:
  "kept s (t\<lparr>nodes := a\<rparr>) = kept s t" "kept s (t\<lparr>dstNodes := b\<rparr>) = kept s t" "kept s (t\<lparr>outbox := c\<rparr>) = kept s t"
  "kept s (t\<lparr>relayForwarded := d\<rparr>) = kept s t" "kept s (t\<lparr>relayDropped := d\<rparr>) = kept s t"
  "kept s (t\<lparr>relayNotFound := d\<rparr>) = kept s t" "kept s (t\<lparr>lastDropLog := f\<rparr>) = kept s t"
  "kept s (t\<lparr>punchRL := g\<rparr>) = kept s t" "kept s (t\<lparr>lastPunchTime := f\<rparr>) = kept s t"
  "kept s (t\<lparr>relayRL := h\<rparr>) = kept s t" "kept s (t\<lparr>discoverRL := i\<rparr>) = kept s t"
  "kept s (t\<lparr>peerNodes := j\<rparr>) = kept s t" "kept s (t\<lparr>gossipSeen := k\<rparr>) = kept s t"
  "kept s (t\<lparr>nodePubKeys := l\<rparr>) = kept s t"
  by (simp_all add: kept_def)

lemma kept_write [simp]: "kept s (snd (WriteToUDP e k t msg dst)) = kept s t"
  by (simp add: WriteToUDP_def)

lemma kept_reply [simp]: "kept s (discoverReply x e t remote) = kept s t"
  by (simp add: discoverReply_def Let_def split: option.split)

lemma kept_upsert [simp]: "kept s (discoverUpsert x e t nodeID remote) = kept s t"
  by (simp add: discoverUpsert_def Let_def split: prod.split)

lemma kept_discover: "handleDiscover x e s data remote w = Done s' \<Longrightarrow> kept s s'"
  by (auto simp: handleDiscover_def storeKey_def Let_def split: if_splits option.splits)

lemma kept_send [simp]: "kept s (snd (SendPunchCommand x e k t n p q)) = kept s t"
  by (simp add: SendPunchCommand_def WriteToUDP_def split: option.split prod.split)

lemma kept_coordinate [simp]: "kept s (coordinatePunch x e t r d remote) = kept s t"
  by (simp add: coordinatePunch_def Let_def split: option.split)

lemma kept_gate: "kept s (snd (punchGate e t key)) = kept s t"
  by (simp add: punchGate_def Let_def split: prod.split)

lemma kept_serve: "servePunch x e t data remote = Done s' \<Longrightarrow> kept s s' = kept s t"
  by (auto simp: servePunch_def split: option.splits if_splits bool.splits)

lemma kept_punch:
  assumes "handlePunchRequest x e s data remote = Done s'"
  shows "kept s s'"
proof -
  have "kept s (snd (punchGate e s (IPString (IP remote))))" by (simp add: kept_gate)
  then show ?thesis
    using assms kept_serve
    by (fastforce simp: handlePunchRequest_def Let_def split: if_splits prod.splits bool.splits)
qed

lemma kept_enqueue: "enqueueRelay e t job = Done s' \<Longrightarrow> kept s s' = kept s t"
  by (auto simp: enqueueRelay_def Let_def kept_def split: option.splits if_splits)

lemma kept_relay: "dispatchRelay e s data src = Done s' \<Longrightarrow> kept s s'"
  by (auto simp: dispatchRelay_def Let_def kept_enqueue split: option.splits if_splits prod.splits)

lemma kept_sync: "handleSync e s data remote = Done s' \<Longrightarrow> kept s s'"
  by (auto simp: handleSync_def Let_def split: option.splits if_splits prod.splits)

lemma kept_dispatch: "dispatchPacket x e s data remote bridgePeer = Done s' \<Longrightarrow> kept s s'"
  by (auto simp: dispatchPacket_def kept_discover kept_punch kept_relay kept_sync split: list.splits if_splits)

lemma handlePacketFrom_kept:
  assumes "server_inv s"
  shows "kept s (handlePacketFrom x e s data remote bridgePeer)"
  using dispatchPacket_inv [OF assms, of x e data remote bridgePeer]
  by (auto simp: handlePacketFrom_def recoverHandler_def kept_dispatch)

section \<open>Relay budgets\<close>

text \<open>What only relay packets change: the budgets and the queues.\<close>

definition relay_part :: "server \<Rightarrow> relayRateLimiter \<times> relayJob list list" where
  "relay_part s = (relayRL s, relayChs s)"

lemma relay_part_updates [simp]:
  "relay_part (s\<lparr>nodes := a\<rparr>) = relay_part s" "relay_part (s\<lparr>dstNodes := b\<rparr>) = relay_part s"
  "relay_part (s\<lparr>outbox := c\<rparr>) = relay_part s" "relay_part (s\<lparr>punchRL := d\<rparr>) = relay_part s"
  "relay_part (s\<lparr>lastPunchTime := f\<rparr>) = relay_part s" "relay_part (s\<lparr>discoverRL := g\<rparr>) = relay_part s"
  "relay_part (s\<lparr>peerNodes := h\<rparr>) = relay_part s" "relay_part (s\<lparr>gossipSeen := i\<rparr>) = relay_part s"
  "relay_part (s\<lparr>nodePubKeys := j\<rparr>) = relay_part s"
  by (simp_all add: relay_part_def)

lemma relay_part_frame [simp]:
  "relay_part (snd (WriteToUDP e k t msg dst)) = relay_part t" "relay_part (discoverReply x e t remote) = relay_part t"
  "relay_part (discoverUpsert x e t nodeID remote) = relay_part t" "relay_part (storeKey t nodeID pub) = relay_part t"
  "relay_part (snd (SendPunchCommand x e k t n p q)) = relay_part t" "relay_part (coordinatePunch x e t r d remote) = relay_part t"
  by (simp_all add: WriteToUDP_def discoverReply_def discoverUpsert_def storeKey_def SendPunchCommand_def coordinatePunch_def Let_def
      split: option.split prod.split)

lemma relay_part_discover: "handleDiscover x e s data remote w = Done s' \<Longrightarrow> relay_part s' = relay_part s"
  by (auto simp: handleDiscover_def Let_def split: if_splits option.splits)

lemma relay_part_gate: "relay_part (snd (punchGate e t key)) = relay_part t"
  by (simp add: punchGate_def Let_def split: prod.split)

lemma relay_part_serve: "servePunch x e t data remote = Done s' \<Longrightarrow> relay_part s' = relay_part t"
  by (auto simp: servePunch_def split: option.splits if_splits bool.splits)

lemma relay_part_punch: "handlePunchRequest x e s data remote = Done s' \<Longrightarrow> relay_part s' = relay_part s"
  using relay_part_gate [of e s "IPString (IP remote)"] relay_part_serve
  by (fastforce simp: handlePunchRequest_def Let_def split: if_splits prod.splits bool.splits)

lemma relay_part_sync: "handleSync e s data remote = Done s' \<Longrightarrow> relay_part s' = relay_part s"
  by (auto simp: handleSync_def Let_def split: option.splits if_splits prod.splits)

lemmas relay_part_handlers = relay_part_discover relay_part_punch relay_part_sync

lemma relay_partD: "relay_part s = relay_part t \<Longrightarrow> relayRL s = relayRL t" "relay_part s = relay_part t \<Longrightarrow> relayChs s = relayChs t"
  by (simp_all add: relay_part_def)

lemma budget_enqueue: "enqueueRelay e t job = Done s' \<Longrightarrow> relayRL s' = relayRL t"
  by (auto simp: enqueueRelay_def Let_def split: option.splits if_splits)

lemma budget_relay:
  assumes "relay_wf (relayRL s)" "dispatchRelay e s data src = Done s'" "k \<noteq> src"
  shows "relay_window (relayRL s') k = relay_window (relayRL s) k"
proof -
  obtain ok rl where rl: "relay_allow (relayRL s) src (UnixNano (clk e 0)) maxRelaysPerSourcePerSecond = (ok, rl)"
    by force
  have "relay_window rl k = relay_window (relayRL s) k"
    using relay_window_allow [OF assms(1), of src "UnixNano (clk e 0)" maxRelaysPerSourcePerSecond] rl assms(3)
    by (simp split: option.splits)
  then show ?thesis
    using assms(2) rl
    by (auto simp: dispatchRelay_def Let_def budget_enqueue split: option.splits if_splits prod.splits)
qed

section \<open>Batches\<close>

text \<open>The datagrams of a batch, and their handling one by one.\<close>

definition datagram :: "rmsg \<Rightarrow> (env \<times> bytes \<times> udpaddr) list" where
  "datagram m =
     (if mN m < 1 then [] else case mAddr m of None \<Rightarrow> [] | Some a \<Rightarrow> [(mEnv m, take (nat (mN m)) (mBuf m), a)])"

fun datagrams :: "read_ev \<Rightarrow> (env \<times> bytes \<times> udpaddr) list" where
  "datagrams (Batch n ms) = concat (map datagram (take (nat n) ms))"
| "datagrams (ReadError closed) = []"

fun batch_wf :: "read_ev \<Rightarrow> bool" where
  "batch_wf (Batch n ms) \<longleftrightarrow> n \<le> int (length ms) \<and> list_all (\<lambda>m. mN m \<le> int (length (mBuf m))) ms"
| "batch_wf (ReadError closed) \<longleftrightarrow> True"

fun closing :: "bool \<Rightarrow> read_ev \<Rightarrow> bool" where
  "closing down (ReadError closed) \<longleftrightarrow> closed \<or> down"
| "closing down (Batch n ms) \<longleftrightarrow> False"

fun receive :: "externs \<Rightarrow> server \<Rightarrow> (env \<times> bytes \<times> udpaddr) list \<Rightarrow> server" where
  "receive x s [] = s"
| "receive x s ((e, data, remote) # ds) = receive x (handlePacket x e s data remote) ds"

lemma receive_append: "receive x s (ds @ es) = receive x (receive x s ds) es"
  by (induction x s ds rule: receive.induct) simp_all

lemma receive_inv: "server_inv s \<Longrightarrow> server_inv (receive x s ds) \<and> kept s (receive x s ds)"
proof (induction x s ds rule: receive.induct)
  case (2 x s e data remote ds)
  have "server_inv (handlePacket x e s data remote)" "kept s (handlePacket x e s data remote)"
    unfolding handlePacket_def by (rule handlePacketFrom_inv [OF 2(2)], rule handlePacketFrom_kept [OF 2(2)])
  then show ?case using 2(1) kept_trans by auto
qed simp

lemma handleMsg_wf: "mN m \<le> int (length (mBuf m)) \<Longrightarrow> handleMsg x s m = Done (receive x s (datagram m))"
  by (simp add: handleMsg_def datagram_def slice_def nat_le_iff split: option.split)

lemma handleBatch_wf:
  "n \<le> length ms \<Longrightarrow> list_all (\<lambda>m. mN m \<le> int (length (mBuf m))) ms \<Longrightarrow>
    handleBatch x s ms n = Done (receive x s (concat (map datagram (take n ms))))"
  by (induction x s ms n rule: handleBatch.induct) (simp_all add: handleMsg_wf receive_append)

lemma readLoopBatches_wf:
  assumes "server_inv s" "list_all batch_wf evs"
  shows "readLoopBatches x s evs =
    (receive x s (concat (map datagrams (takeWhile (\<lambda>ev. \<not> closing (serverDone s) ev) evs))),
     if list_ex (closing (serverDone s)) evs then ReadClosed else Waiting,
     tl (dropWhile (\<lambda>ev. \<not> closing (serverDone s) ev) evs))"
  using assms
proof (induction x s evs rule: readLoopBatches.induct)
  case (3 x s n ms evs)
  let ?s1 = "receive x s (datagrams (Batch n ms))"
  have b: "handleBatch x s ms (nat n) = Done ?s1"
    using 3(3) by (simp add: handleBatch_wf nat_le_iff)
  have i: "server_inv ?s1" "serverDone ?s1 = serverDone s"
    using receive_inv [OF 3(2)] by (auto simp: kept_def)
  show ?case using 3(1) [OF b i(1)] 3(3) i(2) b by (simp add: receive_append)
qed auto

section \<open>Properties\<close>

text \<open>
  C12: reading in batches is reading one by one.  On any sequence of batches and errors a reader
  handles exactly the datagrams received before its socket is closed or the server shut down, each
  once and in the order received, none of them makes it panic, whatever the bytes, and it returns
  exactly when it meets such an end.
\<close>

theorem reader_transparent:
  assumes "server_inv s" "list_all batch_wf evs"
  shows "readLoop x s evs =
    (list_ex (closing (serverDone s)) evs,
     receive x s (concat (map datagrams (takeWhile (\<lambda>ev. \<not> closing (serverDone s) ev) evs))))
    \<and> recoveredPanics (snd (readLoop x s evs)) = recoveredPanics s \<and> server_inv (snd (readLoop x s evs))"
  using receive_inv [OF assms(1)]
  by (simp add: readLoop.simps readLoopBatches_wf [OF assms] kept_def)

definition exRead :: "bytes \<Rightarrow> rmsg" where
  "exRead d = \<lparr>mN = int (length d), mAddr = Some exAddr, mBuf = d @ [0, 0], mEnv = exEnv 1\<rparr>"

theorem reader_transparent_witness:
  "readLoop exExterns exServer [Batch 2 [exRead [1, 0, 0, 0, 7], exRead [5]], ReadError False, ReadError True, Batch 1 [exRead [9]]] =
   (True, receive exExterns exServer [(exEnv 1, [1, 0, 0, 0, 7], exAddr), (exEnv 1, [5], exAddr)])"
  using reader_transparent [OF exServer_inv,
      of "[Batch 2 [exRead [1, 0, 0, 0, 7], exRead [5]], ReadError False, ReadError True, Batch 1 [exRead [9]]]" exExterns]
  by (simp add: exRead_def datagram_def numeral_2_eq_2)

text \<open>
  C20: relay traffic is charged to the transport it came over.  Whatever ids a packet claims, its
  handling changes the relay budget of one source at most: the node the bridge authenticated, for a
  frame, and the address and port it was received from, for a datagram.
\<close>

theorem relay_charged_to_transport:
  assumes "server_inv s" "src = (if bridgePeer \<noteq> 0 then relaySourceForBridge bridgePeer else relaySourceForUDP (Some remote))"
    "k \<noteq> src"
  shows "relay_window (relayRL (handlePacketFrom x e s data remote bridgePeer)) k = relay_window (relayRL s) k"
proof -
  obtain s' where s': "dispatchPacket x e s data remote bridgePeer = Done s'"
    using dispatchPacket_inv [OF assms(1)] by blast
  have "relay_window (relayRL t) k = relay_window (relayRL s) k" if "dispatchRelay e s body src = Done t" for body t
    by (rule budget_relay [OF server_inv_wf(4) [OF assms(1)] that assms(3)])
  then have "relay_window (relayRL s') k = relay_window (relayRL s) k"
    using s' assms(2)
    by (auto simp: dispatchPacket_def dest!: relay_part_handlers [THEN relay_partD(1)] split: list.splits if_splits)
  then show ?thesis by (simp add: handlePacketFrom_def recoverHandler_def s')
qed

theorem relay_charged_to_transport_witness:
  "relaySourceForUDP (Some (synthAddr 9)) \<noteq> relaySourceForBridge 9 \<and>
   relay_window (relayRL (onFrame exExterns (exEnv 1) exServer 9 [5, 0, 0, 0, 9, 0, 0, 0, 2]))
     (relaySourceForUDP (Some (synthAddr 9))) = None"
proof -
  have d: "relaySourceForUDP (Some (synthAddr 9)) \<noteq> relaySourceForBridge 9"
    by (simp add: relaySourceForUDP_def relaySourceForBridge_def zeroKey_def)
  then show ?thesis
    using relay_charged_to_transport [OF exServer_inv _ d, of 9 "synthAddr 9" exExterns "exEnv 1" "[5, 0, 0, 0, 9, 0, 0, 0, 2]"]
    by (simp add: onFrame_def)
qed

text \<open>
  A registration over the bridge is answered over UDP.  The node named in the frame, which need
  not be the sender, is entered under the synthetic address \<open>192.0.2.1\<close>, and the reply is sent to
  that address: on this path nothing tells the handler that there is no such endpoint.
\<close>

theorem bridge_discover_answered:
  assumes "server_inv s" "4 \<le> length data" "uint32_at data 0 = Some nodeID" "conn s = Some c"
    "\<not> fst (breakerOpen s ''beacon.discover'')" "\<forall>k dst msg. sendOk e k dst msg"
    "discover_allowed e s nodeID" "\<not> discover_full e s nodeID (synthAddr sender)"
  shows "\<exists>reply. outbox (onFrame x e s sender (BeaconMsgDiscover x # data)) = outbox s @ [(synthAddr sender, reply)]
    \<and> nodes_abs (nodes (onFrame x e s sender (BeaconMsgDiscover x # data))) nodeID
        = Some (touch (nodes_abs (nodes s) nodeID) (synthAddr sender) (clk e 2))"
proof -
  have ip: "ipBytes (IP (synthAddr sender)) = Some [192, 0, 2, 1]"
    by (simp add: synthAddr_def ipBytes_def To4_def v4InV6Prefix_def)
  let ?reply = "endpointMsg (BeaconMsgDiscoverReply x) [192, 0, 2, 1] (word_of_int (Port (synthAddr sender)))"
  obtain s' where "handleDiscover x e s data (synthAddr sender) False = Done s'"
      "outbox s' = outbox s @ [(synthAddr sender, ?reply)]"
      "nodes_abs (nodes s') = (nodes_abs (nodes s))(nodeID \<mapsto> touch (nodes_abs (nodes s) nodeID) (synthAddr sender) (clk e 2))"
    by (rule discover_effect [OF assms(1,2,5,3,4) ip, of e x False]) (use assms(6,7,8) in auto)
  then show ?thesis by (simp add: onFrame_def handlePacketFrom_def dispatchPacket_def recoverHandler_def)
qed

theorem bridge_discover_answered_witness:
  "\<exists>reply. outbox (onFrame exExterns (exEnv 1) exServer 9 [1, 0, 0, 0, 7]) = [(synthAddr 9, reply)]"
proof -
  have h: "4 \<le> length [0, 0, 0, 7 :: byte]" "uint32_at [0, 0, 0, 7] 0 = Some 7" "conn exServer = Some exAddr"
      "\<not> fst (breakerOpen exServer ''beacon.discover'')" "\<forall>k dst msg. sendOk (exEnv 1) k dst msg"
      "discover_allowed (exEnv 1) exServer 7" "\<not> discover_full (exEnv 1) exServer 7 (synthAddr 9)"
    by (simp_all add: uint32_at_def slice_def discover_allowed_def discover_allow_def newDiscoverRateLimiter_def
        discover_full_def Upsert_def newNodeMap_def maxBeaconNodes_def nodeShardCount_def rateLimitShards_def
        shardU32_def shardFor_def Let_def)
  then show ?thesis
    using bridge_discover_answered [OF exServer_inv h, of exExterns] by (auto simp: exExterns_def)
qed

end
