(* ===== verification/Registry.thy ===== *)
theory Registry
  imports BeaconState
begin

text \<open>
  \<^verbatim>\<open>registryDiscover\<close> of \<^verbatim>\<open>server.go\<close>: the beacon registers itself with the registry over TCP, in
  frames with a four-byte length, asks for the list of beacons and replaces its peers by it.  The
  surroundings (\<open>reg_env\<close>) are the connection, the JSON codec, the address resolver and the
  conversion from \<^verbatim>\<open>float64\<close> to \<^verbatim>\<open>uint32\<close>; \<open>'f\<close> is the type of JSON numbers.
\<close>

section \<open>Host and port\<close>

fun indexByte :: "string \<Rightarrow> char \<Rightarrow> nat option" where
  "indexByte [] c = None"
| "indexByte (d # s) c = (if d = c then Some 0 else map_option Suc (indexByte s c))"

definition lastIndexByte :: "string \<Rightarrow> char \<Rightarrow> nat option" where
  "lastIndexByte s c = map_option (\<lambda>i. length s - 1 - i) (indexByte (rev s) c)"

text \<open>\<^verbatim>\<open>net.SplitHostPort\<close>; on error host and port are empty.\<close>

definition SplitHostPort :: "string \<Rightarrow> string \<times> string" where
  "SplitHostPort hostport =
     (case lastIndexByte hostport (CHR '':'') of
        None \<Rightarrow> ([], [])
      | Some i \<Rightarrow>
          let port = drop (i + 1) hostport in
          if hostport ! 0 = CHR ''['' then
            (case indexByte hostport (CHR '']'') of
               None \<Rightarrow> ([], [])
             | Some j \<Rightarrow>
                 if j + 1 \<noteq> i \<or> CHR ''['' \<in> set (drop 1 hostport) \<or> CHR '']'' \<in> set (drop (j + 1) hostport)
                 then ([], []) else (take (j - 1) (drop 1 hostport), port))
          else if CHR '':'' \<in> set (take i hostport) \<or> CHR ''['' \<in> set hostport \<or> CHR '']'' \<in> set hostport
          then ([], [])
          else (take i hostport, port))"

section \<open>Messages\<close>

datatype 'f json = JNull | JBool bool | JNumber 'f | JString string | JArray "'f json list" | JObject "(string \<times> 'f json) list"

datatype field = FStr string | FU32 u32

record 'f reg_env =
  dialOk :: bool
  marshal :: "(string \<times> field) list \<Rightarrow> bytes option"
  unmarshal :: "bytes \<Rightarrow> (string \<times> 'f json) list option"
  writeOk :: "nat \<Rightarrow> bool"
  tcpLocal :: "ip option"
  resolveUDP :: "string \<Rightarrow> udpaddr option"
  f2u :: "'f \<Rightarrow> u32"

text \<open>The connection: how often it was written to, the bytes sent, and the bytes the registry will send.\<close>

record regconn =
  writes :: nat
  sent :: bytes
  unread :: bytes

definition connWrite :: "'f reg_env \<Rightarrow> regconn \<Rightarrow> bytes \<Rightarrow> bool \<times> regconn" where
  "connWrite e c b =
     (if writeOk e (writes c) then (True, c\<lparr>writes := writes c + 1, sent := sent c @ b\<rparr>)
      else (False, c\<lparr>writes := writes c + 1\<rparr>))"

definition readFull :: "regconn \<Rightarrow> nat \<Rightarrow> bytes option \<times> regconn" where
  "readFull c n =
     (if length (unread c) < n then (None, c\<lparr>unread := []\<rparr>)
      else (Some (take n (unread c)), c\<lparr>unread := drop n (unread c)\<rparr>))"

definition sendMsg :: "'f reg_env \<Rightarrow> regconn \<Rightarrow> (string \<times> field) list \<Rightarrow> bool \<times> regconn" where
  "sendMsg e c msg =
     (case marshal e msg of
        None \<Rightarrow> (False, c)
      | Some body \<Rightarrow>
          (case connWrite e c (be_PutUint32 (of_nat (length body))) of
             (False, c1) \<Rightarrow> (False, c1)
           | (True, c1) \<Rightarrow> connWrite e c1 body))"

definition maxRegistryMsg :: u32 where
  "maxRegistryMsg = push_bit 20 1"

definition recvMsg :: "'f reg_env \<Rightarrow> regconn \<Rightarrow> (string \<times> 'f json) list option \<times> regconn" where
  "recvMsg e c =
     (case readFull c 4 of
        (None, c1) \<Rightarrow> (None, c1)
      | (Some lenBuf, c1) \<Rightarrow>
          (case be_Uint32 lenBuf of
             None \<Rightarrow> (None, c1)
           | Some n \<Rightarrow>
               if maxRegistryMsg < n then (None, c1)
               else (case readFull c1 (unat n) of
                 (None, c2) \<Rightarrow> (None, c2)
               | (Some body, c2) \<Rightarrow> (unmarshal e body, c2))))"

section \<open>Discovery\<close>

text \<open>The address to register; \<open>None\<close> is the panic on a nil socket.\<close>

definition myAddr :: "'f reg_env \<Rightarrow> server \<Rightarrow> string option" where
  "myAddr e s =
     (if advertiseAddr s \<noteq> [] then Some (advertiseAddr s)
      else case conn s of
        None \<Rightarrow> None
      | Some a \<Rightarrow>
          (case SplitHostPort (UDPAddrString a) of
             (host, port) \<Rightarrow>
               let host1 = (if host = ''::'' \<or> host = ''0.0.0.0'' \<or> host = []
                            then (case tcpLocal e of Some p \<Rightarrow> IPString p | None \<Rightarrow> host) else host)
               in Some (JoinHostPort host1 port)))"

definition regMsg :: "server \<Rightarrow> string \<Rightarrow> (string \<times> field) list" where
  "regMsg s a =
     [(''type'', FStr ''beacon_register''), (''beacon_id'', FU32 (beaconID s)), (''addr'', FStr a)] @
     (if registryAdminToken s \<noteq> [] then [(''admin_token'', FStr (registryAdminToken s))] else [])"

definition listMsg :: "(string \<times> field) list" where
  "listMsg = [(''type'', FStr ''beacon_list'')]"

text \<open>One entry of the list: \<open>None\<close> where the loop continues without a peer.\<close>

definition listedPeer :: "'f reg_env \<Rightarrow> u32 \<Rightarrow> 'f json \<Rightarrow> udpaddr option" where
  "listedPeer e self b =
     (case b of
        JObject bm \<Rightarrow>
          let bid = (case map_of bm ''id'' of Some (JNumber v) \<Rightarrow> f2u e v | _ \<Rightarrow> 0);
              baddr = (case map_of bm ''addr'' of Some (JString a) \<Rightarrow> a | _ \<Rightarrow> [])
          in if bid = self \<or> baddr = [] then None else resolveUDP e baddr
      | _ \<Rightarrow> None)"

fun newPeers :: "'f reg_env \<Rightarrow> u32 \<Rightarrow> 'f json list \<Rightarrow> udpaddr list" where
  "newPeers e self [] = []"
| "newPeers e self (b # bs) =
     (case listedPeer e self b of None \<Rightarrow> newPeers e self bs | Some a \<Rightarrow> a # newPeers e self bs)"

definition beaconsOf :: "(string \<times> 'f json) list \<Rightarrow> 'f json list" where
  "beaconsOf resp = (case map_of resp ''beacons'' of Some (JArray bs) \<Rightarrow> bs | _ \<Rightarrow> [])"

text \<open>The connection is returned as well; \<open>reply\<close> is what the registry sends on it.\<close>

definition registryDiscover :: "'f reg_env \<Rightarrow> bytes \<Rightarrow> server \<Rightarrow> (server \<times> regconn) outcome" where
  "registryDiscover e reply s =
     (let c = \<lparr>writes = 0, sent = [], unread = reply\<rparr> in
      if registryAddr s = [] \<or> beaconID s = 0 then Done (s, c)
      else if \<not> dialOk e then Done (s, c)
      else case myAddr e s of
        None \<Rightarrow> Panicked (s, c)
      | Some a \<Rightarrow>
          (case sendMsg e c (regMsg s a) of
             (False, c1) \<Rightarrow> Done (s, c1)
           | (True, c1) \<Rightarrow>
               (case recvMsg e c1 of
                  (None, c2) \<Rightarrow> Done (s, c2)
                | (Some _, c2) \<Rightarrow>
                    (case sendMsg e c2 listMsg of
                       (False, c3) \<Rightarrow> Done (s, c3)
                     | (True, c3) \<Rightarrow>
                         (case recvMsg e c3 of
                            (None, c4) \<Rightarrow> Done (s, c4)
                          | (Some listResp, c4) \<Rightarrow>
                              Done (s\<lparr>peers := newPeers e (beaconID s) (beaconsOf listResp)\<rparr>, c4))))))"

lemma myAddr_defined: "conn s = Some a \<Longrightarrow> \<exists>m. myAddr e s = Some m"
proof -
  assume "conn s = Some a"
  then have "myAddr e s \<noteq> None" by (simp add: myAddr_def Let_def split: prod.split)
  then show ?thesis by blast
qed

section \<open>Framing\<close>

definition regFrame :: "bytes \<Rightarrow> bytes" where
  "regFrame body = be_PutUint32 (of_nat (length body)) @ body"

lemma recvMsg_frame:
  assumes "length body \<le> 1048576" "unread c = regFrame body @ rest"
  shows "recvMsg e c = (unmarshal e body, c\<lparr>unread := rest\<rparr>)"
proof -
  have n: "unat (of_nat (length body) :: u32) = length body"
    using assms(1) by (simp add: unat_of_nat take_bit_eq_mod)
  have "\<not> maxRegistryMsg < of_nat (length body)"
    using assms(1) n by (simp add: maxRegistryMsg_def word_less_nat_alt push_bit_eq_mult)
  then show ?thesis
    using n by (simp add: recvMsg_def readFull_def assms(2) regFrame_def codec)
qed

lemma sendMsg_ok:
  assumes "marshal e msg = Some body" "\<And>k. writeOk e k"
  shows "sendMsg e c msg = (True, c\<lparr>writes := writes c + 2, sent := sent c @ regFrame body\<rparr>)"
  using assms by (simp add: sendMsg_def connWrite_def regFrame_def)

lemma sendMsg_unread: "sendMsg e c msg = (ok, c') \<Longrightarrow> unread c' = unread c"
  by (auto simp: sendMsg_def connWrite_def split: option.splits if_splits)

lemma recvMsg_inv:
  assumes "recvMsg e c = (Some r, c')"
  obtains body where "unread c = regFrame body @ unread c'" "length body \<le> 1048576" "unmarshal e body = Some r"
proof -
  obtain n where n: "4 \<le> length (unread c)" "be_Uint32 (take 4 (unread c)) = Some n" "\<not> maxRegistryMsg < n"
      "4 + unat n \<le> length (unread c)" "unmarshal e (take (unat n) (drop 4 (unread c))) = Some r"
      "unread c' = drop (unat n) (drop 4 (unread c))"
    using assms by (auto simp: recvMsg_def readFull_def not_less add.commute le_diff_conv2 split: option.splits if_splits)
  let ?body = "take (unat n) (drop 4 (unread c))"
  have len: "length ?body = unat n" using n(4) by simp
  have "be_PutUint32 n = take 4 (unread c)" using be_PutUint32_inv [OF n(2)] by simp
  moreover have "(of_nat (length ?body) :: u32) = n" unfolding len by simp
  ultimately have "regFrame ?body = take 4 (unread c) @ ?body" unfolding regFrame_def by (simp only:)
  then have "unread c = regFrame ?body @ unread c'" unfolding n(6) by (simp only: append_assoc append_take_drop_id)
  moreover have "length ?body \<le> 1048576"
    using n(3) unfolding len by (simp add: maxRegistryMsg_def word_less_nat_alt push_bit_eq_mult not_less)
  ultimately show thesis using n(5) that by blast
qed

lemma newPeers_filter: "newPeers e self bs = List.map_filter (listedPeer e self) bs"
  by (induction bs) (simp_all add: map_filter_simps split: option.split)

lemma newPeers_resolved: "q \<in> set (newPeers e self bs) \<Longrightarrow> \<exists>b. resolveUDP e b = Some q"
  by (induction bs) (auto simp: listedPeer_def Let_def split: option.splits json.splits if_splits)

lemma registryDiscover_changes:
  assumes "registryDiscover e reply s = Done (s', c)" "s' \<noteq> s"
  shows "\<exists>r. s' = s\<lparr>peers := newPeers e (beaconID s) (beaconsOf r)\<rparr>"
  using assms by (auto simp: registryDiscover_def Let_def split: if_splits option.splits prod.splits bool.splits)

section \<open>The registered address\<close>

lemma indexByte_append: "c \<notin> set p \<Longrightarrow> indexByte (p @ c # r) c = Some (length p)"
  by (induction p) auto

lemma lastIndexByte_append: "c \<notin> set r \<Longrightarrow> lastIndexByte (p @ c # r) c = Some (length p)"
  by (simp add: lastIndexByte_def indexByte_append)

lemma SplitHostPort_Join:
  assumes "CHR '':'' \<notin> set port" "CHR ''['' \<notin> set (host @ port)" "CHR '']'' \<notin> set (host @ port)"
  shows "SplitHostPort (JoinHostPort host port) = (host, port)"
proof (cases "CHR '':'' \<in> set host")
  case True
  let ?hp = "(''['' @ host @ '']'') @ CHR '':'' # port"
  have j: "JoinHostPort host port = ?hp" using True by (simp add: JoinHostPort_def)
  have l: "lastIndexByte ?hp (CHR '':'') = Some (length host + 2)"
    using lastIndexByte_append [OF assms(1), of "''['' @ host @ '']''"] by simp
  have i: "indexByte ?hp (CHR '']'') = Some (length host + 1)"
    using indexByte_append [of "CHR '']''" "''['' @ host" "CHR '':'' # port"] assms(3) by simp
  show ?thesis
    unfolding j SplitHostPort_def l using assms i by (simp add: One_nat_def)
next
  case False
  have j: "JoinHostPort host port = host @ CHR '':'' # port" using False by (simp add: JoinHostPort_def)
  have "(host @ CHR '':'' # port) ! 0 \<noteq> CHR ''[''" using assms(2) by (cases host) auto
  then show ?thesis
    unfolding j SplitHostPort_def lastIndexByte_append [OF assms(1)] using assms False by (simp add: One_nat_def)
qed

lemma UDPAddrString_wild:
  assumes "IP a = replicate 4 0 \<or> IP a = replicate 16 0" "Zone a = []"
  shows "SplitHostPort (UDPAddrString a) = (if length (IP a) = 4 then ''0.0.0.0'' else ''::'', itoa (Port a))"
proof -
  have "IPString (replicate 4 0) = ''0.0.0.0''" "IPString (replicate 16 0) = ''::''" by code_simp+
  moreover have "CHR '':'' \<notin> set (itoa (Port a))" "CHR ''['' \<notin> set (itoa (Port a))" "CHR '']'' \<notin> set (itoa (Port a))"
    by (simp_all add: not_digit_itoa digit_def)
  ultimately show ?thesis
    using assms by (auto simp: UDPAddrString_def SplitHostPort_Join)
qed

text \<open>
  What a beacon registers as.  An address set by the operator is used as it is.  Without one, a
  beacon bound to the wildcard address registers the local address of its connection to the registry
  with the port of its UDP socket, and never the wildcard itself.
\<close>

lemma registry_address:
  assumes "conn s = Some a" "Zone a = []" "tcpLocal e = Some p"
    "advertiseAddr s \<noteq> [] \<or> IP a = replicate 4 0 \<or> IP a = replicate 16 0"
  shows "myAddr e s = Some (if advertiseAddr s \<noteq> [] then advertiseAddr s else JoinHostPort (IPString p) (itoa (Port a)))"
proof (cases "advertiseAddr s = []")
  case True
  then have w: "IP a = replicate 4 0 \<or> IP a = replicate 16 0" using assms(4) by simp
  show ?thesis by (simp add: myAddr_def True assms(1,3) UDPAddrString_wild [OF w assms(2)] Let_def)
qed (simp add: myAddr_def)

lemma registryDiscover_exchange:
  assumes "registryAddr s \<noteq> []" "beaconID s \<noteq> 0" "dialOk e" "\<forall>k. writeOk e k" "myAddr e s = Some a"
    "marshal e (regMsg s a) = Some m1" "marshal e listMsg = Some m2" "reply = regFrame b1 @ regFrame b2 @ rest"
    "length b1 \<le> 1048576" "length b2 \<le> 1048576" "unmarshal e b1 = Some r1" "unmarshal e b2 = Some r2"
  shows "\<exists>c. registryDiscover e reply s =
      Done (s\<lparr>peers := List.map_filter (listedPeer e (beaconID s)) (beaconsOf r2)\<rparr>, c)
    \<and> sent c = regFrame m1 @ regFrame m2"
proof -
  let ?c0 = "\<lparr>writes = 0, sent = [], unread = regFrame b1 @ regFrame b2 @ rest\<rparr>"
  let ?c1 = "\<lparr>writes = 2, sent = regFrame m1, unread = regFrame b1 @ regFrame b2 @ rest\<rparr>"
  have w: "\<And>k. writeOk e k" using assms(4) by simp
  have "sendMsg e ?c0 (regMsg s a) = (True, ?c1)" using sendMsg_ok [OF assms(6) w, of ?c0] by simp
  moreover have "recvMsg e ?c1 = (Some r1, ?c1\<lparr>unread := regFrame b2 @ rest\<rparr>)"
    using recvMsg_frame [OF assms(9), of ?c1 "regFrame b2 @ rest" e] assms(11) by simp
  moreover have "sendMsg e (?c1\<lparr>unread := regFrame b2 @ rest\<rparr>) listMsg =
      (True, \<lparr>writes = 4, sent = regFrame m1 @ regFrame m2, unread = regFrame b2 @ rest\<rparr>)"
    using sendMsg_ok [OF assms(7) w, of "?c1\<lparr>unread := regFrame b2 @ rest\<rparr>"] by simp
  moreover have "recvMsg e \<lparr>writes = 4, sent = regFrame m1 @ regFrame m2, unread = regFrame b2 @ rest\<rparr> =
      (Some r2, \<lparr>writes = 4, sent = regFrame m1 @ regFrame m2, unread = rest\<rparr>)"
    using recvMsg_frame [OF assms(10), of "\<lparr>writes = 4, sent = regFrame m1 @ regFrame m2, unread = regFrame b2 @ rest\<rparr>" rest e] assms(12)
    by simp
  ultimately show ?thesis
    using assms(1,2,3,5) by (simp add: registryDiscover_def Let_def assms(8) newPeers_filter)
qed

section \<open>Properties\<close>


definition exReg :: "nat reg_env" where
  "exReg = \<lparr>dialOk = True, marshal = (\<lambda>m. Some [of_nat (length m)]),
     unmarshal = (\<lambda>b. Some (if b = [1] then [] else
       [(''beacons'', JArray [JObject [(''id'', JNumber 1), (''addr'', JString ''a:1'')],
                              JObject [(''id'', JNumber 2), (''addr'', JString ''b:1'')], JNull])])),
     writeOk = (\<lambda>_. True), tcpLocal = None, resolveUDP = (\<lambda>_. Some exAddr), f2u = of_nat\<rparr>"

definition exRegistered :: server where
  "exRegistered = exServer\<lparr>registryAddr := ''r:9'', advertiseAddr := ''c:1''\<rparr>"




end
