(* ===== verification/Lifecycle.thy ===== *)
theory Lifecycle
  imports Packets Registry
begin

text \<open>
  Starting and stopping: \<^verbatim>\<open>EnableCompatWSS\<close>, \<^verbatim>\<open>CloseCompatWSS\<close> and the accessors of the bridge,
  \<^verbatim>\<open>ListenAndServe\<close> up to its goroutines, \<^verbatim>\<open>Close\<close> and \<^verbatim>\<open>ServeHealth\<close> of \<^verbatim>\<open>server.go\<close>, and the limits of
  \<^verbatim>\<open>reuseport_linux.go\<close> and \<^verbatim>\<open>reuseport_other.go\<close>.  A socket is its local address; what binding and
  closing answer are inputs.
\<close>

section \<open>The bridge\<close>

datatype enableError = AlreadyEnabled | CreateFailed wssNewError | StartFailed

text \<open>\<open>bound\<close> is the address \<^verbatim>\<open>net.Listen\<close> binds, \<open>None\<close> on error.\<close>

definition EnableCompatWSS :: "server \<Rightarrow> string \<Rightarrow> key_lookup option \<Rightarrow> string option \<Rightarrow> enableError option \<times> server" where
  "EnableCompatWSS s bindAddr pubKeyLookup bound =
     (if wssServer s \<noteq> None then (Some AlreadyEnabled, s)
      else
        let s1 = (if pubKeyLookup \<noteq> None then SetAuthoritativeKeyLookup s pubKeyLookup else s) in
        case wss_New \<lparr>BindAddr = bindAddr, PubKeyLookup = pubKeyLookup, OnFrameSet = True, AuthTimeout = 0,
                      IdleTimeout = 0, WriteTimeout = 0, MaxPeers = 0\<rparr> of
          Inl err \<Rightarrow> (Some (CreateFailed err), s1)
        | Inr ws \<Rightarrow>
            (case wss_Start ws bound of
               (False, _) \<Rightarrow> (Some StartFailed, s1)
             | (True, ws1) \<Rightarrow> (None, s1\<lparr>wssServer := Some ws1\<rparr>)))"

definition WSSMetrics :: "server \<Rightarrow> wssMetrics" where
  "WSSMetrics s =
     (case wssServer s of
        None \<Rightarrow> \<lparr>mUpgradeOK = 0, mUpgradeFail = 0, mAuthOK = 0, mAuthFail = 0, mFramesIn = 0, mFramesOut = 0,
                 mIdleDisconns = 0, mActivePeers = 0\<rparr>
      | Some w \<Rightarrow> wss_Metrics w)"

definition WSSAddr :: "server \<Rightarrow> string" where
  "WSSAddr s = (case wssServer s of None \<Rightarrow> [] | Some w \<Rightarrow> wss_Addr w)"

text \<open>The closed bridge is returned: its handlers may still be running.\<close>

definition CloseCompatWSS :: "server \<Rightarrow> wss option \<times> server" where
  "CloseCompatWSS s =
     (case wssServer s of None \<Rightarrow> (None, s) | Some w \<Rightarrow> (Some (wss_Close w), s\<lparr>wssServer := None\<rparr>))"

section \<open>Sockets\<close>

definition MaxReusePortShards :: "bool \<Rightarrow> nat" where
  "MaxReusePortShards linux = (if linux then 0 else 1)"

definition readerCount :: "nat \<Rightarrow> bool \<Rightarrow> nat" where
  "readerCount ncpu linux =
     (let readers = (if ncpu * 2 < 2 then 2 else ncpu * 2) in
      if 0 < MaxReusePortShards linux \<and> MaxReusePortShards linux < readers then MaxReusePortShards linux else readers)"

text \<open>\<open>bind i\<close> is the \<open>i\<close>-th \<^verbatim>\<open>listenReusePort\<close>.  The result is the index that failed, with
  the sockets opened so far, or all the sockets.\<close>

fun openSockets :: "(nat \<Rightarrow> udpaddr option) \<Rightarrow> nat \<Rightarrow> nat \<Rightarrow> udpaddr list \<Rightarrow> (nat \<times> udpaddr list) + udpaddr list" where
  "openSockets bind i 0 opened = Inr opened"
| "openSockets bind i (Suc n) opened =
     (case bind i of None \<Rightarrow> Inl (i, opened) | Some c \<Rightarrow> openSockets bind (i + 1) n (opened @ [c]))"

definition sharedPort :: "udpaddr list \<Rightarrow> bool" where
  "sharedPort cs = list_all (\<lambda>c. Port c = Port (hd cs)) (tl cs)"

definition sendSockets :: "udpaddr list \<Rightarrow> udpaddr list" where
  "sendSockets cs = (if sharedPort cs then cs else [hd cs])"

text \<open>
  The process: the server with its sockets, the state of its relay workers (one per queue, with the
  socket each sends from), the bridge's request handlers, closed bridges whose handlers have not
  returned, and the result \<^verbatim>\<open>Close\<close> remembers (\<open>Some None\<close> for no error).
\<close>

record beacon =
  srv :: server
  conns :: "udpaddr list"
  socketsOpen :: bool
  workers :: "(udpaddr \<times> worker) list"
  ready :: bool
  bhandlers :: "handler list"
  oldBridges :: "wss_sys list"
  closeErr :: "nat option option"

definition startWorkers :: "server \<Rightarrow> udpaddr list \<Rightarrow> (udpaddr \<times> worker) list" where
  "startWorkers s socks = map (\<lambda>i. (socks ! (i mod length socks), freshWorker)) [0..<length (relayChs s)]"

text \<open>Up to the start of the readers; \<open>Inl i\<close> is the error of the \<open>i\<close>-th bind.  Closing \<^verbatim>\<open>readyCh\<close> twice panics.\<close>

definition ListenAndServe :: "beacon \<Rightarrow> nat \<Rightarrow> bool \<Rightarrow> (nat \<Rightarrow> udpaddr option) \<Rightarrow> (nat option \<times> beacon) outcome" where
  "ListenAndServe b ncpu linux bind =
     (case openSockets bind 0 (readerCount ncpu linux) [] of
        Inl (i, opened) \<Rightarrow> Done (Some i, b\<lparr>conns := opened, socketsOpen := False\<rparr>)
      | Inr cs \<Rightarrow>
          let b1 = b\<lparr>srv := (srv b)\<lparr>conn := Some (hd cs)\<rparr>, conns := cs, socketsOpen := True\<rparr> in
          if ready b then Panicked (None, b1)
          else Done (None, b1\<lparr>ready := True, workers := startWorkers (srv b1) (sendSockets cs)\<rparr>))"

definition beacon_Addr :: "server \<Rightarrow> udpaddr option" where
  "beacon_Addr s = conn s"

text \<open>\<open>ok i\<close> tells whether closing the \<open>i\<close>-th socket succeeds.\<close>

definition beacon_Close :: "beacon \<Rightarrow> (nat \<Rightarrow> bool) \<Rightarrow> nat option \<times> beacon" where
  "beacon_Close b ok =
     (case closeErr b of
        Some r \<Rightarrow> (r, b)
      | None \<Rightarrow>
          let firstErr = List.find (\<lambda>i. \<not> ok i) [0..<length (conns b)] in
          (firstErr, b\<lparr>srv := (srv b)\<lparr>serverDone := True\<rparr>, socketsOpen := False, closeErr := Some firstErr\<rparr>))"

section \<open>Health\<close>

text \<open>The \<^verbatim>\<open>/healthz\<close> handler: status and body.\<close>

definition healthz :: "server \<Rightarrow> nat \<times> string" where
  "healthz s = (200, ''ok'')"

section \<open>Lemmas\<close>

lemma openSockets_ok:
  "openSockets bind i n opened = Inr cs \<Longrightarrow> length cs = length opened + n \<and> (\<forall>j < n. bind (i + j) = Some (cs ! (length opened + j)))
    \<and> take (length opened) cs = opened"
proof (induction bind i n opened rule: openSockets.induct)
  case (2 bind i n opened)
  then obtain c where c: "bind i = Some c" and o: "openSockets bind (i + 1) n (opened @ [c]) = Inr cs"
    by (auto split: option.splits)
  have ih: "length cs = length opened + 1 + n" "\<forall>j < n. bind (i + 1 + j) = Some (cs ! (length opened + 1 + j))"
      "take (length opened + 1) cs = opened @ [c]"
    using "2.IH" [OF c o] by simp_all
  have "bind (i + j) = Some (cs ! (length opened + j))" if "j < Suc n" for j
  proof (cases j)
    case 0
    have "cs ! length opened = (opened @ [c]) ! length opened" by (metis ih(3) less_add_one nth_take)
    then show ?thesis using 0 c by simp
  next
    case (Suc m)
    then show ?thesis using ih(2) [rule_format, of m] that by (simp add: One_nat_def)
  qed
  moreover have "take (length opened) cs = opened"
    using arg_cong [OF ih(3), of "take (length opened)"] by simp
  ultimately show ?case using ih(1) by simp
qed simp

lemma readerCount_pos: "0 < readerCount ncpu linux"
  by (simp add: readerCount_def MaxReusePortShards_def Let_def)

lemma sendSockets_port: "cs \<noteq> [] \<Longrightarrow> c \<in> set (sendSockets cs) \<Longrightarrow> c \<in> set cs \<and> Port c = Port (hd cs)"
  by (cases cs) (auto simp: sendSockets_def sharedPort_def list_all_iff split: if_splits)

lemma sendSockets_nonempty: "cs \<noteq> [] \<Longrightarrow> sendSockets cs \<noteq> []"
  by (simp add: sendSockets_def)

lemma startWorkers_nth:
  assumes "i < length (relayChs s)" "cs \<noteq> []"
  shows "fst (startWorkers s (sendSockets cs) ! i) \<in> set cs" "Port (fst (startWorkers s (sendSockets cs) ! i)) = Port (hd cs)"
proof -
  let ?ss = "sendSockets cs"
  have "i mod length ?ss < length ?ss" using sendSockets_nonempty [OF assms(2)] by simp
  then have "?ss ! (i mod length ?ss) \<in> set ?ss" by (rule nth_mem)
  then show "fst (startWorkers s ?ss ! i) \<in> set cs" "Port (fst (startWorkers s ?ss ! i)) = Port (hd cs)"
    using sendSockets_port [OF assms(2)] assms(1) by (simp_all add: startWorkers_def)
qed

section \<open>Properties\<close>

text \<open>
  C38: every relayed packet leaves from the port the beacon listens on.  When listening succeeds there
  are as many sockets as readers, the canonical socket is the first one, there is one worker per queue,
  and each worker sends from one of the sockets, with the port of the canonical socket, whether or not
  the platform gave all sockets the same port.
\<close>

theorem workers_send_from_listen_port:
  assumes "ListenAndServe b ncpu linux bind = Done (None, b')"
  shows "length (conns b') = readerCount ncpu linux \<and> conn (srv b') = Some (hd (conns b')) \<and> ready b'
    \<and> (\<forall>i < readerCount ncpu linux. bind i = Some (conns b' ! i))
    \<and> length (workers b') = length (relayChs (srv b'))
    \<and> (\<forall>i < length (relayChs (srv b')). fst (workers b' ! i) \<in> set (conns b') \<and> Port (fst (workers b' ! i)) = Port (hd (conns b')))"
proof -
  obtain cs where cs: "openSockets bind 0 (readerCount ncpu linux) [] = Inr cs"
    and b': "b' = b\<lparr>srv := (srv b)\<lparr>conn := Some (hd cs)\<rparr>, conns := cs, socketsOpen := True, ready := True,
      workers := startWorkers ((srv b)\<lparr>conn := Some (hd cs)\<rparr>) (sendSockets cs)\<rparr>"
    using assms by (auto simp: ListenAndServe_def Let_def split: sum.splits if_splits)
  note o = openSockets_ok [OF cs]
  have ne: "cs \<noteq> []" using o readerCount_pos [of ncpu linux] by auto
  have w: "length (startWorkers s socks) = length (relayChs s)" for s socks by (simp add: startWorkers_def)
  show ?thesis
    using o startWorkers_nth [OF _ ne, of _ "(srv b)\<lparr>conn := Some (hd cs)\<rparr>"] by (simp add: b' w)
qed

definition exIdle :: beacon where
  "exIdle = \<lparr>srv = exServer\<lparr>conn := None\<rparr>, conns = [], socketsOpen = False, workers = [], ready = False, bhandlers = [],
     oldBridges = [], closeErr = None\<rparr>"

text \<open>Two sockets that the platform bound to different ports.\<close>

definition exBind :: "nat \<Rightarrow> udpaddr option" where
  "exBind i = Some (exAddr\<lparr>Port := 9001 + int i\<rparr>)"

theorem workers_send_from_listen_port_witness:
  "\<exists>b'. ListenAndServe exIdle 1 True exBind = Done (None, b') \<and> length (conns b') = 2
     \<and> (\<forall>i < 8. Port (fst (workers b' ! i)) = 9001)"
proof -
  obtain b' where b': "ListenAndServe exIdle 1 True exBind = Done (None, b')" "length (relayChs (srv b')) = 8"
      "Port (hd (conns b')) = 9001" "length (conns b') = 2"
    by (simp add: ListenAndServe_def readerCount_def MaxReusePortShards_def exIdle_def exBind_def Let_def numeral_2_eq_2 One_nat_def)
  then show ?thesis using workers_send_from_listen_port [OF b'(1)] by auto
qed

text \<open>
  The health endpoint does not report the health status.  Whatever \<^verbatim>\<open>SetHealthy\<close> was told, the
  load balancer gets the same answer.
\<close>

lemma healthz_ignores_status: "healthz (SetHealthy s ok) = healthz (SetHealthy s (\<not> ok))"
  by (simp add: healthz_def)

end
