(* ===== verification/System.thy ===== *)
theory System
  imports Lifecycle
begin

text \<open>
  The running process: every goroutine of the beacon as steps on one state.  The readers, the relay
  workers, the request handlers of the bridge, the periodic loops and the calls of the embedding
  program interleave in any order, at the granularity of one packet, one turn of a worker loop, one
  step of a bridge handler or one call.
\<close>

section \<open>Steps\<close>

text \<open>One tick of \<^verbatim>\<open>reapLoop\<close> and of \<^verbatim>\<open>gossipLoop\<close>.\<close>

definition reapTick :: "env \<Rightarrow> server \<Rightarrow> server" where
  "reapTick e s = safely (Done (reapStaleNodes e s))"

definition gossipTick :: "(nodeid fset \<Rightarrow> nodeid list) \<Rightarrow> externs \<Rightarrow> env \<Rightarrow> server \<Rightarrow> server" where
  "gossipTick it x e s = safely (sendGossip it x e s)"

text \<open>One tick of \<^verbatim>\<open>registryDiscoveryLoop\<close>; JSON numbers are \<^verbatim>\<open>float64\<close> bit patterns.\<close>

definition registryTick :: "u64 reg_env \<Rightarrow> bytes \<Rightarrow> server \<Rightarrow> server" where
  "registryTick e reply s =
     safely (case registryDiscover e reply s of Done (s1, c) \<Rightarrow> Done s1 | Panicked (s1, c) \<Rightarrow> Panicked s1)"

text \<open>The frames a step of the bridge hands to \<^verbatim>\<open>OnFrame\<close>.\<close>

fun bridgeFrames :: "externs \<Rightarrow> env \<Rightarrow> server \<Rightarrow> (nodeid \<times> bytes) list \<Rightarrow> server" where
  "bridgeFrames x e s [] = s"
| "bridgeFrames x e s ((sender, frame) # fs) = bridgeFrames x e (onFrame x e s sender frame) fs"

definition newFrames :: "wss \<Rightarrow> wss \<Rightarrow> (nodeid \<times> bytes) list" where
  "newFrames w w' = drop (length (dispatched w)) (dispatched w')"

text \<open>
  \<open>it\<close> is the iteration order of the node table; \<open>P\<close> restricts what the sockets of the workers may
  answer.
\<close>

inductive beacon_step :: "externs \<Rightarrow> (nodeid fset \<Rightarrow> nodeid list) \<Rightarrow> (wenv \<Rightarrow> bool) \<Rightarrow> beacon \<Rightarrow> beacon \<Rightarrow> bool"
  for x it P where
  datagram: "ready b \<Longrightarrow> beacon_step x it P b (b\<lparr>srv := handlePacket x e (srv b) data remote\<rparr>)"
| worker: "i < length (workers b) \<Longrightarrow> workers b ! i = (a, w) \<Longrightarrow> P e \<Longrightarrow> dualStack e = isWildcardIPv6 a \<Longrightarrow>
    workerTurn x i e (srv b) w ev = Some r \<Longrightarrow> workerResume r = (s', w') \<Longrightarrow>
    beacon_step x it P b (b\<lparr>srv := s', workers := (workers b)[i := (a, w')]\<rparr>)"
| reap: "ready b \<Longrightarrow> beacon_step x it P b (b\<lparr>srv := reapTick e (srv b)\<rparr>)"
| gossip: "ready b \<Longrightarrow> beacon_step x it P b (b\<lparr>srv := gossipTick it x e (srv b)\<rparr>)"
| registry: "ready b \<Longrightarrow> beacon_step x it P b (b\<lparr>srv := registryTick re reply (srv b)\<rparr>)"
| notify: "beacon_step x it P b (b\<lparr>srv := snd (NotifyNode e (srv b) nodeID)\<rparr>)"
| command: "beacon_step x it P b (b\<lparr>srv := snd (SendPunchCommand x e 0 (srv b) nodeID ip port)\<rparr>)"
| set_keys: "beacon_step x it P b (b\<lparr>srv := SetAuthoritativeKeyLookup (srv b) fn\<rparr>)"
| set_strict: "beacon_step x it P b (b\<lparr>srv := SetStrictGossip (srv b) v\<rparr>)"
| set_registry: "beacon_step x it P b (b\<lparr>srv := SetRegistry (srv b) str\<rparr>)"
| set_advertise: "beacon_step x it P b (b\<lparr>srv := SetAdvertiseAddr (srv b) str\<rparr>)"
| set_admin: "beacon_step x it P b (b\<lparr>srv := SetRegistryAdminToken (srv b) str\<rparr>)"
| set_breaker: "beacon_step x it P b (b\<lparr>srv := SetBreakerAllow (srv b) br\<rparr>)"
| set_token: "beacon_step x it P b (b\<lparr>srv := SetRequirePunchToken (srv b) v\<rparr>)"
| set_healthy: "beacon_step x it P b (b\<lparr>srv := SetHealthy (srv b) v\<rparr>)"
| set_whitelist: "beacon_step x it P b (b\<lparr>srv := SetPunchWhitelist (srv b) ips\<rparr>)"
| enable: "EnableCompatWSS (srv b) str fn bound = (err, s') \<Longrightarrow>
    beacon_step x it P b (b\<lparr>srv := s', bhandlers := if wssServer (srv b) = None then [] else bhandlers b\<rparr>)"
| disable: "CloseCompatWSS (srv b) = (Some w, s') \<Longrightarrow>
    beacon_step x it P b (b\<lparr>srv := s', bhandlers := [], oldBridges := \<lparr>wsrv = w, handlers = bhandlers b\<rparr> # oldBridges b\<rparr>)"
| bridge: "wssServer (srv b) = Some w \<Longrightarrow> wss_step (edVerify x) \<lparr>wsrv = w, handlers = bhandlers b\<rparr> c' \<Longrightarrow>
    beacon_step x it P b
      (b\<lparr>srv := bridgeFrames x e ((srv b)\<lparr>wssServer := Some (wsrv c')\<rparr>) (newFrames w (wsrv c')), bhandlers := handlers c'\<rparr>)"
| old_bridge: "i < length (oldBridges b) \<Longrightarrow> wss_step (edVerify x) (oldBridges b ! i) c' \<Longrightarrow>
    beacon_step x it P b
      (b\<lparr>srv := bridgeFrames x e (srv b) (newFrames (wsrv (oldBridges b ! i)) (wsrv c')), oldBridges := (oldBridges b)[i := c']\<rparr>)"
| listen: "ListenAndServe b ncpu linux bind = Done (err, b') \<Longrightarrow> beacon_step x it P b b'"
| shutdown: "beacon_Close b ok = (err, b') \<Longrightarrow> beacon_step x it P b b'"

definition beacon_start :: "server \<Rightarrow> beacon" where
  "beacon_start s = \<lparr>srv = s, conns = [], socketsOpen = False, workers = [], ready = False, bhandlers = [], oldBridges = [],
     closeErr = None\<rparr>"

inductive beacon_reach :: "externs \<Rightarrow> (nodeid fset \<Rightarrow> nodeid list) \<Rightarrow> (wenv \<Rightarrow> bool) \<Rightarrow> beacon \<Rightarrow> bool" for x it P where
  start: "ncpu < 2 ^ 32 \<Longrightarrow> beacon_reach x it P (beacon_start (NewWithPeers ncpu resolve bid ps))"
| more: "beacon_reach x it P b \<Longrightarrow> beacon_step x it P b b' \<Longrightarrow> beacon_reach x it P b'"

section \<open>Workers\<close>

text \<open>A batch is not full, and when it is not empty its timer is armed.\<close>

definition worker_ok :: "worker \<Rightarrow> bool" where
  "worker_ok w \<longleftrightarrow> length (msgs w) < relayBatchCap \<and> (msgs w \<noteq> [] \<longrightarrow> timerActive w)"

lemma worker_ok_empty [simp]: "msgs w = [] \<Longrightarrow> worker_ok w"
  by (simp add: worker_ok_def relayBatchCap_def)

text \<open>What a turn of a worker may do to the server.\<close>

definition sent_by :: "wenv \<Rightarrow> server \<Rightarrow> server \<Rightarrow> bool" where
  "sent_by e s s' \<longleftrightarrow> conn s' = conn s \<and> length (relayChs s') = length (relayChs s) \<and> serverDone s' = serverDone s
     \<and> (wssServer s' = wssServer s \<or>
        (\<exists>b dest frame ok. wssServer s = Some b \<and> wssServer s' = Some (snd (WriteFrame b dest frame ok))))
     \<and> ((\<forall>ms. 0 \<le> batchN e ms) \<longrightarrow> recoveredPanics s' = recoveredPanics s)"

lemma sent_by_refl [simp]: "sent_by e s s"
  by (simp add: sent_by_def)

lemma sent_by_updates [simp]:
  "sent_by e s (t\<lparr>outbox := a\<rparr>) = sent_by e s t" "sent_by e s (t\<lparr>relayForwarded := n\<rparr>) = sent_by e s t"
  "sent_by e s (t\<lparr>relayNotFound := n\<rparr>) = sent_by e s t"
  by (simp_all add: sent_by_def)

lemma sent_by_count [simp]: "sent_by e s (countForwarded t n) = sent_by e s t"
  by (simp add: countForwarded_def)

lemma sent_by_queue: "sent_by e (s\<lparr>relayChs := (relayChs s)[i := q]\<rparr>) t \<Longrightarrow> sent_by e s t"
  by (auto simp: sent_by_def)

lemma flush_turn:
  assumes "server_inv s" "workerResume (flush e s w) = (s', w')"
  shows "server_inv s' \<and> msgs w' = [] \<and> sent_by e s s'"
proof (cases "flush e s w")
  case (Done c)
  then show ?thesis
    using assms by (auto simp: workerResume_def flush_def Let_def split: if_splits)
next
  case (Panicked c)
  then show ?thesis
    using assms
    by (auto simp: workerResume_def flush_def Let_def freshWorker_def sent_by_def split: if_splits)
      (meson not_less)
qed

lemma batch_turn:
  assumes "server_inv s" "length (payload job) \<le> maxRelayPayload" "worker_ok w" "workerResume (batchJob x e s w job) = (s', w')"
  shows "server_inv s' \<and> worker_ok w' \<and> sent_by e s s'"
proof (cases "relayRoute x s job")
  case (Some r)
  obtain dst frame where r: "r = (dst, frame)" by force
  have fits: "\<not> outBufCap < length frame" using relayRoute_fits [OF _ assms(2)] Some r by fastforce
  let ?w1 = "w\<lparr>msgs := msgs w @ [(dst, frame)]\<rparr>"
  show ?thesis
  proof (cases "relayBatchCap \<le> length (msgs ?w1)")
    case True
    then have "workerResume (flush e s (?w1\<lparr>timerActive := False\<rparr>)) = (s', w')"
      using assms(4) Some r fits by (simp add: batchJob_def Let_def)
    then show ?thesis using flush_turn [OF assms(1)] by auto
  next
    case False
    then show ?thesis
      using assms Some r fits by (auto simp: batchJob_def Let_def workerResume_def worker_ok_def)
  qed
qed (use assms in \<open>auto simp: batchJob_def workerResume_def\<close>)

lemma job_turn:
  assumes "server_inv s" "length (payload job) \<le> maxRelayPayload" "worker_ok w" "workerResume (workerJob x e s w job) = (s', w')"
  shows "server_inv s' \<and> worker_ok w' \<and> sent_by e s s'"
proof (cases "\<exists>b. wssServer s = Some b \<and> IsConnected b (destID job)")
  case True
  then obtain b where b: "wssServer s = Some b" "IsConnected b (destID job)" by blast
  obtain ok b1 where b1: "WriteFrame b (destID job) (frameDeliver x job) (wssOk e) = (ok, b1)" by force
  have "table_inv b1"
    using table_inv_write [OF server_invD(2) [OF assms(1) b(1)], of "destID job" "frameDeliver x job" "wssOk e"] b1 by simp
  then have "server_inv (s\<lparr>wssServer := Some b1\<rparr>)" by (rule server_inv_wss [OF assms(1)])
  moreover have "sent_by e s (s\<lparr>wssServer := Some b1\<rparr>)" using b(1) b1 by (auto simp: sent_by_def) (metis snd_conv)
  ultimately show ?thesis
    using assms b b1 by (auto simp: workerJob_def Let_def outBufCap_def frame_lengths workerResume_def split: if_splits)
next
  case False
  then have "workerJob x e s w job = batchJob x e s w job" by (auto simp: workerJob_def split: option.splits)
  then show ?thesis using batch_turn [OF assms(1-3)] assms(4) by simp
qed

lemma worker_turn:
  assumes "server_inv s" "i < length (relayChs s)" "worker_ok w" "workerTurn x i e s w ev = Some r" "workerResume r = (s', w')"
  shows "server_inv s' \<and> worker_ok w' \<and> sent_by e s s'"
proof (cases ev)
  case TakeJob
  then obtain job rest where q: "relayChs s ! i = job # rest"
    and r: "r = workerJob x e (s\<lparr>relayChs := (relayChs s)[i := rest]\<rparr>) w job"
    using assms(4) by (auto simp: workerTurn_def split: list.splits)
  note d = queues_ok_dequeue [OF server_invD(1) [OF assms(1)] assms(2) q]
  have "server_inv (s\<lparr>relayChs := (relayChs s)[i := rest]\<rparr>)"
    by (rule server_inv_queues [OF assms(1) d(1)])
  then show ?thesis
    using job_turn [OF _ _ assms(3) assms(5) [unfolded r]] d(2) sent_by_queue by (fastforce simp: job_ok_def)
qed (use assms flush_turn [OF assms(1)] in \<open>auto simp: workerTurn_def split: if_splits\<close>)

section \<open>Invariant\<close>

text \<open>
  The server keeps its invariant; once the beacon is ready it has a socket and one worker per queue;
  the workers' batches are in order; and the bridge and its predecessors keep theirs.
\<close>

definition bridge_ok :: "externs \<Rightarrow> wss option \<Rightarrow> handler list \<Rightarrow> bool" where
  "bridge_ok x w hs \<longleftrightarrow> (case w of None \<Rightarrow> True | Some b \<Rightarrow> wss_inv (edVerify x) \<lparr>wsrv = b, handlers = hs\<rparr>)"

definition beacon_inv :: "externs \<Rightarrow> beacon \<Rightarrow> bool" where
  "beacon_inv x b \<longleftrightarrow>
     server_inv (srv b)
     \<and> (if ready b then conn (srv b) \<noteq> None \<and> length (workers b) = length (relayChs (srv b)) else workers b = [])
     \<and> (\<forall>(a, w) \<in> set (workers b). worker_ok w)
     \<and> bridge_ok x (wssServer (srv b)) (bhandlers b)
     \<and> (\<forall>c \<in> set (oldBridges b). wss_inv (edVerify x) c)"

text \<open>Replacing the server by one that keeps its socket, queues and bridge.\<close>

definition same_frame :: "server \<Rightarrow> server \<Rightarrow> bool" where
  "same_frame s s' \<longleftrightarrow> server_inv s' \<and> conn s' = conn s \<and> length (relayChs s') = length (relayChs s) \<and> wssServer s' = wssServer s"

lemma beacon_inv_srv: "beacon_inv x b \<Longrightarrow> same_frame (srv b) s' \<Longrightarrow> beacon_inv x (b\<lparr>srv := s'\<rparr>)"
  by (auto simp: beacon_inv_def same_frame_def)

lemma kept_same_frame: "kept s s' \<Longrightarrow> server_inv s' \<Longrightarrow> same_frame s s'"
  by (simp add: kept_def same_frame_def)

lemma kept_reap [simp]: "kept s (reapStaleNodes e t) = kept s t"
  by (simp add: reapStaleNodes_eq Let_def)

lemma kept_sendToPeers [simp]: "kept s (sendToPeers e k t msg ps) = kept s t"
  by (induction e k t msg ps rule: sendToPeers.induct) simp_all

lemma sendGossip_Done:
  assumes "server_inv s" "conn s \<noteq> None"
  shows "\<exists>s'. sendGossip it x e s = Done s' \<and> server_inv s' \<and> kept s s'"
  using assms by (simp add: sendGossip_def Let_def)

lemma registryDiscover_Done:
  assumes "conn s \<noteq> None"
  shows "\<exists>ps c. registryDiscover e reply s = Done (s\<lparr>peers := ps\<rparr>, c)"
proof -
  define R where "R = range (\<lambda>ps. s\<lparr>peers := ps\<rparr>)"
  have R: "s \<in> R" "\<And>ps. s\<lparr>peers := ps\<rparr> \<in> R" unfolding R_def by (auto intro!: range_eqI [of _ _ "peers s"])
  obtain m where m: "myAddr e s = Some m" using assms myAddr_defined by blast
  have "\<exists>s' c. registryDiscover e reply s = Done (s', c) \<and> s' \<in> R"
    by (simp add: registryDiscover_def Let_def m R split: option.split prod.split bool.split)
  then show ?thesis unfolding R_def by blast
qed

lemma registryTick_same: "server_inv s \<Longrightarrow> conn s \<noteq> None \<Longrightarrow> same_frame s (registryTick e reply s) \<and> recoveredPanics (registryTick e reply s) = recoveredPanics s"
  using registryDiscover_Done [of s e reply] by (auto simp: registryTick_def safely_def recoverHandler_def same_frame_def)

lemma NotifyNode_kept: "kept s (snd (NotifyNode e s nodeID))"
  by (auto simp: NotifyNode_def WriteToUDP_def split: prod.splits notify_claim.splits if_splits)

lemma bridgeFrames_inv: "server_inv s \<Longrightarrow> server_inv (bridgeFrames x e s fs) \<and> kept s (bridgeFrames x e s fs)"
proof (induction x e s fs rule: bridgeFrames.induct)
  case (2 x e s sender frame fs)
  have "server_inv (onFrame x e s sender frame)" "kept s (onFrame x e s sender frame)"
    unfolding onFrame_def by (rule handlePacketFrom_inv [OF 2(2)], rule handlePacketFrom_kept [OF 2(2)])
  then show ?case using 2(1) kept_trans by auto
qed simp

lemmas setter_defs = SetAuthoritativeKeyLookup_def SetStrictGossip_def SetRegistry_def SetAdvertiseAddr_def
  SetRegistryAdminToken_def SetBreakerAllow_def SetRequirePunchToken_def SetHealthy_def SetPunchWhitelist_def

lemma setters_same_frame:
  assumes "server_inv s"
  shows "same_frame s (SetAuthoritativeKeyLookup s fn)" "same_frame s (SetStrictGossip s v)" "same_frame s (SetRegistry s str)"
    "same_frame s (SetAdvertiseAddr s str)" "same_frame s (SetRegistryAdminToken s str)" "same_frame s (SetBreakerAllow s br)"
    "same_frame s (SetRequirePunchToken s v)" "same_frame s (SetHealthy s v)" "same_frame s (SetPunchWhitelist s ips)"
  using assms by (simp_all add: same_frame_def setter_defs server_inv_def split: prod.split)

lemma wss_inv_New: "wss_New config = Inr w \<Longrightarrow> wss_inv verify \<lparr>wsrv = w, handlers = []\<rparr>"
  using wss_reach_inv [OF wss_reach.start] by blast

lemma wss_inv_listener: "wss_inv verify \<lparr>wsrv = w, handlers = hs\<rparr> \<Longrightarrow> wss_inv verify \<lparr>wsrv = w\<lparr>wlistener := a\<rparr>, handlers = hs\<rparr>"
  using table_inv_cong [of "w\<lparr>wlistener := a\<rparr>" w] handler_ok_mono [of verify w _ "w\<lparr>wlistener := a\<rparr>"]
  by (simp add: wss_inv_def)

lemma enable_inv:
  assumes "server_inv s" "EnableCompatWSS s str fn bound = (err, s')" "wssServer s = None"
  shows "server_inv s' \<and> conn s' = conn s \<and> length (relayChs s') = length (relayChs s) \<and> bridge_ok x (wssServer s') []
    \<and> recoveredPanics s' = recoveredPanics s"
proof -
  let ?s1 = "if fn \<noteq> None then SetAuthoritativeKeyLookup s fn else s"
  have s1: "server_inv ?s1" "conn ?s1 = conn s" "relayChs ?s1 = relayChs s" "wssServer ?s1 = None" "recoveredPanics ?s1 = recoveredPanics s"
    using assms(1,3) setters_same_frame(1) [OF assms(1), of fn] by (auto simp: same_frame_def SetAuthoritativeKeyLookup_def)
  let ?cfg = "\<lparr>BindAddr = str, PubKeyLookup = fn, OnFrameSet = True, AuthTimeout = 0, IdleTimeout = 0, WriteTimeout = 0, MaxPeers = 0\<rparr>"
  note eqs = EnableCompatWSS_def wss_Start_def Let_def assms(3)
  show ?thesis
  proof (cases "wss_New ?cfg")
    case (Inl err)
    then have "s' = ?s1" using assms(2) by (simp add: eqs)
    then show ?thesis using s1 by (simp only: bridge_ok_def option.case)
  next
    case (Inr w)
    show ?thesis
    proof (cases bound)
      case None
      then have "s' = ?s1" using assms(2) Inr by (simp add: eqs)
      then show ?thesis using s1 by (simp only: bridge_ok_def option.case)
    next
      case (Some a)
      let ?w = "w\<lparr>wlistener := Some a\<rparr>"
      have i: "wss_inv (edVerify x) \<lparr>wsrv = ?w, handlers = []\<rparr>"
        by (rule wss_inv_listener [OF wss_inv_New [OF Inr]])
      then have t: "table_inv ?w" using wss_invD(1) [OF i] by simp
      have "s' = ?s1\<lparr>wssServer := Some ?w\<rparr>" using Some assms(2) Inr by (simp add: eqs)
      then show ?thesis using s1 server_inv_wss [OF s1(1) t] i by (simp add: bridge_ok_def)
    qed
  qed
qed

lemma beacon_invD:
  assumes "beacon_inv x b"
  shows "server_inv (srv b)" "ready b \<Longrightarrow> conn (srv b) \<noteq> None" "length (workers b) \<le> length (relayChs (srv b))"
    "i < length (workers b) \<Longrightarrow> worker_ok (snd (workers b ! i))"
    "bridge_ok x (wssServer (srv b)) (bhandlers b)"
    "i < length (oldBridges b) \<Longrightarrow> wss_inv (edVerify x) (oldBridges b ! i)"
  using assms nth_mem [of i "workers b"] nth_mem [of i "oldBridges b"]
  by (simp_all add: beacon_inv_def case_prod_beta split: if_splits)

lemma bridge_ok_write:
  "bridge_ok x (Some w) hs \<Longrightarrow> bridge_ok x (Some (snd (WriteFrame w dest frame ok))) hs"
  using wss_step_inv [OF wss_step.send, of "edVerify x" "\<lparr>wsrv = w, handlers = hs\<rparr>" dest frame ok]
  by (simp add: bridge_ok_def)

lemma worker_step_inv:
  assumes "beacon_inv x b" "i < length (workers b)" "workers b ! i = (a, w)"
    "workerTurn x i e (srv b) w ev = Some r" "workerResume r = (s', w')"
  shows "beacon_inv x (b\<lparr>srv := s', workers := (workers b)[i := (a, w')]\<rparr>)"
    "(\<forall>ms. 0 \<le> batchN e ms) \<Longrightarrow> recoveredPanics s' = recoveredPanics (srv b)"
proof -
  note D = beacon_invD [OF assms(1)]
  have t: "server_inv s'" "worker_ok w'" "sent_by e (srv b) s'"
    using worker_turn [OF D(1) _ _ assms(4,5)] D(3) D(4) [OF assms(2)] assms(2,3) by auto
  have "bridge_ok x (wssServer s') (bhandlers b)"
    using t(3) D(5) bridge_ok_write unfolding sent_by_def by metis
  moreover have "\<forall>(a, w) \<in> set ((workers b)[i := (a, w')]). worker_ok w"
    using assms(1) t(2) set_update_subset_insert [of "workers b" i "(a, w')"] by (auto simp: beacon_inv_def)
  ultimately show "beacon_inv x (b\<lparr>srv := s', workers := (workers b)[i := (a, w')]\<rparr>)"
    using assms(1,2) t(1,3) by (auto simp: beacon_inv_def sent_by_def split: if_splits)
  show "(\<forall>ms. 0 \<le> batchN e ms) \<Longrightarrow> recoveredPanics s' = recoveredPanics (srv b)"
    using t(3) by (simp add: sent_by_def)
qed

lemma bridge_step_inv:
  assumes "beacon_inv x b" "wssServer (srv b) = Some w" "wss_step (edVerify x) \<lparr>wsrv = w, handlers = bhandlers b\<rparr> c'"
    "s' = bridgeFrames x e ((srv b)\<lparr>wssServer := Some (wsrv c')\<rparr>) fs"
  shows "beacon_inv x (b\<lparr>srv := s', bhandlers := handlers c'\<rparr>)" "recoveredPanics s' = recoveredPanics (srv b)"
proof -
  note D = beacon_invD [OF assms(1)]
  have i: "wss_inv (edVerify x) c'"
    using wss_step_inv [OF assms(3)] D(5) by (simp add: bridge_ok_def assms(2))
  then have "server_inv ((srv b)\<lparr>wssServer := Some (wsrv c')\<rparr>)"
    by (intro server_inv_wss D(1) wss_invD(1))
  then have f: "server_inv s'" "kept ((srv b)\<lparr>wssServer := Some (wsrv c')\<rparr>) s'"
    using bridgeFrames_inv unfolding assms(4) by auto
  show "recoveredPanics s' = recoveredPanics (srv b)" using f(2) by (simp add: kept_def)
  have "wss_inv (edVerify x) \<lparr>wsrv = wsrv c', handlers = handlers c'\<rparr>" using i by (cases c') simp
  then have "bridge_ok x (wssServer s') (handlers c')" using f(2) by (simp add: bridge_ok_def kept_def)
  then show "beacon_inv x (b\<lparr>srv := s', bhandlers := handlers c'\<rparr>)"
    using assms(1) f by (simp add: beacon_inv_def kept_def)
qed

lemma old_bridge_step_inv:
  assumes "beacon_inv x b" "i < length (oldBridges b)" "wss_step (edVerify x) (oldBridges b ! i) c'"
    "s' = bridgeFrames x e (srv b) fs"
  shows "beacon_inv x (b\<lparr>srv := s', oldBridges := (oldBridges b)[i := c']\<rparr>)" "recoveredPanics s' = recoveredPanics (srv b)"
proof -
  note D = beacon_invD [OF assms(1)]
  have i: "wss_inv (edVerify x) c'" by (rule wss_step_inv [OF assms(3) D(6) [OF assms(2)]])
  have f: "server_inv s'" "kept (srv b) s'" using bridgeFrames_inv [OF D(1)] unfolding assms(4) by auto
  show "recoveredPanics s' = recoveredPanics (srv b)" using f(2) by (simp add: kept_def)
  have "\<forall>c \<in> set ((oldBridges b)[i := c']). wss_inv (edVerify x) c"
    using assms(1) i set_update_subset_insert [of "oldBridges b" i c'] by (auto simp: beacon_inv_def)
  then show "beacon_inv x (b\<lparr>srv := s', oldBridges := (oldBridges b)[i := c']\<rparr>)"
    using assms(1) f by (auto simp: beacon_inv_def kept_def split: if_splits)
qed

lemma disable_inv:
  assumes "beacon_inv x b" "CloseCompatWSS (srv b) = (Some w, s')"
  shows "beacon_inv x (b\<lparr>srv := s', bhandlers := [], oldBridges := \<lparr>wsrv = w, handlers = bhandlers b\<rparr> # oldBridges b\<rparr>)"
    "recoveredPanics s' = recoveredPanics (srv b)"
proof -
  obtain v where v: "wssServer (srv b) = Some v" "w = wss_Close v" "s' = (srv b)\<lparr>wssServer := None\<rparr>"
    using assms(2) by (auto simp: CloseCompatWSS_def split: option.splits)
  have "wss_inv (edVerify x) \<lparr>wsrv = w, handlers = bhandlers b\<rparr>"
    using wss_step_inv [OF wss_step.shutdown, of "edVerify x" "\<lparr>wsrv = v, handlers = bhandlers b\<rparr>"] beacon_invD(5) [OF assms(1)] v
    by (simp add: bridge_ok_def)
  moreover have "server_inv s'" using beacon_invD(1) [OF assms(1)] by (simp add: v(3) server_inv_def)
  ultimately show "beacon_inv x (b\<lparr>srv := s', bhandlers := [], oldBridges := \<lparr>wsrv = w, handlers = bhandlers b\<rparr> # oldBridges b\<rparr>)"
    using assms(1) by (auto simp: beacon_inv_def bridge_ok_def v(3) split: if_splits)
  show "recoveredPanics s' = recoveredPanics (srv b)" by (simp add: v(3))
qed

lemma listen_inv:
  assumes "beacon_inv x b" "ListenAndServe b ncpu linux bind = Done (err, b')"
  shows "beacon_inv x b'" "recoveredPanics (srv b') = recoveredPanics (srv b)"
  using assms
  by (auto simp: ListenAndServe_def beacon_inv_def Let_def startWorkers_def freshWorker_def split: sum.splits if_splits)

lemma close_inv:
  assumes "beacon_inv x b" "beacon_Close b ok = (err, b')"
  shows "beacon_inv x b'" "recoveredPanics (srv b') = recoveredPanics (srv b)"
  using assms by (auto simp: beacon_Close_def beacon_inv_def Let_def split: option.splits)

lemma kept_step:
  assumes "beacon_inv x b" "server_inv s'" "kept (srv b) s'"
  shows "beacon_inv x (b\<lparr>srv := s'\<rparr>)" "recoveredPanics s' = recoveredPanics (srv b)"
  using beacon_inv_srv [OF assms(1) kept_same_frame [OF assms(3,2)]] assms(3) by (simp_all add: kept_def)

lemma setters_panics [simp]:
  "recoveredPanics (SetAuthoritativeKeyLookup s fn) = recoveredPanics s" "recoveredPanics (SetStrictGossip s v) = recoveredPanics s"
  "recoveredPanics (SetRegistry s str) = recoveredPanics s" "recoveredPanics (SetAdvertiseAddr s str) = recoveredPanics s"
  "recoveredPanics (SetRegistryAdminToken s str) = recoveredPanics s" "recoveredPanics (SetBreakerAllow s br) = recoveredPanics s"
  "recoveredPanics (SetRequirePunchToken s v) = recoveredPanics s" "recoveredPanics (SetHealthy s v) = recoveredPanics s"
  "recoveredPanics (SetPunchWhitelist s ips) = recoveredPanics s"
  by (simp_all add: setter_defs split: prod.split)

lemmas setters_step = setters_same_frame [OF beacon_invD(1), THEN beacon_inv_srv [rotated]]

lemma safely_Done: "safely (Done s) = s"
  by (simp add: safely_def recoverHandler_def)

lemma beacon_step_inv:
  assumes "beacon_step x it P b b'" "beacon_inv x b"
  shows "beacon_inv x b' \<and> ((\<forall>e. P e \<longrightarrow> (\<forall>ms. 0 \<le> batchN e ms)) \<longrightarrow> recoveredPanics (srv b') = recoveredPanics (srv b))"
  using assms
proof cases
  case (datagram e data remote)
  show ?thesis
    unfolding datagram(1) handlePacket_def
    using kept_step [OF assms(2) handlePacketFrom_inv handlePacketFrom_kept] beacon_invD(1) [OF assms(2)] by simp
next
  case (worker i a w e ev r s' w')
  then show ?thesis using worker_step_inv [OF assms(2) worker(2,3,6,7)] by simp
next
  case (reap e)
  then show ?thesis
    using kept_step [OF assms(2) reapStaleNodes_inv [OF beacon_invD(1) [OF assms(2)]]] by (simp add: reapTick_def safely_Done)
next
  case (gossip e)
  obtain s' where "sendGossip it x e (srv b) = Done s'" "server_inv s'" "kept (srv b) s'"
    using sendGossip_Done [OF beacon_invD(1,2) [OF assms(2)]] gossip(2) by blast
  then show ?thesis using kept_step [OF assms(2)] gossip(1) by (simp add: gossipTick_def safely_Done)
next
  case (registry re reply)
  then show ?thesis
    using registryTick_same [OF beacon_invD(1,2) [OF assms(2)]] beacon_inv_srv [OF assms(2)] by simp
next
  case (notify e nodeID)
  then show ?thesis
    using kept_step [OF assms(2) NotifyNode_inv [OF beacon_invD(1) [OF assms(2)]] NotifyNode_kept] by simp
next
  case (command e nodeID ip port)
  let ?s = "snd (SendPunchCommand x e 0 (srv b) nodeID ip port)"
  have "server_inv ?s" "kept (srv b) ?s" using beacon_invD(1) [OF assms(2)] by simp_all
  then show ?thesis using kept_step [OF assms(2), of ?s] command(1) by simp
next
  case (enable str fn bound err s')
  show ?thesis
  proof (cases "wssServer (srv b) = None")
    case True
    then show ?thesis
      using enable_inv [OF beacon_invD(1) [OF assms(2)] enable(2) True, of x] assms(2) enable(1)
      by (simp add: beacon_inv_def)
  next
    case False
    then obtain w where w: "wssServer (srv b) = Some w" by blast
    then have "s' = srv b" using enable(2) by (simp add: EnableCompatWSS_def)
    then show ?thesis using w enable(1) assms(2) by simp
  qed
next
  case (disable w s')
  then show ?thesis using disable_inv [OF assms(2) disable(2)] by simp
next
  case (bridge w c' e)
  then show ?thesis using bridge_step_inv [OF assms(2) bridge(2,3) refl] by simp
next
  case (old_bridge i c' e)
  then show ?thesis using old_bridge_step_inv [OF assms(2) old_bridge(2,3) refl] by simp
next
  case (listen ncpu linux bind err)
  then show ?thesis using listen_inv [OF assms(2)] by simp
next
  case (shutdown ok err)
  then show ?thesis using close_inv [OF assms(2)] by simp
qed (simp_all add: setters_step [OF assms(2)])

lemma beacon_reach_inv:
  "beacon_reach x it P b \<Longrightarrow>
    beacon_inv x b \<and> ((\<forall>e. P e \<longrightarrow> (\<forall>ms. 0 \<le> batchN e ms)) \<longrightarrow> recoveredPanics (srv b) = 0)"
proof (induction rule: beacon_reach.induct)
  case (start ncpu resolve bid ps)
  have "wssServer (NewWithPeers ncpu resolve bid ps) = None" "recoveredPanics (NewWithPeers ncpu resolve bid ps) = 0"
    by (simp_all add: NewWithPeers_def Let_def)
  then show ?case using New_inv [OF start] by (simp add: beacon_inv_def beacon_start_def bridge_ok_def)
next
  case (more b b')
  then show ?case using beacon_step_inv [OF more(2)] by simp
qed

section \<open>Progress of a worker\<close>

text \<open>A worker on its own: it takes the \<open>n\<close> first jobs of its queue, and then its timer fires if it is armed.\<close>

fun workerTakes :: "externs \<Rightarrow> nat \<Rightarrow> wenv \<Rightarrow> nat \<Rightarrow> server \<times> worker \<Rightarrow> server \<times> worker" where
  "workerTakes x i e 0 c = c"
| "workerTakes x i e (Suc n) (s, w) =
     (case workerTurn x i e s w TakeJob of None \<Rightarrow> (s, w) | Some r \<Rightarrow> workerTakes x i e n (workerResume r))"

definition workerSettles :: "externs \<Rightarrow> nat \<Rightarrow> wenv \<Rightarrow> server \<Rightarrow> worker \<Rightarrow> server \<times> worker" where
  "workerSettles x i e s w =
     (case workerTakes x i e (length (relayChs s ! i)) (s, w) of
        (s1, w1) \<Rightarrow> (case workerTurn x i e s1 w1 TimerFired of None \<Rightarrow> (s1, w1) | Some r \<Rightarrow> workerResume r))"

lemma flush_queues: "flush e s w = Done (s', w') \<Longrightarrow> relayChs s' = relayChs s"
  by (auto simp: flush_def Let_def split: if_splits)

lemma batchJob_queues: "batchJob x e s w job = Done (s', w') \<Longrightarrow> relayChs s' = relayChs s"
  by (auto simp: batchJob_def Let_def flush_queues split: option.splits if_splits)

lemma workerTakes_sends:
  assumes "server_inv s" "i < length (relayChs s)" "worker_ok w" "healthy e" "relayChs s ! i = q"
    "\<forall>job \<in> set q. \<not> wssConnected s (destID job)"
  shows "\<exists>s' w' sent. workerTakes x i e (length q) (s, w) = (s', w') \<and> relayChs s' = (relayChs s)[i := []]
    \<and> outbox s' = outbox s @ sent \<and> sent @ msgs w' = msgs w @ routed x s q \<and> worker_ok w'"
  using assms
proof (induction q arbitrary: s w)
  case Nil
  then have "relayChs s = (relayChs s)[i := []]" by (metis list_update_id)
  with Nil show ?case by (intro exI [of _ s] exI [of _ w] exI [of _ "[]"]) simp
next
  case (Cons job q)
  let ?s = "s\<lparr>relayChs := (relayChs s)[i := q]\<rparr>"
  have b: "batch_ok e" using Cons.prems(4) by (simp add: healthy_def)
  have l: "length (payload job) \<le> maxRelayPayload"
    using queues_ok_dequeue(2) [OF server_invD(1) [OF Cons.prems(1)] Cons.prems(2,5)] by (simp add: job_ok_def)
  obtain s1 w1 sent where j: "batchJob x e ?s w job = Done (s1, w1)" "same_routes ?s s1" "outbox s1 = outbox ?s @ sent"
      "sent @ msgs w1 = msgs w @ routed x ?s [job]"
    using batchJob_sends [OF b l, of x ?s w] Cons.prems(4) by blast
  have r: "same_routes s s1" "routed x ?s js = routed x s js" for js
    using j(2) same_routes_routed [of s ?s] by (simp_all add: same_routes_def)
  have "workerJob x e ?s w job = Done (s1, w1)"
    using workerJob_batched [of ?s job x e w] Cons.prems(6) j(1) by (simp add: wssConnected_def)
  then have t: "workerTurn x i e s w TakeJob = Some (Done (s1, w1))" by (simp add: workerTurn_def Cons.prems(5))
  have inv: "server_inv s1" "worker_ok w1"
    using worker_turn [OF Cons.prems(1-3) t] by (simp_all add: workerResume_def)
  have q: "relayChs s1 = (relayChs s)[i := q]" using batchJob_queues [OF j(1)] by simp
  have "\<exists>s' w' sent'. workerTakes x i e (length q) (s1, w1) = (s', w') \<and> relayChs s' = (relayChs s1)[i := []]
      \<and> outbox s' = outbox s1 @ sent' \<and> sent' @ msgs w' = msgs w1 @ routed x s1 q \<and> worker_ok w'"
    using Cons.prems(2,4,6) q same_routes_wss [OF r(1)] by (intro Cons.IH inv) auto
  then obtain s' w' sent' where ih: "workerTakes x i e (length q) (s1, w1) = (s', w')" "relayChs s' = (relayChs s1)[i := []]"
      "outbox s' = outbox s1 @ sent'" "sent' @ msgs w' = msgs w1 @ routed x s1 q" "worker_ok w'" by blast
  have "workerTakes x i e (length (job # q)) (s, w) = (s', w')" using ih(1) by (simp add: t workerResume_def)
  moreover have "outbox s' = outbox s @ sent @ sent'" using ih(3) j(3) by simp
  moreover have "routed x s (job # q) = routed x s [job] @ routed x s q" by (simp split: option.split)
  then have "(sent @ sent') @ msgs w' = msgs w @ routed x s (job # q)"
    using ih(4) j(4) same_routes_routed [OF r(1), of x q] by (simp add: r(2) del: routed_simps)
  ultimately show ?case using ih(2,5) q by auto
qed

lemma workerSettles_sends:
  assumes "server_inv s" "i < length (relayChs s)" "worker_ok w" "healthy e" "\<forall>job \<in> set (relayChs s ! i). \<not> wssConnected s (destID job)"
  obtains s' w' where "workerSettles x i e s w = (s', w')" "relayChs s' = (relayChs s)[i := []]" "msgs w' = []"
    "outbox s' = outbox s @ msgs w @ routed x s (relayChs s ! i)"
proof -
  obtain s1 w1 sent where t: "workerTakes x i e (length (relayChs s ! i)) (s, w) = (s1, w1)" "relayChs s1 = (relayChs s)[i := []]"
      "outbox s1 = outbox s @ sent" "sent @ msgs w1 = msgs w @ routed x s (relayChs s ! i)" "worker_ok w1"
    using workerTakes_sends [OF assms(1-4) refl assms(5), of x] by blast
  show thesis
  proof (cases "timerActive w1")
    case False
    then have "msgs w1 = []" using t(5) by (auto simp: worker_ok_def)
    then show thesis using t False by (intro that [of s1 w1]) (simp_all add: workerSettles_def workerTurn_def)
  next
    case True
    let ?w = "w1\<lparr>timerActive := False\<rparr>"
    obtain s2 where f: "flush e s1 ?w = Done (s2, ?w\<lparr>msgs := []\<rparr>)" "outbox s2 = outbox s1 @ msgs w1"
      using flush_sends [of e s1 ?w] assms(4) by (auto simp: healthy_def)
    then show thesis
      using t True flush_queues [OF f(1)]
      by (intro that [of s2 "?w\<lparr>msgs := []\<rparr>"]) (simp_all add: workerSettles_def workerTurn_def workerResume_def)
  qed
qed

section \<open>An example run\<close>

text \<open>A run: the server is created, listens, and receives the registration of node 7 and a packet for it.\<close>

definition exListening :: beacon where
  "exListening = (case ListenAndServe (beacon_start (NewWithPeers 8 (\<lambda>_. None) 1 [])) 1 True exBind of Done (_, b) \<Rightarrow> b | Panicked (_, b) \<Rightarrow> b)"

definition exRegisters :: beacon where
  "exRegisters = exListening\<lparr>srv := handlePacket exExterns (exEnv 1) (srv exListening) [1, 0, 0, 0, 7] exAddr\<rparr>"

lemma exListening_Done:
  "ListenAndServe (beacon_start (NewWithPeers 8 (\<lambda>_. None) 1 [])) 1 True exBind = Done (None, exListening)"
  unfolding exListening_def
  by (simp add: ListenAndServe_def beacon_start_def exBind_def readerCount_def MaxReusePortShards_def numeral_2_eq_2 One_nat_def Let_def)

lemma exListening_reach: "beacon_reach exExterns it P exListening"
  by (rule beacon_reach.more [OF beacon_reach.start beacon_step.listen [OF exListening_Done]]) simp

lemma exListening_ready: "ready exListening"
  by (simp add: exListening_def ListenAndServe_def beacon_start_def exBind_def readerCount_def MaxReusePortShards_def numeral_2_eq_2 One_nat_def Let_def)

lemma exRegisters_reach: "beacon_reach exExterns it P exRegisters"
  unfolding exRegisters_def by (intro beacon_reach.more [OF exListening_reach] beacon_step.datagram exListening_ready)

lemma exListening_srv: "srv exListening = exServer\<lparr>conn := Some (exAddr\<lparr>Port := 9001\<rparr>)\<rparr>"
  by (simp add: exListening_def exServer_def ListenAndServe_def beacon_start_def exBind_def readerCount_def MaxReusePortShards_def
      numeral_2_eq_2 One_nat_def Let_def)

lemma exRegisters_fields:
  "ready exRegisters" "Snapshot (nodes (srv exRegisters)) 7 = Some exAddr" "relayRL (srv exRegisters) = newRelayRateLimiter"
  "relayChs (srv exRegisters) = replicate 8 []" "relayChCap (srv exRegisters) = 65536" "wssServer (srv exRegisters) = None"
  "breakerAllow (srv exRegisters) = None" "dstNodes (srv exRegisters) = {||}"
  using exListening_ready
  by (simp_all add: exRegisters_def exListening_srv handlePacket_def handlePacketFrom_def dispatchPacket_def exExterns_def
      recoverHandler_def handleDiscover_def breakerOpen_def uint32_at_def slice_def PublicKeySize_def discoverUpsert_def discover_allow_def
      newDiscoverRateLimiter_def rateLimitShards_def shardU32_def discoverReply_def WriteToUDP_def Upsert_def shardFor_def newNodeMap_def
      nodeShardCount_def maxBeaconNodes_def Snapshot_def exAddr_def ipBytes_def To4_def Let_def)

end
