(* ===== verification/RelayConc.thy ===== *)
theory RelayConc
  imports System
begin

text \<open>
  The relay path of \<^verbatim>\<open>server.go\<close> at the granularity of its accesses to shared state.  A reader runs
  \<^verbatim>\<open>dispatchRelay\<close> in two steps, the checks and the attempt to queue; a worker runs \<^verbatim>\<open>relayWorkerLoop\<close>
  in one step per read of \<^verbatim>\<open>s.wssServer\<close>, of the node table, and of the tables that select the frame.
  Between any two steps every other goroutine may run.  Without interference the steps are the turns
  of theory \<open>Relay\<close>.
\<close>

section \<open>Readers\<close>

text \<open>
  \<^verbatim>\<open>dispatchRelay\<close> up to the copy of the payload: \<open>None\<close> when the packet is dropped, otherwise the
  job to queue.
\<close>

definition admitRelay :: "env \<Rightarrow> server \<Rightarrow> bytes \<Rightarrow> relaySourceKey \<Rightarrow> (relayJob option \<times> server) outcome" where
  "admitRelay e s data src =
     (if length data < 8 then Done (None, s)
      else if fst (breakerOpen s ''beacon.relay'') then Done (None, s\<lparr>relayDropped := relayDropped s + 1\<rparr>)
      else case (uint32_at data 0, uint32_at data 4) of
        (Some sender, Some dest) \<Rightarrow>
          if \<not> relayKnown s dest then Done (None, s\<lparr>relayNotFound := relayNotFound s + 1\<rparr>)
          else (case relay_allow (relayRL s) src (UnixNano (clk e 0)) maxRelaysPerSourcePerSecond of
            (allowed, rl) \<Rightarrow>
              let s1 = s\<lparr>relayRL := rl\<rparr>; body = drop 8 data in
              if \<not> allowed then Done (None, s1)
              else if maxRelayPayload < length body then Done (None, s1)
              else Done (Some \<lparr>senderID = sender, destID = dest, payload = body\<rparr>, s1))
      | _ \<Rightarrow> Panicked (None, s))"

text \<open>
  A reader has a backlog of relay packets, without their type byte, with the source each is charged
  to; the first is the one being handled, and \<open>admitted\<close> is its job once it has passed the checks.
\<close>

record rreader =
  backlog :: "(bytes \<times> relaySourceKey) list"
  admitted :: "relayJob option"

definition readerPanics :: "server \<Rightarrow> rreader \<Rightarrow> server \<times> rreader" where
  "readerPanics s r = (s\<lparr>recoveredPanics := recoveredPanics s + 1\<rparr>, r\<lparr>admitted := None, backlog := tl (backlog r)\<rparr>)"

definition readerStep :: "env \<Rightarrow> server \<Rightarrow> rreader \<Rightarrow> (server \<times> rreader) option" where
  "readerStep e s r =
     (case admitted r of
        None \<Rightarrow>
          (case backlog r of
             [] \<Rightarrow> None
           | (data, src) # rest \<Rightarrow>
               Some (case admitRelay e s data src of
                  Done (None, s1) \<Rightarrow> (s1, r\<lparr>backlog := rest\<rparr>)
                | Done (Some job, s1) \<Rightarrow> (s1, r\<lparr>admitted := Some job\<rparr>)
                | Panicked (_, s1) \<Rightarrow> readerPanics s1 r))
      | Some job \<Rightarrow>
          Some (case enqueueRelay e s job of
             Done s1 \<Rightarrow> (s1, r\<lparr>admitted := None, backlog := tl (backlog r)\<rparr>)
           | Panicked s1 \<Rightarrow> readerPanics s1 r))"

section \<open>Workers\<close>

text \<open>
  Where a worker is: at its \<^verbatim>\<open>select\<close>; with a job it took; past the test of \<^verbatim>\<open>s.wssServer\<close> for nil; past
  \<^verbatim>\<open>IsConnected\<close>, before \<^verbatim>\<open>WriteFrame\<close>; before \<^verbatim>\<open>Snapshot\<close>; with the result of \<^verbatim>\<open>Snapshot\<close>; in \<^verbatim>\<open>flush\<close> (the
  flag tells whether it returns afterwards); or returned.
\<close>

datatype wphase =
    Select | Took relayJob | SeenBridge relayJob | OnBridge relayJob | OffBridge relayJob
  | Looked relayJob "udpaddr option" | Flushing bool | Stopped

record rworker =
  wpc :: wphase
  wsock :: udpaddr
  batch :: worker

text \<open>The frame of tiers 1 to 3, from the earlier lookup and the tables as they are now.\<close>

definition shapeJob :: "externs \<Rightarrow> server \<Rightarrow> relayJob \<Rightarrow> udpaddr option \<Rightarrow> (udpaddr \<times> bytes) option" where
  "shapeJob x s job found =
     (case found of
        Some localAddr \<Rightarrow>
          Some (localAddr, if destID job |\<in>| dstNodes s then frameDeliverDest x job else frameDeliver x job)
      | None \<Rightarrow>
          (case fmlookup (peerNodes s) (destID job) of
             None \<Rightarrow> None
           | Some peerAddr \<Rightarrow> Some (peerAddr, frameForward x job)))"

text \<open>A panic unwinds the loop: the batch is lost, and the loop resumes unless the server is closed.\<close>

definition unwind :: "server \<Rightarrow> rworker \<Rightarrow> server \<times> rworker" where
  "unwind s r =
     (s\<lparr>recoveredPanics := recoveredPanics s + 1\<rparr>,
      r\<lparr>batch := freshWorker, wpc := if serverDone s then Stopped else Select\<rparr>)"

definition appendJob :: "rworker \<Rightarrow> udpaddr \<times> bytes \<Rightarrow> rworker" where
  "appendJob r m =
     (let w = (batch r)\<lparr>msgs := msgs (batch r) @ [m]\<rparr> in
      if relayBatchCap \<le> length (msgs w) then r\<lparr>batch := w\<lparr>timerActive := False\<rparr>, wpc := Flushing False\<rparr>
      else r\<lparr>batch := w\<lparr>timerActive := True\<rparr>, wpc := Select\<rparr>)"

definition selectStep :: "nat \<Rightarrow> worker_ev \<Rightarrow> server \<Rightarrow> rworker \<Rightarrow> (server \<times> rworker) option" where
  "selectStep i ev s r =
     (case ev of
        TakeJob \<Rightarrow>
          (case relayChs s ! i of
             [] \<Rightarrow> None
           | job # rest \<Rightarrow> Some (s\<lparr>relayChs := (relayChs s)[i := rest]\<rparr>, r\<lparr>wpc := Took job\<rparr>))
      | TimerFired \<Rightarrow>
          if timerActive (batch r) then Some (s, r\<lparr>batch := (batch r)\<lparr>timerActive := False\<rparr>, wpc := Flushing False\<rparr>)
          else None
      | Shutdown \<Rightarrow> if serverDone s then Some (s, r\<lparr>wpc := Flushing True\<rparr>) else None)"

definition bridgeWrite :: "externs \<Rightarrow> wenv \<Rightarrow> server \<Rightarrow> rworker \<Rightarrow> relayJob \<Rightarrow> server \<times> rworker" where
  "bridgeWrite x e s r job =
     (if outBufCap < length (frameDeliver x job) then unwind s r
      else case wssServer s of
        None \<Rightarrow> unwind s r
      | Some b \<Rightarrow>
          (case WriteFrame b (destID job) (frameDeliver x job) (wssOk e) of
             (ok, b1) \<Rightarrow>
               let s1 = s\<lparr>wssServer := Some b1\<rparr> in
               (if ok then s1\<lparr>relayForwarded := relayForwarded s1 + 1\<rparr> else s1\<lparr>relayNotFound := relayNotFound s1 + 1\<rparr>,
                r\<lparr>wpc := Select\<rparr>)))"

definition workerStep :: "externs \<Rightarrow> nat \<Rightarrow> wenv \<Rightarrow> worker_ev \<Rightarrow> server \<Rightarrow> rworker \<Rightarrow> (server \<times> rworker) option" where
  "workerStep x i e ev s r =
     (case wpc r of
        Select \<Rightarrow> selectStep i ev s r
      | Took job \<Rightarrow> Some (s, r\<lparr>wpc := if wssServer s = None then OffBridge job else SeenBridge job\<rparr>)
      | SeenBridge job \<Rightarrow>
          Some (case wssServer s of
             None \<Rightarrow> unwind s r
           | Some b \<Rightarrow> (s, r\<lparr>wpc := if IsConnected b (destID job) then OnBridge job else OffBridge job\<rparr>))
      | OnBridge job \<Rightarrow> Some (bridgeWrite x e s r job)
      | OffBridge job \<Rightarrow> Some (s, r\<lparr>wpc := Looked job (Snapshot (nodes s) (destID job))\<rparr>)
      | Looked job found \<Rightarrow>
          Some (case shapeJob x s job found of
             None \<Rightarrow> (s\<lparr>relayNotFound := relayNotFound s + 1\<rparr>, r\<lparr>wpc := Select\<rparr>)
           | Some (dst, frame) \<Rightarrow> if outBufCap < length frame then unwind s r else (s, appendJob r (dst, frame)))
      | Flushing stop \<Rightarrow>
          Some (case flush e s (batch r) of
             Done (s1, w1) \<Rightarrow> (s1, r\<lparr>batch := w1, wpc := if stop then Stopped else Select\<rparr>)
           | Panicked (s1, w1) \<Rightarrow> unwind s1 r)
      | Stopped \<Rightarrow> None)"

section \<open>Everything else\<close>

text \<open>The steps of the other goroutines and of the embedding program that leave the bridge in place.\<close>

inductive other_step :: "externs \<Rightarrow> (nodeid fset \<Rightarrow> nodeid list) \<Rightarrow> server \<Rightarrow> server \<Rightarrow> bool" for x it where
  packet: "data = [] \<or> hd data \<noteq> BeaconMsgRelay x \<Longrightarrow> other_step x it s (handlePacketFrom x e s data remote p)"
| reap: "other_step x it s (reapTick e s)"
| gossip: "other_step x it s (gossipTick it x e s)"
| registry: "other_step x it s (registryTick re reply s)"
| notify: "other_step x it s (snd (NotifyNode e s nodeID))"
| command: "other_step x it s (snd (SendPunchCommand x e 0 s nodeID ip port))"
| set_keys: "other_step x it s (SetAuthoritativeKeyLookup s fn)"
| set_strict: "other_step x it s (SetStrictGossip s v)"
| set_registry: "other_step x it s (SetRegistry s str)"
| set_advertise: "other_step x it s (SetAdvertiseAddr s str)"
| set_admin: "other_step x it s (SetRegistryAdminToken s str)"
| set_breaker: "other_step x it s (SetBreakerAllow s br)"
| set_token: "other_step x it s (SetRequirePunchToken s v)"
| set_healthy: "other_step x it s (SetHealthy s v)"
| set_whitelist: "other_step x it s (SetPunchWhitelist s ips)"
| shutdown: "other_step x it s (s\<lparr>serverDone := True\<rparr>)"

text \<open>
  The system.  \<open>closes\<close> tells whether the embedding program may call \<^verbatim>\<open>CloseCompatWSS\<close> while the
  workers run.  It starts in any state the beacon reaches once it listens.
\<close>

record rsys =
  rsrv :: server
  rreaders :: "rreader list"
  rworkers :: "rworker list"
  rhandlers :: "handler list"

inductive relay_step :: "externs \<Rightarrow> (nodeid fset \<Rightarrow> nodeid list) \<Rightarrow> (wenv \<Rightarrow> bool) \<Rightarrow> bool \<Rightarrow> rsys \<Rightarrow> rsys \<Rightarrow> bool"
  for x it P closes where
  receive: "j < length (rreaders c) \<Longrightarrow> backlog (rreaders c ! j) = [] \<Longrightarrow> admitted (rreaders c ! j) = None \<Longrightarrow>
    relay_step x it P closes c (c\<lparr>rreaders := (rreaders c)[j := (rreaders c ! j)\<lparr>backlog := ms\<rparr>]\<rparr>)"
| reader: "j < length (rreaders c) \<Longrightarrow> readerStep e (rsrv c) (rreaders c ! j) = Some (s', r') \<Longrightarrow>
    relay_step x it P closes c (c\<lparr>rsrv := s', rreaders := (rreaders c)[j := r']\<rparr>)"
| worker: "i < length (rworkers c) \<Longrightarrow> P e \<Longrightarrow> dualStack e = isWildcardIPv6 (wsock (rworkers c ! i)) \<Longrightarrow>
    workerStep x i e ev (rsrv c) (rworkers c ! i) = Some (s', r') \<Longrightarrow>
    relay_step x it P closes c (c\<lparr>rsrv := s', rworkers := (rworkers c)[i := r']\<rparr>)"
| other: "other_step x it (rsrv c) s' \<Longrightarrow> relay_step x it P closes c (c\<lparr>rsrv := s'\<rparr>)"
| bridge: "wssServer (rsrv c) = Some w \<Longrightarrow> wss_step (edVerify x) \<lparr>wsrv = w, handlers = rhandlers c\<rparr> b \<Longrightarrow>
    relay_step x it P closes c (c\<lparr>rsrv := (rsrv c)\<lparr>wssServer := Some (wsrv b)\<rparr>, rhandlers := handlers b\<rparr>)"
| enable: "wssServer (rsrv c) = None \<Longrightarrow> EnableCompatWSS (rsrv c) str fn bound = (err, s') \<Longrightarrow>
    relay_step x it P closes c (c\<lparr>rsrv := s', rhandlers := []\<rparr>)"
| disable: "closes \<Longrightarrow> CloseCompatWSS (rsrv c) = (w, s') \<Longrightarrow> relay_step x it P closes c (c\<lparr>rsrv := s', rhandlers := []\<rparr>)"

definition relay_start :: "beacon \<Rightarrow> nat \<Rightarrow> rsys" where
  "relay_start b n =
     \<lparr>rsrv = srv b, rreaders = replicate n \<lparr>backlog = [], admitted = None\<rparr>,
      rworkers = map (\<lambda>(a, w). \<lparr>wpc = Select, wsock = a, batch = w\<rparr>) (workers b), rhandlers = bhandlers b\<rparr>"

inductive relay_reach :: "externs \<Rightarrow> (nodeid fset \<Rightarrow> nodeid list) \<Rightarrow> (wenv \<Rightarrow> bool) \<Rightarrow> bool \<Rightarrow> rsys \<Rightarrow> bool"
  for x it P closes where
  start: "beacon_reach x it P b \<Longrightarrow> ready b \<Longrightarrow> relay_reach x it P closes (relay_start b n)"
| more: "relay_reach x it P closes c \<Longrightarrow> relay_step x it P closes c c' \<Longrightarrow> relay_reach x it P closes c'"

section \<open>Without interference\<close>

lemma dispatchRelay_admit:
  "dispatchRelay e s data src =
     (case admitRelay e s data src of
        Done (None, s1) \<Rightarrow> Done s1
      | Done (Some job, s1) \<Rightarrow> enqueueRelay e s1 job
      | Panicked (_, s1) \<Rightarrow> Panicked s1)"
  by (simp add: dispatchRelay_def admitRelay_def Let_def split: option.split prod.split)

lemma shapeJob_Snapshot: "shapeJob x s job (Snapshot (nodes s) (destID job)) = relayRoute x s job"
  by (simp add: shapeJob_def relayRoute_def)

text \<open>The steps of one worker, with the sockets answering as \<open>e\<close> says.\<close>

definition worker_runs :: "externs \<Rightarrow> nat \<Rightarrow> wenv \<Rightarrow> server \<times> rworker \<Rightarrow> server \<times> rworker \<Rightarrow> bool" where
  "worker_runs x i e = (\<lambda>(s, r) c'. \<exists>ev. workerStep x i e ev s r = Some c')\<^sup>*\<^sup>*"

lemma worker_runs_refl: "worker_runs x i e c c"
  by (simp add: worker_runs_def)

lemma worker_runs_step: "workerStep x i e ev s r = Some c \<Longrightarrow> worker_runs x i e c d \<Longrightarrow> worker_runs x i e (s, r) d"
  unfolding worker_runs_def by (rule converse_rtranclp_into_rtranclp) auto

lemmas worker_step_last = worker_runs_step [OF _ worker_runs_refl]

definition resumed :: "rworker \<Rightarrow> bool \<Rightarrow> (server \<times> worker) outcome \<Rightarrow> server \<times> rworker" where
  "resumed r stop res =
     (case res of
        Done (s, w) \<Rightarrow> (s, r\<lparr>batch := w, wpc := if stop then Stopped else Select\<rparr>)
      | Panicked (s, w) \<Rightarrow> unwind s r)"

lemma unwind_pc [simp]: "unwind s (r\<lparr>wpc := p\<rparr>) = unwind s r" "unwind s (r\<lparr>batch := w\<rparr>) = unwind s r"
  by (simp_all add: unwind_def)

lemma resumed_pc [simp]: "resumed (r\<lparr>wpc := p\<rparr>) stop res = resumed r stop res" "resumed (r\<lparr>batch := w\<rparr>) stop res = resumed r stop res"
  by (simp_all add: resumed_def split: outcome.split)

lemma resumed_resume: "resumed r stop res = (s', r') \<Longrightarrow> workerResume res = (s', batch r')"
  by (auto simp: resumed_def workerResume_def unwind_def split: outcome.splits)

lemma flushing_runs:
  "wpc r = Flushing stop \<Longrightarrow> worker_runs x i e (s, r) (resumed r stop (flush e s (batch r)))"
  by (rule worker_step_last) (simp add: workerStep_def resumed_def split: outcome.split)

lemma batchJob_runs:
  assumes "wpc r = OffBridge job"
  shows "worker_runs x i e (s, r) (resumed r False (batchJob x e s (batch r) job))"
proof (rule worker_runs_step)
  let ?r = "r\<lparr>wpc := Looked job (Snapshot (nodes s) (destID job))\<rparr>"
  show "workerStep x i e TakeJob s r = Some (s, ?r)" using assms by (simp add: workerStep_def)
  show "worker_runs x i e (s, ?r) (resumed r False (batchJob x e s (batch r) job))"
  proof (cases "relayRoute x s job")
    case None
    then show ?thesis
      by (intro worker_step_last) (cases r, simp add: workerStep_def shapeJob_Snapshot batchJob_def resumed_def)
  next
    case (Some m)
    obtain dst frame where m: "m = (dst, frame)" by force
    let ?w = "(batch r)\<lparr>msgs := msgs (batch r) @ [m]\<rparr>"
    show ?thesis
    proof (cases "\<not> outBufCap < length frame \<and> relayBatchCap \<le> length (msgs ?w)")
      case True
      let ?f = "r\<lparr>batch := ?w\<lparr>timerActive := False\<rparr>, wpc := Flushing False\<rparr>"
      have "workerStep x i e TakeJob s ?r = Some (s, ?f)"
        using Some m True by (simp add: workerStep_def shapeJob_Snapshot appendJob_def Let_def)
      moreover have "batchJob x e s (batch r) job = flush e s (batch ?f)"
        using Some m True by (simp add: batchJob_def Let_def)
      ultimately show ?thesis
        using flushing_runs [of ?f False x i e s] by (auto intro: worker_runs_step)
    next
      case False
      then show ?thesis
        using Some m
        by (intro worker_step_last) (auto simp: workerStep_def shapeJob_Snapshot appendJob_def batchJob_def resumed_def Let_def)
    qed
  qed
qed

lemma workerJob_runs:
  assumes "wpc r = Took job"
  shows "worker_runs x i e (s, r) (resumed r False (workerJob x e s (batch r) job))"
proof (cases "wssServer s")
  case None
  then show ?thesis
    using assms batchJob_runs [of "r\<lparr>wpc := OffBridge job\<rparr>" job x i e s]
    by (intro worker_runs_step [of x i e TakeJob s r "(s, r\<lparr>wpc := OffBridge job\<rparr>)"]) (simp_all add: workerStep_def workerJob_def)
next
  case (Some b)
  let ?seen = "r\<lparr>wpc := SeenBridge job\<rparr>"
  have 1: "workerStep x i e TakeJob s r = Some (s, ?seen)" using assms Some by (simp add: workerStep_def)
  show ?thesis
  proof (cases "IsConnected b (destID job)")
    case True
    let ?on = "r\<lparr>wpc := OnBridge job\<rparr>"
    have 2: "workerStep x i e TakeJob s ?seen = Some (s, ?on)" using True Some by (simp add: workerStep_def)
    have 3: "workerStep x i e TakeJob s ?on = Some (resumed r False (workerJob x e s (batch r) job))"
      using True Some
      by (cases r) (simp add: workerStep_def bridgeWrite_def workerJob_def resumed_def unwind_def Let_def split: prod.split)
    show ?thesis by (rule worker_runs_step [OF 1 worker_runs_step [OF 2 worker_step_last [OF 3]]])
  next
    case False
    let ?off = "r\<lparr>wpc := OffBridge job\<rparr>"
    have 2: "workerStep x i e TakeJob s ?seen = Some (s, ?off)" using False Some by (simp add: workerStep_def)
    have "worker_runs x i e (s, ?off) (resumed r False (workerJob x e s (batch r) job))"
      using False Some batchJob_runs [of ?off job x i e s] by (simp add: workerJob_def)
    then show ?thesis by (rule worker_runs_step [OF 1 worker_runs_step [OF 2]])
  qed
qed

lemma workerTurn_runs:
  assumes "wpc r = Select" "workerTurn x i e s (batch r) ev = Some res"
  shows "\<exists>stop. worker_runs x i e (s, r) (resumed r stop res)"
proof (cases ev)
  case TakeJob
  then obtain job rest where q: "relayChs s ! i = job # rest"
    and res: "res = workerJob x e (s\<lparr>relayChs := (relayChs s)[i := rest]\<rparr>) (batch r) job"
    using assms(2) by (auto simp: workerTurn_def split: list.splits)
  have "workerStep x i e TakeJob s r = Some (s\<lparr>relayChs := (relayChs s)[i := rest]\<rparr>, r\<lparr>wpc := Took job\<rparr>)"
    using assms(1) q by (simp add: workerStep_def selectStep_def)
  then show ?thesis
    using workerJob_runs [of "r\<lparr>wpc := Took job\<rparr>" job x i e] res by (auto intro!: exI [of _ False] intro: worker_runs_step)
next
  case TimerFired
  let ?r = "r\<lparr>batch := (batch r)\<lparr>timerActive := False\<rparr>, wpc := Flushing False\<rparr>"
  have "workerStep x i e TimerFired s r = Some (s, ?r)" "res = flush e s (batch ?r)"
    using assms TimerFired by (auto simp: workerStep_def selectStep_def workerTurn_def split: if_splits)
  then show ?thesis
    using flushing_runs [of ?r False x i e s] by (auto intro!: exI [of _ False] intro: worker_runs_step)
next
  case Shutdown
  let ?r = "r\<lparr>wpc := Flushing True\<rparr>"
  have "workerStep x i e Shutdown s r = Some (s, ?r)" "res = flush e s (batch ?r)"
    using assms Shutdown by (auto simp: workerStep_def selectStep_def workerTurn_def split: if_splits)
  then show ?thesis
    using flushing_runs [of ?r True x i e s] by (auto intro!: exI [of _ True] intro: worker_runs_step)
qed

section \<open>Invariant\<close>

definition job_fits :: "relayJob \<Rightarrow> bool" where
  "job_fits job \<longleftrightarrow> length (payload job) \<le> maxRelayPayload"

fun pcJob :: "wphase \<Rightarrow> relayJob option" where
  "pcJob (Took job) = Some job"
| "pcJob (SeenBridge job) = Some job"
| "pcJob (OnBridge job) = Some job"
| "pcJob (OffBridge job) = Some job"
| "pcJob (Looked job found) = Some job"
| "pcJob _ = None"

text \<open>Where the worker has seen a bridge that it is about to use.\<close>

fun atBridge :: "wphase \<Rightarrow> bool" where
  "atBridge (SeenBridge job) = True"
| "atBridge (OnBridge job) = True"
| "atBridge _ = False"

fun isFlushing :: "wphase \<Rightarrow> bool" where
  "isFlushing (Flushing stop) = True"
| "isFlushing _ = False"

definition rworker_ok :: "rworker \<Rightarrow> bool" where
  "rworker_ok r \<longleftrightarrow>
     (if isFlushing (wpc r) then length (msgs (batch r)) \<le> relayBatchCap else worker_ok (batch r))
     \<and> (\<forall>job. pcJob (wpc r) = Some job \<longrightarrow> job_fits job)"

definition rreader_ok :: "rreader \<Rightarrow> bool" where
  "rreader_ok r \<longleftrightarrow> (\<forall>job. admitted r = Some job \<longrightarrow> job_fits job \<and> backlog r \<noteq> [])"

definition relay_inv :: "externs \<Rightarrow> bool \<Rightarrow> rsys \<Rightarrow> bool" where
  "relay_inv x closes c \<longleftrightarrow>
     server_inv (rsrv c) \<and> conn (rsrv c) \<noteq> None \<and> length (rworkers c) = length (relayChs (rsrv c))
     \<and> list_all rworker_ok (rworkers c) \<and> list_all rreader_ok (rreaders c)
     \<and> bridge_ok x (wssServer (rsrv c)) (rhandlers c)
     \<and> (closes \<or> list_all (\<lambda>r. atBridge (wpc r) \<longrightarrow> wssServer (rsrv c) \<noteq> None) (rworkers c))"

subsection \<open>Other goroutines\<close>

definition quiet :: "server \<Rightarrow> server \<Rightarrow> bool" where
  "quiet s s' \<longleftrightarrow> server_inv s' \<and> relayChs s' = relayChs s \<and> conn s' = conn s \<and> wssServer s' = wssServer s
     \<and> recoveredPanics s' = recoveredPanics s"

lemma kept_quiet: "kept s s' \<Longrightarrow> server_inv s' \<Longrightarrow> relay_part s' = relay_part s \<Longrightarrow> quiet s s'"
  by (simp add: quiet_def kept_def relay_part_def)

lemma packet_quiet:
  assumes "server_inv s" "data = [] \<or> hd data \<noteq> BeaconMsgRelay x"
  shows "quiet s (handlePacketFrom x e s data remote p)"
proof (rule kept_quiet [OF handlePacketFrom_kept [OF assms(1)] handlePacketFrom_inv [OF assms(1)]])
  obtain s' where s': "dispatchPacket x e s data remote p = Done s'" using dispatchPacket_inv [OF assms(1)] by blast
  then have "relay_part s' = relay_part s"
    using assms(2) by (auto simp: dispatchPacket_def dest: relay_part_handlers split: list.splits if_splits)
  then show "relay_part (handlePacketFrom x e s data remote p) = relay_part s"
    by (simp add: handlePacketFrom_def recoverHandler_def s')
qed

lemma reap_quiet: "server_inv s \<Longrightarrow> quiet s (reapTick e s)"
  using reapStaleNodes_inv [of s e] by (simp add: reapTick_def safely_Done quiet_def) (simp add: reapStaleNodes_eq Let_def)

lemma sendToPeers_part [simp]: "relay_part (sendToPeers e k t msg ps) = relay_part t"
  by (induction e k t msg ps rule: sendToPeers.induct) simp_all

lemma gossip_quiet:
  assumes "server_inv s" "conn s \<noteq> None"
  shows "quiet s (gossipTick it x e s)"
proof -
  obtain s' where s': "sendGossip it x e s = Done s'" "server_inv s'" "kept s s'" using sendGossip_Done [OF assms] by blast
  moreover have "relay_part s' = relay_part s" using s'(1) assms(2) by (auto simp: sendGossip_def Let_def)
  ultimately show ?thesis by (simp add: gossipTick_def safely_Done kept_quiet)
qed

lemma registry_quiet: "server_inv s \<Longrightarrow> conn s \<noteq> None \<Longrightarrow> quiet s (registryTick e reply s)"
  using registryDiscover_Done [of s e reply] by (auto simp: registryTick_def safely_Done quiet_def)

lemma notify_quiet: "server_inv s \<Longrightarrow> quiet s (snd (NotifyNode e s nodeID))"
  using NotifyNode_inv [of s e nodeID] NotifyNode_kept [of s e nodeID]
  by (intro kept_quiet) (auto simp: NotifyNode_def WriteToUDP_def split: prod.splits notify_claim.splits if_splits)

lemma command_quiet: "server_inv s \<Longrightarrow> quiet s (snd (SendPunchCommand x e k s nodeID ip port))"
  by (intro kept_quiet) simp_all

lemma setters_quiet:
  assumes "server_inv s"
  shows "quiet s (SetAuthoritativeKeyLookup s fn)" "quiet s (SetStrictGossip s v)" "quiet s (SetRegistry s str)"
    "quiet s (SetAdvertiseAddr s str)" "quiet s (SetRegistryAdminToken s str)" "quiet s (SetBreakerAllow s br)"
    "quiet s (SetRequirePunchToken s v)" "quiet s (SetHealthy s v)" "quiet s (SetPunchWhitelist s ips)" "quiet s (s\<lparr>serverDone := True\<rparr>)"
  using setters_same_frame [OF assms] assms
  by (simp_all add: same_frame_def quiet_def) (simp_all add: setter_defs split: prod.split)

lemma other_step_quiet: "other_step x it s s' \<Longrightarrow> server_inv s \<Longrightarrow> conn s \<noteq> None \<Longrightarrow> quiet s s'"
  by (induction rule: other_step.induct)
    (simp_all only: packet_quiet reap_quiet gossip_quiet registry_quiet notify_quiet command_quiet setters_quiet simp_thms)

subsection \<open>Readers and workers\<close>

lemma admitRelay_inv:
  assumes "server_inv s"
  obtains job s' where "admitRelay e s data src = Done (job, s')" "server_inv s'" "kept s s'" "relayChs s' = relayChs s"
    "\<And>j. job = Some j \<Longrightarrow> job_fits j"
proof (cases "length data < 8 \<or> fst (breakerOpen s ''beacon.relay'')")
  case True
  then show thesis
    using assms by (intro that [of None "if length data < 8 then s else s\<lparr>relayDropped := relayDropped s + 1\<rparr>"])
      (auto simp: admitRelay_def)
next
  case False
  obtain a d where ad: "uint32_at data 0 = Some a" "uint32_at data 4 = Some d"
    using uint32_at_defined [of 0 data] uint32_at_defined [of 4 data] False by auto
  obtain ok rl where rl: "relay_allow (relayRL s) src (UnixNano (clk e 0)) maxRelaysPerSourcePerSecond = (ok, rl)" by force
  have s1: "server_inv (s\<lparr>relayRL := rl\<rparr>)"
    using relay_wf_allow [OF server_inv_wf(4) [OF assms]] rl by (intro server_inv_relayRL [OF assms]) (metis snd_conv)
  show thesis
  proof (cases "relayKnown s d")
    case known: True
    then show thesis
      using s1 False
      by (intro that [of "if ok \<and> length (drop 8 data) \<le> maxRelayPayload then Some \<lparr>senderID = a, destID = d, payload = drop 8 data\<rparr> else None"
            "s\<lparr>relayRL := rl\<rparr>"]) (auto simp: admitRelay_def ad rl Let_def job_fits_def split: if_splits)
  next
    case unknown: False
    then show thesis
      using assms False by (intro that [of None "s\<lparr>relayNotFound := relayNotFound s + 1\<rparr>"]) (auto simp: admitRelay_def ad)
  qed
qed

lemma readerStep_inv:
  assumes "server_inv s" "rreader_ok r" "readerStep e s r = Some (s', r')"
  shows "server_inv s' \<and> rreader_ok r' \<and> kept s s'"
proof (cases "admitted r")
  case None
  then obtain data src rest where b: "backlog r = (data, src) # rest"
    using assms(3) by (auto simp: readerStep_def split: list.splits)
  obtain job s1 where a: "admitRelay e s data src = Done (job, s1)" "server_inv s1" "kept s s1" "\<And>j. job = Some j \<Longrightarrow> job_fits j"
    by (rule admitRelay_inv [OF assms(1), of e data src]) blast
  show ?thesis
    using assms(3) a None b by (auto simp: readerStep_def rreader_ok_def split: option.splits)
next
  case (Some job)
  then have f: "length (payload job) \<le> maxRelayPayload" using assms(2) by (simp add: rreader_ok_def job_fits_def)
  obtain s1 where s1: "enqueueRelay e s job = Done s1" "server_inv s1" using enqueueRelay_inv [OF assms(1) f] by blast
  then show ?thesis
    using assms(3) Some kept_enqueue [OF s1(1), of s] by (auto simp: readerStep_def rreader_ok_def)
qed

text \<open>What a step of a worker does to the server, and when it panics.\<close>

definition worker_eff :: "server \<Rightarrow> server \<Rightarrow> bool" where
  "worker_eff s s' \<longleftrightarrow> conn s' = conn s \<and> length (relayChs s') = length (relayChs s)
     \<and> (wssServer s' = wssServer s \<or>
        (\<exists>b dest frame ok. wssServer s = Some b \<and> wssServer s' = Some (snd (WriteFrame b dest frame ok))))"

lemma worker_eff_refl [simp]: "worker_eff s s"
  by (simp add: worker_eff_def)

lemma worker_eff_updates [simp]:
  "worker_eff s (t\<lparr>recoveredPanics := n\<rparr>) = worker_eff s t" "worker_eff s (t\<lparr>relayNotFound := n\<rparr>) = worker_eff s t"
  "worker_eff s (t\<lparr>relayForwarded := n\<rparr>) = worker_eff s t" "worker_eff s (s\<lparr>relayChs := (relayChs s)[i := q]\<rparr>)"
  by (simp_all add: worker_eff_def)

lemma sent_by_eff: "sent_by e s s' \<Longrightarrow> worker_eff s s'"
  by (simp add: sent_by_def worker_eff_def)

definition no_panic :: "wenv \<Rightarrow> server \<Rightarrow> rworker \<Rightarrow> bool" where
  "no_panic e s r \<longleftrightarrow> (\<forall>ms. 0 \<le> batchN e ms) \<and> (atBridge (wpc r) \<longrightarrow> wssServer s \<noteq> None)"

definition worker_done :: "wenv \<Rightarrow> server \<Rightarrow> rworker \<Rightarrow> server \<times> rworker \<Rightarrow> bool" where
  "worker_done e s r c \<longleftrightarrow>
     (case c of (s', r') \<Rightarrow>
        server_inv s' \<and> rworker_ok r' \<and> worker_eff s s' \<and> wsock r' = wsock r
        \<and> (atBridge (wpc r') \<longrightarrow> wssServer s' \<noteq> None)
        \<and> (no_panic e s r \<longrightarrow> recoveredPanics s' = recoveredPanics s))"

lemma unwind_done: "server_inv s \<Longrightarrow> \<not> no_panic e s r \<Longrightarrow> worker_done e s r (unwind s r)"
  by (simp add: worker_done_def unwind_def rworker_ok_def freshWorker_def worker_ok_def relayBatchCap_def)

text \<open>A step that only moves on with its job.\<close>

lemma move_done:
  assumes "server_inv s" "rworker_ok r" "pcJob (wpc r) = Some job" "pcJob p = Some job" "atBridge p \<Longrightarrow> wssServer s \<noteq> None"
  shows "worker_done e s r (s, r\<lparr>wpc := p\<rparr>)"
proof -
  have "\<not> isFlushing q" if "pcJob q = Some job" for q using that by (cases q) simp_all
  then show ?thesis using assms by (auto simp: worker_done_def rworker_ok_def)
qed

lemma shapeJob_fits:
  "shapeJob x s job found = Some (dst, frame) \<Longrightarrow> job_fits job \<Longrightarrow> length frame \<le> outBufCap"
  by (auto simp: shapeJob_def job_fits_def outBufCap_def frame_lengths split: option.splits if_splits)

lemma appendJob_ok:
  "worker_ok (batch r) \<Longrightarrow> rworker_ok (appendJob r m) \<and> wsock (appendJob r m) = wsock r \<and> \<not> atBridge (wpc (appendJob r m))"
  by (simp add: appendJob_def rworker_ok_def worker_ok_def Let_def)

lemma selectStep_done:
  assumes "server_inv s" "rworker_ok r" "wpc r = Select" "i < length (relayChs s)" "selectStep i ev s r = Some c"
  shows "worker_done e s r c"
proof (cases ev)
  case TakeJob
  then obtain job rest where q: "relayChs s ! i = job # rest"
    and c: "c = (s\<lparr>relayChs := (relayChs s)[i := rest]\<rparr>, r\<lparr>wpc := Took job\<rparr>)"
    using assms(5) by (auto simp: selectStep_def split: list.splits)
  note d = queues_ok_dequeue [OF server_invD(1) [OF assms(1)] assms(4) q]
  show ?thesis
    using server_inv_queues [OF assms(1) d(1)] d(2) assms(2,3)
    by (simp add: c worker_done_def rworker_ok_def job_ok_def job_fits_def)
qed (use assms in \<open>auto simp: selectStep_def worker_done_def rworker_ok_def worker_ok_def split: if_splits\<close>)

lemma bridgeWrite_done:
  assumes "server_inv s" "rworker_ok r" "wpc r = OnBridge job"
  shows "worker_done e s r (bridgeWrite x e s r job)"
proof (cases "wssServer s")
  case None
  then show ?thesis
    using unwind_done [OF assms(1), of e r] assms(3) by (simp add: bridgeWrite_def no_panic_def)
next
  case (Some b)
  have fits: "\<not> outBufCap < length (frameDeliver x job)"
    using assms(2,3) by (simp add: rworker_ok_def job_fits_def outBufCap_def frame_lengths)
  obtain ok b1 where b1: "WriteFrame b (destID job) (frameDeliver x job) (wssOk e) = (ok, b1)" by force
  have "table_inv b1"
    using table_inv_write [OF server_invD(2) [OF assms(1) Some], of "destID job" "frameDeliver x job" "wssOk e"] b1 by simp
  then have "server_inv (s\<lparr>wssServer := Some b1\<rparr>)" by (rule server_inv_wss [OF assms(1)])
  moreover have "worker_eff s (s\<lparr>wssServer := Some b1\<rparr>)"
    using Some b1 by (simp add: worker_eff_def) (metis snd_conv)
  ultimately show ?thesis
    using assms(2,3) fits Some by (simp add: bridgeWrite_def b1 worker_done_def rworker_ok_def Let_def)
qed

lemma flushing_done:
  assumes "server_inv s" "wpc r = Flushing stop" "workerStep x i e ev s r = Some c"
  shows "worker_done e s r c"
proof -
  obtain s' r' where c: "c = (s', r')" by force
  have "resumed r stop (flush e s (batch r)) = (s', r')"
    using assms(2,3) c by (simp add: workerStep_def resumed_def split: outcome.splits prod.splits)
  then have f: "server_inv s' \<and> msgs (batch r') = [] \<and> sent_by e s s'" and r': "wsock r' = wsock r" "wpc r' = Select \<or> wpc r' = Stopped"
    using flush_turn [OF assms(1) resumed_resume] by (auto simp: resumed_def unwind_def split: outcome.splits)
  then have "rworker_ok r'" "\<not> atBridge (wpc r')" by (auto simp: rworker_ok_def)
  moreover have "worker_eff s s'" using f sent_by_eff by blast
  moreover have "no_panic e s r \<Longrightarrow> recoveredPanics s' = recoveredPanics s" using f by (simp add: no_panic_def sent_by_def)
  ultimately show ?thesis using f r'(1) by (simp add: c worker_done_def)
qed

lemma workerStep_done:
  assumes "server_inv s" "rworker_ok r" "i < length (relayChs s)" "workerStep x i e ev s r = Some c"
  shows "worker_done e s r c"
proof (cases "wpc r")
  case Select
  then show ?thesis using selectStep_done [OF assms(1,2) _ assms(3)] assms(4) by (simp add: workerStep_def)
next
  case (OnBridge job)
  then show ?thesis using bridgeWrite_done [OF assms(1,2) OnBridge, of e x] assms(4) by (simp add: workerStep_def)
next
  case (Flushing stop)
  then show ?thesis by (rule flushing_done [OF assms(1) _ assms(4)])
next
  case (SeenBridge job)
  show ?thesis
  proof (cases "wssServer s")
    case None
    then show ?thesis
      using SeenBridge assms(4) unwind_done [OF assms(1), of e r] by (simp add: workerStep_def no_panic_def)
  next
    case (Some b)
    then show ?thesis
      using SeenBridge assms(4) by (auto simp: workerStep_def intro!: move_done [OF assms(1,2), of job])
  qed
next
  case (Took job)
  then show ?thesis using assms(4) by (auto simp: workerStep_def intro!: move_done [OF assms(1,2), of job] split: if_splits)
next
  case (OffBridge job)
  then show ?thesis using assms(4) by (auto simp: workerStep_def intro!: move_done [OF assms(1,2), of job])
next
  case (Looked job found)
  then have j: "job_fits job" "worker_ok (batch r)" using assms(2) by (simp_all add: rworker_ok_def)
  show ?thesis
    using assms(1,4) Looked j appendJob_ok [OF j(2)] shapeJob_fits [OF _ j(1), of x s found]
    by (fastforce simp: workerStep_def worker_done_def rworker_ok_def split: option.splits prod.splits)
qed (use assms in \<open>simp add: workerStep_def\<close>)

subsection \<open>The system\<close>

lemma bridge_ok_eff: "bridge_ok x (wssServer s) hs \<Longrightarrow> worker_eff s s' \<Longrightarrow> bridge_ok x (wssServer s') hs"
  by (auto simp: worker_eff_def intro: bridge_ok_write)

lemma worker_eff_None: "worker_eff s s' \<Longrightarrow> wssServer s' = None \<longleftrightarrow> wssServer s = None"
  by (auto simp: worker_eff_def)

lemma relay_invD:
  assumes "relay_inv x closes c"
  shows "server_inv (rsrv c)" "conn (rsrv c) \<noteq> None" "length (rworkers c) = length (relayChs (rsrv c))"
    "i < length (rworkers c) \<Longrightarrow> rworker_ok (rworkers c ! i)" "j < length (rreaders c) \<Longrightarrow> rreader_ok (rreaders c ! j)"
    "bridge_ok x (wssServer (rsrv c)) (rhandlers c)"
    "\<not> closes \<Longrightarrow> i < length (rworkers c) \<Longrightarrow> atBridge (wpc (rworkers c ! i)) \<Longrightarrow> wssServer (rsrv c) \<noteq> None"
  using assms by (auto simp: relay_inv_def list_all_length)

lemma list_all_update: "list_all Q xs \<Longrightarrow> Q y \<Longrightarrow> list_all Q (xs[i := y])"
  by (simp add: list_all_length) (metis nth_list_update_eq nth_list_update_neq)

lemma relay_worker_inv:
  assumes "relay_inv x closes c" "i < length (rworkers c)" "workerStep x i e ev (rsrv c) (rworkers c ! i) = Some (s', r')"
  shows "relay_inv x closes (c\<lparr>rsrv := s', rworkers := (rworkers c)[i := r']\<rparr>)"
    "\<not> closes \<Longrightarrow> \<forall>ms. 0 \<le> batchN e ms \<Longrightarrow> recoveredPanics s' = recoveredPanics (rsrv c)"
proof -
  note D = relay_invD [OF assms(1)]
  have d: "worker_done e (rsrv c) (rworkers c ! i) (s', r')"
    using D(3) assms(2) by (intro workerStep_done [OF D(1) D(4) [OF assms(2)] _ assms(3)]) simp
  then have e: "server_inv s'" "rworker_ok r'" "worker_eff (rsrv c) s'" "atBridge (wpc r') \<longrightarrow> wssServer s' \<noteq> None"
    by (simp_all add: worker_done_def)
  have "closes \<or> list_all (\<lambda>r. atBridge (wpc r) \<longrightarrow> wssServer s' \<noteq> None) (rworkers c)"
    using assms(1) worker_eff_None [OF e(3)] by (auto simp: relay_inv_def)
  then have "closes \<or> list_all (\<lambda>r. atBridge (wpc r) \<longrightarrow> wssServer s' \<noteq> None) ((rworkers c)[i := r'])"
    using e(4) by (auto intro: list_all_update)
  moreover have "bridge_ok x (wssServer s') (rhandlers c)" by (rule bridge_ok_eff [OF D(6) e(3)])
  ultimately show "relay_inv x closes (c\<lparr>rsrv := s', rworkers := (rworkers c)[i := r']\<rparr>)"
    using assms(1) e by (auto simp: relay_inv_def worker_eff_def intro: list_all_update)
  show "\<not> closes \<Longrightarrow> \<forall>ms. 0 \<le> batchN e ms \<Longrightarrow> recoveredPanics s' = recoveredPanics (rsrv c)"
    using d D(7) [OF _ assms(2)] by (simp add: worker_done_def no_panic_def)
qed

lemma relay_reader_inv:
  assumes "relay_inv x closes c" "j < length (rreaders c)" "readerStep e (rsrv c) (rreaders c ! j) = Some (s', r')"
  shows "relay_inv x closes (c\<lparr>rsrv := s', rreaders := (rreaders c)[j := r']\<rparr>)" "recoveredPanics s' = recoveredPanics (rsrv c)"
proof -
  have "server_inv s' \<and> rreader_ok r' \<and> kept (rsrv c) s'"
    by (rule readerStep_inv [OF relay_invD(1) [OF assms(1)] relay_invD(5) [OF assms(1,2)] assms(3)])
  then show "relay_inv x closes (c\<lparr>rsrv := s', rreaders := (rreaders c)[j := r']\<rparr>)" "recoveredPanics s' = recoveredPanics (rsrv c)"
    using assms(1) by (auto simp: relay_inv_def kept_def intro: list_all_update)
qed

lemma relay_other_inv:
  assumes "relay_inv x closes c" "other_step x it (rsrv c) s'"
  shows "relay_inv x closes (c\<lparr>rsrv := s'\<rparr>)" "recoveredPanics s' = recoveredPanics (rsrv c)"
proof -
  have "quiet (rsrv c) s'"
    by (rule other_step_quiet [OF assms(2) relay_invD(1) [OF assms(1)] relay_invD(2) [OF assms(1)]])
  then show "relay_inv x closes (c\<lparr>rsrv := s'\<rparr>)" "recoveredPanics s' = recoveredPanics (rsrv c)"
    using assms(1) by (auto simp: relay_inv_def quiet_def)
qed

lemma relay_bridge_inv:
  assumes "relay_inv x closes c" "wssServer (rsrv c) = Some w" "wss_step (edVerify x) \<lparr>wsrv = w, handlers = rhandlers c\<rparr> b"
  shows "relay_inv x closes (c\<lparr>rsrv := (rsrv c)\<lparr>wssServer := Some (wsrv b)\<rparr>, rhandlers := handlers b\<rparr>)"
proof -
  have i: "wss_inv (edVerify x) b"
    using wss_step_inv [OF assms(3)] relay_invD(6) [OF assms(1)] by (simp add: bridge_ok_def assms(2))
  then have "server_inv ((rsrv c)\<lparr>wssServer := Some (wsrv b)\<rparr>)" by (intro server_inv_wss relay_invD(1) [OF assms(1)] wss_invD(1))
  moreover have "bridge_ok x (Some (wsrv b)) (handlers b)" using i by (cases b) (simp add: bridge_ok_def)
  ultimately show ?thesis using assms(1) by (auto simp: relay_inv_def list_all_length)
qed

lemma relay_enable_inv:
  assumes "relay_inv x closes c" "wssServer (rsrv c) = None" "EnableCompatWSS (rsrv c) str fn bound = (err, s')"
  shows "relay_inv x closes (c\<lparr>rsrv := s', rhandlers := []\<rparr>)" "recoveredPanics s' = recoveredPanics (rsrv c)"
  using enable_inv [OF relay_invD(1) [OF assms(1)] assms(3,2), of x] assms(1,2) by (auto simp: relay_inv_def list_all_length)

lemma relay_disable_inv:
  assumes "relay_inv x True c" "CloseCompatWSS (rsrv c) = (w, s')"
  shows "relay_inv x True (c\<lparr>rsrv := s', rhandlers := []\<rparr>)" "recoveredPanics s' = recoveredPanics (rsrv c)"
proof -
  have "s' = (rsrv c)\<lparr>wssServer := None\<rparr>" using assms(2) by (auto simp: CloseCompatWSS_def split: option.splits)
  moreover have "server_inv ((rsrv c)\<lparr>wssServer := None\<rparr>)" using relay_invD(1) [OF assms(1)] by (simp add: server_inv_def)
  ultimately show "relay_inv x True (c\<lparr>rsrv := s', rhandlers := []\<rparr>)" "recoveredPanics s' = recoveredPanics (rsrv c)"
    using assms(1) by (auto simp: relay_inv_def bridge_ok_def)
qed

lemma relay_step_inv:
  assumes "relay_step x it P closes c c'" "relay_inv x closes c"
  shows "relay_inv x closes c'
    \<and> (\<not> closes \<longrightarrow> (\<forall>e ms. P e \<longrightarrow> 0 \<le> batchN e ms) \<longrightarrow> recoveredPanics (rsrv c') = recoveredPanics (rsrv c))"
  using assms
proof cases
  case (receive j ms)
  then show ?thesis
    using assms(2) by (auto simp: relay_inv_def rreader_ok_def intro!: list_all_update)
next
  case (worker i e ev s' r')
  then show ?thesis using relay_worker_inv [OF assms(2) worker(2,5)] by auto
next
  case (disable w s')
  then show ?thesis using relay_disable_inv [of x c w s'] assms(2) by simp
qed (use assms(2) relay_reader_inv relay_other_inv relay_bridge_inv relay_enable_inv in auto)

lemma relay_start_inv:
  assumes "beacon_reach x it P b" "ready b"
  shows "relay_inv x closes (relay_start b n)"
proof -
  have "beacon_inv x b" using beacon_reach_inv [OF assms(1)] by blast
  then show ?thesis
    using assms(2)
    by (auto simp: relay_inv_def relay_start_def beacon_inv_def list_all_iff rworker_ok_def rreader_ok_def)
qed

lemma relay_reach_inv:
  assumes "relay_reach x it P closes c"
  shows "relay_inv x closes c"
    "\<not> closes \<Longrightarrow> \<forall>e ms. P e \<longrightarrow> 0 \<le> batchN e ms \<Longrightarrow> recoveredPanics (rsrv c) = 0"
proof -
  have "relay_inv x closes c
    \<and> (\<not> closes \<longrightarrow> (\<forall>e ms. P e \<longrightarrow> 0 \<le> batchN e ms) \<longrightarrow> recoveredPanics (rsrv c) = 0)"
    using assms
  proof induction
    case (start b n)
    then have "(\<forall>e ms. P e \<longrightarrow> 0 \<le> batchN e ms) \<longrightarrow> recoveredPanics (srv b) = 0"
      using beacon_reach_inv [OF start(1)] by blast
    then show ?case using relay_start_inv [OF start] by (simp add: relay_start_def)
  next
    case (more c c')
    then show ?case using relay_step_inv [OF more(2)] by auto
  qed
  then show "relay_inv x closes c"
    "\<not> closes \<Longrightarrow> \<forall>e ms. P e \<longrightarrow> 0 \<le> batchN e ms \<Longrightarrow> recoveredPanics (rsrv c) = 0" by blast+
qed

section \<open>Properties\<close>


text \<open>
  However the accesses of readers and workers to the shared state interleave with everything else,
  the state stays in order: queues and batches within their capacities, every job in the queue of its
  destination and small enough for its buffer, and a waiting batch has its timer armed.  As long as
  the bridge is not closed while workers run, and the batch call reports no negative count, no
  goroutine panics.
\<close>

theorem relay_interleaving_safe:
  assumes "relay_reach x it P closes c" "s = rsrv c"
  shows "(\<forall>i < length (relayChs s). length (relayChs s ! i) \<le> relayChCap s \<and>
       (\<forall>job \<in> set (relayChs s ! i). unat (destID job) mod length (relayChs s) = i \<and> length (payload job) \<le> maxRelayPayload))
    \<and> (\<forall>r \<in> set (rworkers c). length (msgs (batch r)) \<le> relayBatchCap \<and>
         (msgs (batch r) \<noteq> [] \<longrightarrow> timerActive (batch r) \<or> wpc r = Flushing False \<or> wpc r = Flushing True))
    \<and> (\<not> closes \<longrightarrow> (\<forall>e ms. P e \<longrightarrow> 0 \<le> batchN e ms) \<longrightarrow> recoveredPanics s = 0)"
proof -
  note D = relay_invD [OF relay_reach_inv(1) [OF assms(1)]]
  have "queues_ok (relayChs s) (relayChCap s)" using server_invD(1) [OF D(1)] assms(2) by simp
  moreover have "length (msgs (batch r)) \<le> relayBatchCap \<and>
      (msgs (batch r) \<noteq> [] \<longrightarrow> timerActive (batch r) \<or> wpc r = Flushing False \<or> wpc r = Flushing True)"
    if "r \<in> set (rworkers c)" for r
  proof -
    have "rworker_ok r" using that D(4) by (auto simp: in_set_conv_nth)
    then show ?thesis by (cases "wpc r") (auto simp: rworker_ok_def worker_ok_def)
  qed
  moreover have "\<not> closes \<longrightarrow> (\<forall>e ms. P e \<longrightarrow> 0 \<le> batchN e ms) \<longrightarrow> recoveredPanics s = 0"
    using relay_reach_inv(2) [OF assms(1)] assms(2) by blast
  ultimately show ?thesis by (simp add: queues_ok_def list_all_iff job_ok_def)
qed

section \<open>A bridge closed too early\<close>

text \<open>
  A run in which \<^verbatim>\<open>CloseCompatWSS\<close> falls between \<^verbatim>\<open>IsConnected\<close> and \<^verbatim>\<open>WriteFrame\<close>.  Two packets for
  node 7 are queued.  The worker batches the first for its UDP address; then the bridge is enabled and
  the node connects over it, and the worker finds the node connected when it handles the second.
\<close>

definition exJob :: relayJob where
  "exJob = \<lparr>senderID = 3, destID = 7, payload = [42]\<rparr>"

lemma exPacket_queued:
  assumes "server_inv s" "breakerAllow s = None" "Snapshot (nodes s) 7 = Some a" "length (relayChs s) = 8"
    "length (relayChs s ! 7) < relayChCap s" "relay_allow (relayRL s) (relaySourceForUDP (Some exAddr)) (UnixNano (clk e 0)) maxRelaysPerSourcePerSecond = (True, rl)"
  shows "handlePacket exExterns e s [5, 0, 0, 0, 3, 0, 0, 0, 7, 42] exAddr = s\<lparr>relayRL := rl, relayChs := (relayChs s)[7 := relayChs s ! 7 @ [exJob]]\<rparr>"
proof -
  let ?d = "be_PutUint32 3 @ be_PutUint32 7 @ [42]"
  have d: "[5, 0, 0, 0, 3, 0, 0, 0, 7, 42] = BeaconMsgRelay exExterns # ?d" by (simp add: exExterns_def be_PutUint32_def)
  have u: "8 \<le> length ?d" "\<not> fst (breakerOpen s ''beacon.relay'')" "uint32_at ?d 0 = Some 3" "uint32_at ?d 4 = Some 7"
      "length ?d \<le> maxRelayPayload + 8" "drop 8 ?d = [42]"
    using uint32_at_Put [of "[]" 0 3] uint32_at_Put [of "be_PutUint32 3" 4 7] assms(2) by (simp_all add: breakerOpen_def maxRelayPayload_def)
  have k: "relayKnown s 7" using assms(3) by (auto simp: relayKnown_def Snapshot_abs split: option.splits)
  have i: "7 = unat (7 :: u32) mod length (relayChs s)" using assms(4) by simp
  have "dispatchRelay e s ?d (relaySourceForUDP (Some exAddr)) = Done (s\<lparr>relayRL := rl, relayChs := (relayChs s)[7 := relayChs s ! 7 @ [exJob]]\<rparr>)"
    using dispatch_queues(2) [OF assms(1) u(1-4) k assms(6) u(5) i] assms(5) u(6) by (simp only: if_True exJob_def)
  then show ?thesis
    unfolding d by (simp add: handlePacket_def handlePacketFrom_def dispatchPacket_def recoverHandler_def exExterns_def)
qed

definition exQueued :: beacon where
  "exQueued = exRegisters\<lparr>srv := handlePacket exExterns (exEnv 9) (handlePacket exExterns (exEnv 2) (srv exRegisters)
      [5, 0, 0, 0, 3, 0, 0, 0, 7, 42] exAddr) [5, 0, 0, 0, 3, 0, 0, 0, 7, 42] exAddr\<rparr>"

lemma exQueued_reach: "beacon_reach exExterns it P exQueued"
  using beacon_reach.more [OF beacon_reach.more [OF exRegisters_reach beacon_step.datagram] beacon_step.datagram] exRegisters_fields(1)
  by (fastforce simp: exQueued_def)

lemma exQueued_srv: "\<exists>rl. srv exQueued = (srv exRegisters)\<lparr>relayRL := rl, relayChs := (replicate 8 [])[7 := [exJob, exJob]]\<rparr>"
proof -
  note F = exRegisters_fields
  let ?src = "relaySourceForUDP (Some exAddr)" and ?s = "srv exRegisters" and ?mx = maxRelaysPerSourcePerSecond
  have i: "server_inv ?s" using beacon_reach_inv [OF exRegisters_reach] beacon_invD(1) by blast
  obtain rl where rl: "relay_allow (relayRL ?s) ?src (UnixNano (clk (exEnv 2) 0)) ?mx = (True, rl)"
    using relay_allow_fst [of "relayRL ?s" ?src "UnixNano (clk (exEnv 2) 0)" ?mx] by (auto simp: F window_step_def prod_eq_iff)
  let ?s1 = "?s\<lparr>relayRL := rl, relayChs := (relayChs ?s)[7 := relayChs ?s ! 7 @ [exJob]]\<rparr>"
  have 1: "handlePacket exExterns (exEnv 2) ?s [5, 0, 0, 0, 3, 0, 0, 0, 7, 42] exAddr = ?s1"
    by (rule exPacket_queued [OF i F(7) F(2) _ _ rl]) (simp_all add: F)
  have i1: "server_inv ?s1"
    using handlePacketFrom_inv [OF i, of exExterns "exEnv 2" "[5, 0, 0, 0, 3, 0, 0, 0, 7, 42]" exAddr 0] 1 by (simp only: handlePacket_def)
  have "relay_window rl ?src = Some \<lparr>windowStart = UnixNano (at_s 2), windowCount = 1\<rparr>"
    using relay_window_allow [OF server_inv_wf(4) [OF i], of ?src "UnixNano (clk (exEnv 2) 0)" ?mx] rl by (simp add: F window_step_def)
  then have "fst (relay_allow rl ?src (UnixNano (clk (exEnv 9) 0)) ?mx)"
    by (simp add: relay_allow_fst window_step_def maxRelaysPerSourcePerSecond_def word_le_nat_alt)
  then obtain rl2 where rl2: "relay_allow (relayRL ?s1) ?src (UnixNano (clk (exEnv 9) 0)) ?mx = (True, rl2)"
    by (auto simp: prod_eq_iff)
  have "handlePacket exExterns (exEnv 9) ?s1 [5, 0, 0, 0, 3, 0, 0, 0, 7, 42] exAddr =
     ?s1\<lparr>relayRL := rl2, relayChs := (relayChs ?s1)[7 := relayChs ?s1 ! 7 @ [exJob]]\<rparr>"
    by (rule exPacket_queued [OF i1 _ _ _ _ rl2, of exAddr]) (simp_all add: F)
  then have "srv exQueued = ?s\<lparr>relayRL := rl2, relayChs := (replicate 8 [])[7 := [exJob, exJob]]\<rparr>"
    using 1 by (simp add: exQueued_def F)
  then show ?thesis by blast
qed

lemma exRegisters_workers: "length (workers exRegisters) = 8" "workers exRegisters ! 7 = (exAddr\<lparr>Port := 9001\<rparr>, freshWorker)"
  by (simp_all add: exRegisters_def exListening_def ListenAndServe_def beacon_start_def exBind_def readerCount_def MaxReusePortShards_def
      startWorkers_def sendSockets_def sharedPort_def NewWithPeers_def relayWorkerCount_def numeral_2_eq_2 One_nat_def Let_def)

text \<open>What the run needs to know of a reachable state: the server, worker 7 and the bridge's handlers.\<close>

definition reaches :: "server \<Rightarrow> rworker \<Rightarrow> handler list \<Rightarrow> bool" where
  "reaches s r hs \<longleftrightarrow> (\<exists>c. relay_reach exExterns sorted_list_of_fset healthy True c \<and> 7 < length (rworkers c)
     \<and> rsrv c = s \<and> rworkers c ! 7 = r \<and> rhandlers c = hs)"

lemma reaches_worker:
  assumes "reaches s r hs" "healthy e" "dualStack e = isWildcardIPv6 (wsock r)" "workerStep exExterns 7 e ev s r = Some (s', r')"
  shows "reaches s' r' hs"
proof -
  obtain c where c: "relay_reach exExterns sorted_list_of_fset healthy True c" "7 < length (rworkers c)"
      "rsrv c = s" "rworkers c ! 7 = r" "rhandlers c = hs"
    using assms(1) by (auto simp: reaches_def)
  show ?thesis
    using relay_reach.more [OF c(1) relay_step.worker [OF c(2)], of e ev s' r'] assms(2-) c
    by (auto simp: reaches_def intro!: exI [of _ "c\<lparr>rsrv := s', rworkers := (rworkers c)[7 := r']\<rparr>"])
qed

lemma reaches_enable:
  assumes "reaches s r hs" "wssServer s = None" "EnableCompatWSS s str fn bound = (err, s')"
  shows "reaches s' r []"
proof -
  obtain c where c: "relay_reach exExterns sorted_list_of_fset healthy True c" "7 < length (rworkers c)" "rsrv c = s" "rworkers c ! 7 = r"
    using assms(1) by (auto simp: reaches_def)
  then show ?thesis
    using relay_reach.more [OF c(1) relay_step.enable] assms(2,3)
    by (fastforce simp: reaches_def intro!: exI [of _ "c\<lparr>rsrv := s', rhandlers := []\<rparr>"])
qed

lemma reaches_bridge:
  assumes "reaches s r hs" "wssServer s = Some w" "wss_run exVerify \<lparr>wsrv = w, handlers = hs\<rparr> evs = Some b"
  shows "reaches (s\<lparr>wssServer := Some (wsrv b)\<rparr>) r (handlers b)"
  using assms
proof (induction evs arbitrary: s w hs)
  case Nil
  then show ?case by (auto simp: reaches_def)
next
  case (Cons ev evs)
  then obtain d where d: "wss_do exVerify \<lparr>wsrv = w, handlers = hs\<rparr> ev = Some d" "wss_run exVerify d evs = Some b"
    by (auto split: option.splits)
  obtain c where c: "relay_reach exExterns sorted_list_of_fset healthy True c" "7 < length (rworkers c)"
      "rsrv c = s" "rworkers c ! 7 = r" "rhandlers c = hs"
    using Cons.prems(1) by (auto simp: reaches_def)
  have "wss_step (edVerify exExterns) \<lparr>wsrv = w, handlers = hs\<rparr> d" using wss_do_step [OF d(1)] by (simp add: exExterns_def)
  then have "reaches (s\<lparr>wssServer := Some (wsrv d)\<rparr>) r (handlers d)"
    using relay_reach.more [OF c(1) relay_step.bridge] c Cons.prems(2)
    by (fastforce simp: reaches_def intro!: exI [of _ "c\<lparr>rsrv := s\<lparr>wssServer := Some (wsrv d)\<rparr>, rhandlers := handlers d\<rparr>"])
  then show ?case using Cons.IH [of "s\<lparr>wssServer := Some (wsrv d)\<rparr>" "handlers d" "wsrv d"] d(2) by (cases d) simp
qed

definition exBatched :: worker where
  "exBatched = \<lparr>msgs = [(exAddr, frameDeliver exExterns exJob)], timerActive = True\<rparr>"

abbreviation exWorker :: "wphase \<Rightarrow> worker \<Rightarrow> rworker" where
  "exWorker pc w \<equiv> \<lparr>wpc = pc, wsock = exAddr\<lparr>Port := 9001\<rparr>, batch = w\<rparr>"

lemma reaches_exShort:
  assumes "reaches s (exWorker pc w) hs" "workerStep exExterns 7 exShort ev s (exWorker pc w) = Some (s', r')"
  shows "reaches s' r' hs"
  by (rule reaches_worker [OF assms(1) exShort_healthy _ assms(2)]) (simp add: exShort_def isWildcardIPv6_def To4_def exAddr_def)

lemma reaches_start: "reaches (srv exQueued) (exWorker Select freshWorker) (bhandlers exQueued)"
  using relay_reach.start [OF exQueued_reach, of sorted_list_of_fset healthy True 0] exRegisters_workers exRegisters_fields(1)
  by (auto simp: reaches_def relay_start_def exQueued_def intro!: exI)

lemma exBatched_reaches:
  "\<exists>rl hs. reaches ((srv exRegisters)\<lparr>relayRL := rl, relayChs := (replicate 8 [])[7 := [exJob]]\<rparr>) (exWorker Select exBatched) hs"
proof -
  obtain rl where q: "srv exQueued = (srv exRegisters)\<lparr>relayRL := rl, relayChs := (replicate 8 [])[7 := [exJob, exJob]]\<rparr>"
    using exQueued_srv by blast
  let ?s = "(srv exRegisters)\<lparr>relayRL := rl, relayChs := (replicate 8 [])[7 := [exJob]]\<rparr>" and ?hs = "bhandlers exQueued"
  note F = exRegisters_fields
  have 1: "reaches ?s (exWorker (Took exJob) freshWorker) ?hs"
    by (rule reaches_exShort [OF reaches_start, of TakeJob]) (simp add: q workerStep_def selectStep_def)
  have 2: "reaches ?s (exWorker (OffBridge exJob) freshWorker) ?hs"
    by (rule reaches_exShort [OF 1, of TakeJob]) (simp add: workerStep_def F)
  have 3: "reaches ?s (exWorker (Looked exJob (Some exAddr)) freshWorker) ?hs"
    by (rule reaches_exShort [OF 2, of TakeJob]) (simp add: workerStep_def F exJob_def)
  have "reaches ?s (exWorker Select exBatched) ?hs"
    by (rule reaches_exShort [OF 3, of TakeJob])
      (simp add: workerStep_def shapeJob_def F frame_lengths outBufCap_def maxRelayPayload_def exJob_def appendJob_def freshWorker_def
        exBatched_def relayBatchCap_def Let_def)
  then show ?thesis by blast
qed

lemma exConnect_connects:
  assumes "wpeers w = Some fmempty" "wheap w = []" "\<not> wclosed w" "MaxPeers (wcfg w) \<le> 0" "wlookup w = exLookup"
  shows "\<exists>c. wss_run exVerify \<lparr>wsrv = w, handlers = []\<rparr> (exConnect 0 7) = Some c \<and> IsConnected (wsrv c) 7"
  using assms by (simp add: exConnect_def bridge_eval IsConnected_def)

lemma exOnBridge_reaches:
  "\<exists>s hs. reaches s (exWorker (OnBridge exJob) exBatched) hs \<and> wssServer s \<noteq> None \<and> \<not> serverDone s"
proof -
  obtain rl hs where b: "reaches ((srv exRegisters)\<lparr>relayRL := rl, relayChs := (replicate 8 [])[7 := [exJob]]\<rparr>) (exWorker Select exBatched) hs"
    using exBatched_reaches by blast
  let ?s = "(srv exRegisters)\<lparr>relayRL := rl, relayChs := (replicate 8 [])[7 := [exJob]]\<rparr>"
  let ?cfg = "(exConfig 0)\<lparr>AuthTimeout := 0, IdleTimeout := 0, WriteTimeout := 0\<rparr>"
  obtain w where w: "wss_New ?cfg = Inr w" "wpeers w = Some fmempty" "wheap w = []" "\<not> wclosed w" "MaxPeers (wcfg w) \<le> 0"
      "wlookup w = exLookup"
    by (simp add: wss_New_def exConfig_def Let_def)
  let ?w = "w\<lparr>wlistener := Some ''127.0.0.1:8443''\<rparr>" and ?s1 = "?s\<lparr>authKeyLookup := Some exLookup\<rparr>"
  have en: "EnableCompatWSS ?s ''127.0.0.1:8443'' (Some exLookup) (Some ''127.0.0.1:8443'') = (None, ?s1\<lparr>wssServer := Some ?w\<rparr>)"
    using w(1) by (simp add: EnableCompatWSS_def exRegisters_fields exConfig_def SetAuthoritativeKeyLookup_def wss_Start_def Let_def)
  obtain c where c: "wss_run exVerify \<lparr>wsrv = ?w, handlers = []\<rparr> (exConnect 0 7) = Some c" "IsConnected (wsrv c) 7"
    using exConnect_connects [of ?w] w(2-) by auto
  have 1: "reaches (?s1\<lparr>wssServer := Some (wsrv c)\<rparr>) (exWorker Select exBatched) (handlers c)"
    using reaches_bridge [OF reaches_enable [OF b _ en] _ c(1)] by (simp add: exRegisters_fields)
  let ?t = "?s1\<lparr>wssServer := Some (wsrv c), relayChs := replicate 8 []\<rparr>"
  have u: "(replicate 8 [])[7 := []] = (replicate 8 [] :: relayJob list list)"
    using list_update_id [of "replicate 8 []" 7] by simp
  have 2: "reaches ?t (exWorker (Took exJob) exBatched) (handlers c)"
    by (rule reaches_exShort [OF 1, of TakeJob]) (simp add: workerStep_def selectStep_def u)
  have 3: "reaches ?t (exWorker (SeenBridge exJob) exBatched) (handlers c)"
    by (rule reaches_exShort [OF 2, of TakeJob]) (simp add: workerStep_def)
  have 4: "reaches ?t (exWorker (OnBridge exJob) exBatched) (handlers c)"
    by (rule reaches_exShort [OF 3, of TakeJob]) (simp add: workerStep_def c(2) exJob_def)
  have "serverDone (srv exRegisters) = serverDone (srv exListening)"
    using handlePacketFrom_kept [of "srv exListening"] beacon_reach_inv [OF exListening_reach] beacon_invD(1)
    by (fastforce simp: exRegisters_def handlePacket_def kept_def)
  then have "\<not> serverDone ?t" by (simp add: exListening_srv exServer_def NewWithPeers_def Let_def)
  then show ?thesis using 4 by auto
qed

text \<open>
  Closing the bridge at that moment costs the datagrams that wait in the batch.  The worker calls
  \<^verbatim>\<open>WriteFrame\<close> on a nil bridge and panics; the panic is recovered, nothing is sent, and the batch with
  the packet that was already framed for node 7 is gone, although every socket is healthy.
\<close>

theorem bridge_close_loses_batch:
  "\<exists>c c1 c2. relay_reach exExterns sorted_list_of_fset healthy True c
     \<and> relay_step exExterns sorted_list_of_fset healthy True c c1 \<and> relay_step exExterns sorted_list_of_fset healthy True c1 c2
     \<and> CloseCompatWSS (rsrv c) = (Some (wss_Close (the (wssServer (rsrv c)))), rsrv c1)
     \<and> (exAddr, [6, 0, 0, 0, 3, 42]) \<in> set (msgs (batch (rworkers c ! 7)))
     \<and> msgs (batch (rworkers c2 ! 7)) = [] \<and> outbox (rsrv c2) = outbox (rsrv c)
     \<and> recoveredPanics (rsrv c2) = recoveredPanics (rsrv c) + 1"
proof -
  obtain c w where c: "relay_reach exExterns sorted_list_of_fset healthy True c" "7 < length (rworkers c)"
      "rworkers c ! 7 = exWorker (OnBridge exJob) exBatched" "wssServer (rsrv c) = Some w" "\<not> serverDone (rsrv c)"
    using exOnBridge_reaches by (auto simp: reaches_def)
  let ?s = "(rsrv c)\<lparr>wssServer := None\<rparr>"
  let ?c1 = "c\<lparr>rsrv := ?s, rhandlers := []\<rparr>"
  have cl: "CloseCompatWSS (rsrv c) = (Some (wss_Close w), ?s)" using c(4) by (simp add: CloseCompatWSS_def)
  have 1: "relay_step exExterns sorted_list_of_fset healthy True c ?c1" by (rule relay_step.disable [OF _ cl]) simp
  obtain s' r' where u: "unwind ?s (rworkers c ! 7) = (s', r')" by force
  let ?c2 = "?c1\<lparr>rsrv := s', rworkers := (rworkers ?c1)[7 := r']\<rparr>"
  have 2: "relay_step exExterns sorted_list_of_fset healthy True ?c1 ?c2"
    by (rule relay_step.worker [where e = exShort and ev = TakeJob])
      (use c(2,3) u exShort_healthy in \<open>simp_all add: isWildcardIPv6_def To4_def exAddr_def workerStep_def bridgeWrite_def\<close>,
        simp add: exShort_def)
  have "frameDeliver exExterns exJob = [6, 0, 0, 0, 3, 42]" by (simp add: frameDeliver_def exExterns_def exJob_def be_PutUint32_def)
  then show ?thesis
    using c(1-4) 1 2 cl u
    by (intro exI [of _ c] exI [of _ ?c1] exI [of _ ?c2]) (auto simp: exBatched_def unwind_def freshWorker_def)
qed

section \<open>Witnesses\<close>


theorem relay_interleaving_safe_witness:
  "\<exists>c. relay_reach exExterns sorted_list_of_fset healthy False c \<and> relayChs (rsrv c) ! 7 = [exJob, exJob] \<and> recoveredPanics (rsrv c) = 0"
proof -
  let ?c = "relay_start exQueued 1"
  have r: "relay_reach exExterns sorted_list_of_fset healthy False ?c"
    using relay_reach.start [OF exQueued_reach] exRegisters_fields(1) by (simp add: exQueued_def)
  have "recoveredPanics (rsrv ?c) = 0"
    using relay_interleaving_safe [OF r refl] by (simp add: healthy_def batch_ok_def)
  moreover have "relayChs (rsrv ?c) ! 7 = [exJob, exJob]" using exQueued_srv by (auto simp: relay_start_def)
  ultimately show ?thesis using r by blast
qed

end
