(* ===== verification/Buffers.thy ===== *)
theory Buffers
  imports RelayConc "HOL-Library.Multiset"
begin

text \<open>
  The buffers of the relay path.  \<^verbatim>\<open>dispatchRelay\<close> copies a payload from its reader's receive buffer
  into a buffer of \<^verbatim>\<open>s.pool\<close>; a worker shapes the frame in a buffer of \<^verbatim>\<open>s.outBufPool\<close>, keeps both until
  the batch is flushed, and returns them.  Here the arrays are cells of a memory and a slice is an
  address with a length, so that a buffer returned too early would be overwritten while it is still
  in use.  The theory has the operations of readers and workers on that memory, who holds which
  array, and what a state is without buffers; theory \<open>BufferRefine\<close> has the proofs.
\<close>

declare One_nat_def [simp del]

section \<open>Memory\<close>

text \<open>All slices of the relay path start at the beginning of their array; its length is their capacity.\<close>

record slice =
  sbase :: nat
  slen :: nat

definition bytesAt :: "bytes list \<Rightarrow> slice \<Rightarrow> bytes" where
  "bytesAt m sl = take (slen sl) (m ! sbase sl)"

definition writeAt :: "bytes list \<Rightarrow> nat \<Rightarrow> bytes \<Rightarrow> bytes list" where
  "writeAt m b d = m[b := d @ drop (length d) (m ! b)]"

text \<open>
  \<^verbatim>\<open>sync.Pool\<close>: \<^verbatim>\<open>Get\<close> removes any element it likes (\<open>pick\<close>) or calls \<^verbatim>\<open>New\<close>.  The pools hold arrays at
  their full length, so an element is an address.
\<close>

definition payloadBufSize :: nat where
  "payloadBufSize = 1500"

definition poolGet :: "nat option \<Rightarrow> nat \<Rightarrow> bytes list \<Rightarrow> nat list \<Rightarrow> nat \<times> bytes list \<times> nat list" where
  "poolGet pick n m p =
     (case pick of
        Some k \<Rightarrow>
          if k < length p then (p ! k, m, take k p @ drop (Suc k) p) else (length m, m @ [replicate n 0], p)
      | None \<Rightarrow> (length m, m @ [replicate n 0], p))"

text \<open>The copy of a payload: into the pooled array, or into a new one when that is too small.\<close>

definition copyPayload :: "bytes list \<Rightarrow> nat \<Rightarrow> bytes \<Rightarrow> slice \<times> bytes list" where
  "copyPayload m b body =
     (if length (m ! b) < length body then (\<lparr>sbase = length m, slen = length body\<rparr>, m @ [body])
      else (\<lparr>sbase = b, slen = length body\<rparr>, writeAt m b body))"

section \<open>State\<close>

record bjob =
  bsender :: u32
  bdest :: u32
  bpayload :: slice

definition jobOf :: "bytes list \<Rightarrow> bjob \<Rightarrow> relayJob" where
  "jobOf m j = \<lparr>senderID = bsender j, destID = bdest j, payload = bytesAt m (bpayload j)\<rparr>"

text \<open>
  What the goroutines share.  \<open>queues\<close> are the channels; the field \<open>relayChs\<close> of the server holds their
  content as values, which no operation below depends on.
\<close>

record shared =
  psrv :: server
  mem :: "bytes list"
  payPool :: "nat list"
  outPool :: "nat list"
  queues :: "bjob list list"

text \<open>
  A reader owns its receive buffers.  Its backlog are the frames of the last batch, type byte
  included.  It is between packets; past the checks; with a buffer of the pool; or with the payload
  copied.
\<close>

datatype bread = RIdle | RAdmitted u32 u32 | RGot u32 u32 nat | RFilled bjob

record breader =
  rbufs :: "nat list"
  frames_left :: "(slice \<times> relaySourceKey) list"
  rpc :: bread

text \<open>
  A worker as in \<open>RelayConc\<close>, with the buffers it holds at each point: \<open>BOnGot\<close> and \<open>BGot\<close> have taken an
  output buffer, \<open>BOnFilled\<close> has shaped the frame for the bridge, \<open>BGiveBack\<close> returns the payload and
  then, as \<open>BPutOut\<close>, the output buffer; \<open>BReturn\<close> returns what a flushed batch held.
\<close>

datatype bphase =
    BSelect | BTook bjob | BSeen bjob | BOn bjob | BOnGot bjob nat | BOnFilled bjob slice | BGiveBack nat nat | BPutOut nat
  | BOff bjob | BLooked bjob "udpaddr option" | BGot bjob "udpaddr option" nat
  | BFlushing bool | BReturn bool "nat list" "nat list" | BStopped

record bworker =
  bpc :: bphase
  bsock :: udpaddr
  bmsgs :: "(udpaddr \<times> slice) list"
  bpays :: "nat list"
  bouts :: "nat list"
  btimer :: bool

section \<open>Readers\<close>

definition putPay :: "nat \<Rightarrow> shared \<Rightarrow> shared" where
  "putPay b sh = sh\<lparr>payPool := b # payPool sh\<rparr>"

definition putOut :: "nat \<Rightarrow> shared \<Rightarrow> shared" where
  "putOut b sh = sh\<lparr>outPool := b # outPool sh\<rparr>"

definition nextFrame :: "breader \<Rightarrow> breader" where
  "nextFrame r = r\<lparr>frames_left := tl (frames_left r), rpc := RIdle\<rparr>"

definition panicked :: "shared \<Rightarrow> shared" where
  "panicked sh = sh\<lparr>psrv := (psrv sh)\<lparr>recoveredPanics := recoveredPanics (psrv sh) + 1\<rparr>\<rparr>"

text \<open>The attempt to queue: on a full queue the buffer goes back to the pool.\<close>

definition enqueueBuf :: "env \<Rightarrow> shared \<Rightarrow> bjob \<Rightarrow> shared outcome" where
  "enqueueBuf e sh j =
     (case relayQueueFor (psrv sh) (bdest j) of
        None \<Rightarrow> Panicked sh
      | Some i \<Rightarrow>
          (case enqueueRelay e (psrv sh) (jobOf (mem sh) j) of
             Panicked s1 \<Rightarrow> Panicked (sh\<lparr>psrv := s1\<rparr>)
           | Done s1 \<Rightarrow>
               Done (if length (queues sh ! i) < relayChCap (psrv sh)
                     then sh\<lparr>psrv := s1, queues := (queues sh)[i := queues sh ! i @ [j]]\<rparr>
                     else putPay (sbase (bpayload j)) (sh\<lparr>psrv := s1\<rparr>))))"

definition readerOp :: "env \<Rightarrow> nat option \<Rightarrow> shared \<Rightarrow> breader \<Rightarrow> (shared \<times> breader) option" where
  "readerOp e pick sh r =
     (case frames_left r of
        [] \<Rightarrow> None
      | (sl, src) # rest \<Rightarrow>
          (let data = drop 1 (bytesAt (mem sh) sl) in
           Some (case rpc r of
              RIdle \<Rightarrow>
                (case admitRelay e (psrv sh) data src of
                   Done (None, s1) \<Rightarrow> (sh\<lparr>psrv := s1\<rparr>, nextFrame r)
                 | Done (Some job, s1) \<Rightarrow> (sh\<lparr>psrv := s1\<rparr>, r\<lparr>rpc := RAdmitted (senderID job) (destID job)\<rparr>)
                 | Panicked (_, s1) \<Rightarrow> (panicked (sh\<lparr>psrv := s1\<rparr>), nextFrame r))
            | RAdmitted sender dest \<Rightarrow>
                (case poolGet pick payloadBufSize (mem sh) (payPool sh) of
                   (b, m, p) \<Rightarrow> (sh\<lparr>mem := m, payPool := p\<rparr>, r\<lparr>rpc := RGot sender dest b\<rparr>))
            | RGot sender dest b \<Rightarrow>
                (case copyPayload (mem sh) b (drop 8 data) of
                   (sl', m) \<Rightarrow> (sh\<lparr>mem := m\<rparr>, r\<lparr>rpc := RFilled \<lparr>bsender = sender, bdest = dest, bpayload = sl'\<rparr>\<rparr>))
            | RFilled j \<Rightarrow>
                (case enqueueBuf e sh j of
                   Done sh1 \<Rightarrow> (sh1, nextFrame r)
                 | Panicked sh1 \<Rightarrow> (panicked sh1, nextFrame r)))))"

section \<open>Workers\<close>

definition bufUnwind :: "shared \<Rightarrow> bworker \<Rightarrow> shared \<times> bworker" where
  "bufUnwind sh w =
     (panicked sh,
      w\<lparr>bmsgs := [], bpays := [], bouts := [], btimer := False, bpc := if serverDone (psrv sh) then BStopped else BSelect\<rparr>)"

definition bufSelect :: "nat \<Rightarrow> worker_ev \<Rightarrow> shared \<Rightarrow> bworker \<Rightarrow> (shared \<times> bworker) option" where
  "bufSelect i ev sh w =
     (case ev of
        TakeJob \<Rightarrow>
          (case queues sh ! i of
             [] \<Rightarrow> None
           | j # rest \<Rightarrow>
               let s = psrv sh in
               Some (sh\<lparr>queues := (queues sh)[i := rest], psrv := s\<lparr>relayChs := (relayChs s)[i := tl (relayChs s ! i)]\<rparr>\<rparr>,
                     w\<lparr>bpc := BTook j\<rparr>))
      | TimerFired \<Rightarrow> if btimer w then Some (sh, w\<lparr>btimer := False, bpc := BFlushing False\<rparr>) else None
      | Shutdown \<Rightarrow> if serverDone (psrv sh) then Some (sh, w\<lparr>bpc := BFlushing True\<rparr>) else None)"

definition outGet :: "nat option \<Rightarrow> shared \<Rightarrow> nat \<times> shared" where
  "outGet pick sh = (case poolGet pick outBufCap (mem sh) (outPool sh) of (b, m, p) \<Rightarrow> (b, sh\<lparr>mem := m, outPool := p\<rparr>))"

definition bufBridgeWrite :: "wenv \<Rightarrow> shared \<Rightarrow> bworker \<Rightarrow> bjob \<Rightarrow> slice \<Rightarrow> shared \<times> bworker" where
  "bufBridgeWrite e sh w j sl =
     (case wssServer (psrv sh) of
        None \<Rightarrow> bufUnwind sh w
      | Some b \<Rightarrow>
          (case WriteFrame b (bdest j) (bytesAt (mem sh) sl) (wssOk e) of
             (ok, b1) \<Rightarrow>
               let s1 = (psrv sh)\<lparr>wssServer := Some b1\<rparr> in
               (sh\<lparr>psrv := if ok then s1\<lparr>relayForwarded := relayForwarded s1 + 1\<rparr> else s1\<lparr>relayNotFound := relayNotFound s1 + 1\<rparr>\<rparr>,
                w\<lparr>bpc := BGiveBack (sbase (bpayload j)) (sbase sl)\<rparr>)))"

definition bufAppend :: "bworker \<Rightarrow> udpaddr \<Rightarrow> slice \<Rightarrow> bjob \<Rightarrow> bworker" where
  "bufAppend w dst sl j =
     (let w1 = w\<lparr>bmsgs := bmsgs w @ [(dst, sl)], bpays := bpays w @ [sbase (bpayload j)], bouts := bouts w @ [sbase sl]\<rparr> in
      if relayBatchCap \<le> length (bmsgs w1) then w1\<lparr>btimer := False, bpc := BFlushing False\<rparr>
      else w1\<lparr>btimer := True, bpc := BSelect\<rparr>)"

definition bufShape :: "externs \<Rightarrow> shared \<Rightarrow> bworker \<Rightarrow> bjob \<Rightarrow> udpaddr option \<Rightarrow> nat \<Rightarrow> shared \<times> bworker" where
  "bufShape x sh w j found b =
     (case shapeJob x (psrv sh) (jobOf (mem sh) j) found of
        None \<Rightarrow>
          (sh\<lparr>psrv := (psrv sh)\<lparr>relayNotFound := relayNotFound (psrv sh) + 1\<rparr>\<rparr>, w\<lparr>bpc := BGiveBack (sbase (bpayload j)) b\<rparr>)
      | Some (dst, f) \<Rightarrow>
          if length (mem sh ! b) < length f then bufUnwind sh w
          else (sh\<lparr>mem := writeAt (mem sh) b f\<rparr>, bufAppend w dst \<lparr>sbase = b, slen = length f\<rparr> j))"

definition batchOf :: "bytes list \<Rightarrow> bworker \<Rightarrow> worker" where
  "batchOf m w = \<lparr>msgs = map (\<lambda>(a, sl). (a, bytesAt m sl)) (bmsgs w), timerActive = btimer w\<rparr>"

definition bufReturn :: "bool \<Rightarrow> nat list \<Rightarrow> nat list \<Rightarrow> shared \<Rightarrow> bworker \<Rightarrow> shared \<times> bworker" where
  "bufReturn stop ps os sh w =
     (case ps of
        p # ps' \<Rightarrow> (putPay p sh, w\<lparr>bpc := BReturn stop ps' os\<rparr>)
      | [] \<Rightarrow>
          (case os of
             b # os' \<Rightarrow> (putOut b sh, w\<lparr>bpc := BReturn stop [] os'\<rparr>)
           | [] \<Rightarrow> (sh, w\<lparr>bmsgs := [], bpays := [], bouts := [], bpc := if stop then BStopped else BSelect\<rparr>)))"

definition workerOp ::
    "externs \<Rightarrow> nat \<Rightarrow> wenv \<Rightarrow> worker_ev \<Rightarrow> nat option \<Rightarrow> shared \<Rightarrow> bworker \<Rightarrow> (shared \<times> bworker) option" where
  "workerOp x i e ev pick sh w =
     (case bpc w of
        BSelect \<Rightarrow> bufSelect i ev sh w
      | BTook j \<Rightarrow> Some (sh, w\<lparr>bpc := if wssServer (psrv sh) = None then BOff j else BSeen j\<rparr>)
      | BSeen j \<Rightarrow>
          Some (case wssServer (psrv sh) of
             None \<Rightarrow> bufUnwind sh w
           | Some b \<Rightarrow> (sh, w\<lparr>bpc := if IsConnected b (bdest j) then BOn j else BOff j\<rparr>))
      | BOn j \<Rightarrow> Some (case outGet pick sh of (b, sh1) \<Rightarrow> (sh1, w\<lparr>bpc := BOnGot j b\<rparr>))
      | BOnGot j b \<Rightarrow>
          Some (let f = frameDeliver x (jobOf (mem sh) j) in
             if length (mem sh ! b) < length f then bufUnwind sh w
             else (sh\<lparr>mem := writeAt (mem sh) b f\<rparr>, w\<lparr>bpc := BOnFilled j \<lparr>sbase = b, slen = length f\<rparr>\<rparr>))
      | BOnFilled j sl \<Rightarrow> Some (bufBridgeWrite e sh w j sl)
      | BGiveBack p b \<Rightarrow> Some (putPay p sh, w\<lparr>bpc := BPutOut b\<rparr>)
      | BPutOut b \<Rightarrow> Some (putOut b sh, w\<lparr>bpc := BSelect\<rparr>)
      | BOff j \<Rightarrow> Some (sh, w\<lparr>bpc := BLooked j (Snapshot (nodes (psrv sh)) (bdest j))\<rparr>)
      | BLooked j found \<Rightarrow> Some (case outGet pick sh of (b, sh1) \<Rightarrow> (sh1, w\<lparr>bpc := BGot j found b\<rparr>))
      | BGot j found b \<Rightarrow> Some (bufShape x sh w j found b)
      | BFlushing stop \<Rightarrow>
          Some (case flush e (psrv sh) (batchOf (mem sh) w) of
             Done (s1, _) \<Rightarrow> (sh\<lparr>psrv := s1\<rparr>, w\<lparr>bpc := BReturn stop (bpays w) (bouts w)\<rparr>)
           | Panicked (s1, _) \<Rightarrow> bufUnwind (sh\<lparr>psrv := s1\<rparr>) w)
      | BReturn stop ps os \<Rightarrow> Some (bufReturn stop ps os sh w)
      | BStopped \<Rightarrow> None)"

section \<open>The system\<close>

record psys =
  shr :: shared
  preaders :: "breader list"
  pworkers :: "bworker list"
  phandlers :: "handler list"

text \<open>
  A batch overwrites the receive buffers of its reader, whatever they held; the pools may lose
  elements at any time; and the rest of the beacon runs as in \<open>RelayConc\<close>.
\<close>

definition received :: "bytes list \<Rightarrow> nat list \<Rightarrow> bytes list \<Rightarrow> bool" where
  "received m bufs m' \<longleftrightarrow> length m' = length m \<and>
     (\<forall>b < length m. length (m' ! b) = length (m ! b) \<and> (b \<notin> set bufs \<longrightarrow> m' ! b = m ! b))"

definition frame_in :: "bytes list \<Rightarrow> nat list \<Rightarrow> slice \<Rightarrow> bool" where
  "frame_in m bufs sl \<longleftrightarrow> sbase sl \<in> set bufs \<and> slen sl \<le> length (m ! sbase sl)"

inductive pool_step :: "externs \<Rightarrow> (nodeid fset \<Rightarrow> nodeid list) \<Rightarrow> (wenv \<Rightarrow> bool) \<Rightarrow> bool \<Rightarrow> psys \<Rightarrow> psys \<Rightarrow> bool"
  for x it P closes where
  receive: "j < length (preaders c) \<Longrightarrow> preaders c ! j = r \<Longrightarrow> frames_left r = [] \<Longrightarrow> rpc r = RIdle \<Longrightarrow>
    received (mem (shr c)) (rbufs r) m \<Longrightarrow> list_all (\<lambda>(sl, src). frame_in m (rbufs r) sl) fs \<Longrightarrow>
    pool_step x it P closes c (c\<lparr>shr := (shr c)\<lparr>mem := m\<rparr>, preaders := (preaders c)[j := r\<lparr>frames_left := fs\<rparr>]\<rparr>)"
| reader: "j < length (preaders c) \<Longrightarrow> readerOp e pick (shr c) (preaders c ! j) = Some (sh, r) \<Longrightarrow>
    pool_step x it P closes c (c\<lparr>shr := sh, preaders := (preaders c)[j := r]\<rparr>)"
| worker: "i < length (pworkers c) \<Longrightarrow> P e \<Longrightarrow> dualStack e = isWildcardIPv6 (bsock (pworkers c ! i)) \<Longrightarrow>
    workerOp x i e ev pick (shr c) (pworkers c ! i) = Some (sh, w) \<Longrightarrow>
    pool_step x it P closes c (c\<lparr>shr := sh, pworkers := (pworkers c)[i := w]\<rparr>)"
| collect: "mset ps \<subseteq># mset (payPool (shr c)) \<Longrightarrow> mset os \<subseteq># mset (outPool (shr c)) \<Longrightarrow>
    pool_step x it P closes c (c\<lparr>shr := (shr c)\<lparr>payPool := ps, outPool := os\<rparr>\<rparr>)"
| other: "other_step x it (psrv (shr c)) s \<Longrightarrow> pool_step x it P closes c (c\<lparr>shr := (shr c)\<lparr>psrv := s\<rparr>\<rparr>)"
| bridge: "wssServer (psrv (shr c)) = Some w \<Longrightarrow> wss_step (edVerify x) \<lparr>wsrv = w, handlers = phandlers c\<rparr> b \<Longrightarrow>
    pool_step x it P closes c
      (c\<lparr>shr := (shr c)\<lparr>psrv := (psrv (shr c))\<lparr>wssServer := Some (wsrv b)\<rparr>\<rparr>, phandlers := handlers b\<rparr>)"
| enable: "wssServer (psrv (shr c)) = None \<Longrightarrow> EnableCompatWSS (psrv (shr c)) str fn bound = (err, s) \<Longrightarrow>
    pool_step x it P closes c (c\<lparr>shr := (shr c)\<lparr>psrv := s\<rparr>, phandlers := []\<rparr>)"
| disable: "closes \<Longrightarrow> CloseCompatWSS (psrv (shr c)) = (w, s) \<Longrightarrow>
    pool_step x it P closes c (c\<lparr>shr := (shr c)\<lparr>psrv := s\<rparr>, phandlers := []\<rparr>)"

text \<open>
  The start: a beacon that listens and has nothing to relay yet, with \<open>n\<close> readers, each with a batch
  of receive buffers, and with empty pools.
\<close>

definition pool_start :: "beacon \<Rightarrow> nat \<Rightarrow> psys" where
  "pool_start b n =
     \<lparr>shr = \<lparr>psrv = srv b, mem = replicate (n * readBatchCap) (replicate readBufSize 0), payPool = [], outPool = [],
        queues = replicate (length (relayChs (srv b))) []\<rparr>,
      preaders = map (\<lambda>k. \<lparr>rbufs = [k * readBatchCap..<(k + 1) * readBatchCap], frames_left = [], rpc = RIdle\<rparr>) [0..<n],
      pworkers = map (\<lambda>(a, w). \<lparr>bpc = BSelect, bsock = a, bmsgs = [], bpays = [], bouts = [], btimer = timerActive w\<rparr>) (workers b),
      phandlers = bhandlers b\<rparr>"

inductive pool_reach :: "externs \<Rightarrow> (nodeid fset \<Rightarrow> nodeid list) \<Rightarrow> (wenv \<Rightarrow> bool) \<Rightarrow> bool \<Rightarrow> psys \<Rightarrow> bool"
  for x it P closes where
  start: "beacon_reach x it P b \<Longrightarrow> ready b \<Longrightarrow> list_all (\<lambda>q. q = []) (relayChs (srv b)) \<Longrightarrow>
    list_all (\<lambda>(a, w). msgs w = []) (workers b) \<Longrightarrow> pool_reach x it P closes (pool_start b n)"
| more: "pool_reach x it P closes c \<Longrightarrow> pool_step x it P closes c c' \<Longrightarrow> pool_reach x it P closes c'"

section \<open>Holders\<close>

fun phasePays :: "bphase \<Rightarrow> nat list" where
  "phasePays (BTook j) = [sbase (bpayload j)]"
| "phasePays (BSeen j) = [sbase (bpayload j)]"
| "phasePays (BOn j) = [sbase (bpayload j)]"
| "phasePays (BOnGot j b) = [sbase (bpayload j)]"
| "phasePays (BOnFilled j sl) = [sbase (bpayload j)]"
| "phasePays (BOff j) = [sbase (bpayload j)]"
| "phasePays (BLooked j found) = [sbase (bpayload j)]"
| "phasePays (BGot j found b) = [sbase (bpayload j)]"
| "phasePays (BGiveBack p b) = [p]"
| "phasePays _ = []"

fun phaseOuts :: "bphase \<Rightarrow> nat list" where
  "phaseOuts (BOnGot j b) = [b]"
| "phaseOuts (BOnFilled j sl) = [sbase sl]"
| "phaseOuts (BGot j found b) = [b]"
| "phaseOuts (BGiveBack p b) = [b]"
| "phaseOuts (BPutOut b) = [b]"
| "phaseOuts _ = []"

text \<open>What the batch holds; while a flushed batch is returned, what is left to return.\<close>

definition batchPays :: "bworker \<Rightarrow> nat list" where
  "batchPays w = (case bpc w of BReturn stop ps os \<Rightarrow> ps | _ \<Rightarrow> bpays w)"

definition batchOuts :: "bworker \<Rightarrow> nat list" where
  "batchOuts w = (case bpc w of BReturn stop ps os \<Rightarrow> os | _ \<Rightarrow> bouts w)"

definition heldOuts :: "bworker \<Rightarrow> nat list" where
  "heldOuts w = phaseOuts (bpc w) @ batchOuts w"

definition ownWorker :: "bworker \<Rightarrow> nat multiset" where
  "ownWorker w = mset (phasePays (bpc w)) + mset (batchPays w) + mset (heldOuts w)"

fun readPays :: "bread \<Rightarrow> nat list" where
  "readPays (RGot sender dest b) = [b]"
| "readPays (RFilled j) = [sbase (bpayload j)]"
| "readPays _ = []"

definition ownReader :: "breader \<Rightarrow> nat multiset" where
  "ownReader r = mset (rbufs r) + mset (readPays (rpc r))"

definition ownQueue :: "bjob list \<Rightarrow> nat multiset" where
  "ownQueue q = mset (map (\<lambda>j. sbase (bpayload j)) q)"

definition ownShared :: "shared \<Rightarrow> nat multiset" where
  "ownShared sh = mset (payPool sh) + mset (outPool sh) + sum_list (map ownQueue (queues sh))"

definition owned :: "psys \<Rightarrow> nat multiset" where
  "owned c = ownShared (shr c) + sum_list (map ownReader (preaders c)) + sum_list (map ownWorker (pworkers c))"

subsection \<open>Sums over lists\<close>

lemma sum_update:
  fixes f :: "'a \<Rightarrow> nat multiset"
  shows "i < length xs \<Longrightarrow> sum_list (map f (xs[i := y])) + f (xs ! i) = sum_list (map f xs) + f y"
proof (induction xs arbitrary: i)
  case (Cons x xs)
  show ?case
  proof (cases i)
    case (Suc k)
    then show ?thesis using Cons.IH [of k] Cons.prems by (simp add: add.assoc)
  qed (simp add: ac_simps)
qed simp

lemma sum_member:
  fixes f :: "'a \<Rightarrow> nat multiset"
  shows "i < length xs \<Longrightarrow> f (xs ! i) \<subseteq># sum_list (map f xs)"
  using sum_update [of i "map f xs" "\<lambda>a. a" "{#}"] by simp (metis mset_subset_eq_add_right)

lemma sum_two:
  fixes f :: "'a \<Rightarrow> nat multiset"
  shows "i < length xs \<Longrightarrow> k < length xs \<Longrightarrow> i \<noteq> k \<Longrightarrow> f (xs ! i) + f (xs ! k) \<subseteq># sum_list (map f xs)"
proof -
  assume i: "i < length xs" and k: "k < length xs" and ne: "i \<noteq> k"
  have "f (xs ! k) \<subseteq># sum_list ((map f xs)[i := {#}])"
    using sum_member [of k "(map f xs)[i := {#}]" "\<lambda>a. a"] i k ne by simp
  moreover have "sum_list ((map f xs)[i := {#}]) + f (xs ! i) = sum_list (map f xs)"
    using sum_update [of i "map f xs" "\<lambda>a. a" "{#}"] i by simp
  ultimately show ?thesis by (metis add.commute subset_mset.add_left_mono)
qed

definition dist_mset :: "nat multiset \<Rightarrow> bool" where
  "dist_mset M \<longleftrightarrow> (\<forall>b. count M b \<le> 1)"

lemma dist_mset_sub: "dist_mset M \<Longrightarrow> N \<subseteq># M \<Longrightarrow> dist_mset N"
  by (meson dist_mset_def le_trans mset_subset_eq_count)

lemma dist_mset_disjoint: "dist_mset M \<Longrightarrow> A + B \<subseteq># M \<Longrightarrow> b \<in># A \<Longrightarrow> b \<notin># B"
proof
  assume M: "dist_mset M" "A + B \<subseteq># M" and b: "b \<in># A" "b \<in># B"
  have "count (A + B) b \<le> 1" using dist_mset_sub [OF M] by (simp only: dist_mset_def)
  then show False using b by (simp add: count_greater_zero_iff [symmetric] del: count_greater_zero_iff)
qed

lemma dist_mset_add: "dist_mset M \<Longrightarrow> dist_mset N \<Longrightarrow> (\<And>b. b \<in># M \<Longrightarrow> b \<notin># N) \<Longrightarrow> dist_mset (M + N)"
  unfolding dist_mset_def
proof
  fix b
  assume d: "\<forall>b. count M b \<le> 1" "\<forall>b. count N b \<le> 1" "\<And>b. b \<in># M \<Longrightarrow> b \<notin># N"
  then show "count (M + N) b \<le> 1" by (cases "b \<in># M") (simp_all add: not_in_iff)
qed

subsection \<open>What a change of memory leaves alone\<close>

text \<open>\<open>m'\<close> extends \<open>m\<close>, keeps the length of every array, and changes only those in \<open>A\<close>.\<close>

definition agree :: "nat set \<Rightarrow> bytes list \<Rightarrow> bytes list \<Rightarrow> bool" where
  "agree A m m' \<longleftrightarrow> length m \<le> length m' \<and>
     (\<forall>b < length m. length (m' ! b) = length (m ! b) \<and> (b \<notin> A \<longrightarrow> m' ! b = m ! b))"

definition apart :: "nat set \<Rightarrow> bytes list \<Rightarrow> nat multiset \<Rightarrow> bool" where
  "apart A m own \<longleftrightarrow> (\<forall>b. b \<in># own \<longrightarrow> b < length m \<and> b \<notin> A)"

lemma agree_refl [simp]: "agree A m m"
  by (simp add: agree_def)

lemma agree_append [simp]: "agree A m (m @ k)"
  by (simp add: agree_def nth_append)

lemma agree_write: "b \<in> A \<Longrightarrow> length d \<le> length (m ! b) \<Longrightarrow> agree A m (writeAt m b d)"
  unfolding agree_def writeAt_def by (metis length_append length_drop length_list_update le_add_diff_inverse nth_list_update_eq
      nth_list_update_neq order_refl)

lemma agree_mono: "agree A m m' \<Longrightarrow> A \<subseteq> B \<Longrightarrow> agree B m m'"
  by (auto simp: agree_def)

lemma apartD: "apart A m own \<Longrightarrow> agree A m m' \<Longrightarrow> b \<in># own \<Longrightarrow> m' ! b = m ! b"
  by (simp add: apart_def agree_def)

lemma bytesAt_agree: "agree A m m' \<Longrightarrow> apart A m own \<Longrightarrow> sbase sl \<in># own \<Longrightarrow> bytesAt m' sl = bytesAt m sl"
  using apartD [of A m own m' "sbase sl"] by (simp add: bytesAt_def)

lemma jobOf_agree: "agree A m m' \<Longrightarrow> apart A m own \<Longrightarrow> sbase (bpayload j) \<in># own \<Longrightarrow> jobOf m' j = jobOf m j"
  using bytesAt_agree [of A m m' own "bpayload j"] by (simp add: jobOf_def)

lemma bytesAt_write: "b < length m \<Longrightarrow> bytesAt (writeAt m b d) \<lparr>sbase = b, slen = length d\<rparr> = d"
  by (simp add: bytesAt_def writeAt_def)

lemma bytesAt_other: "sbase sl \<noteq> b \<Longrightarrow> bytesAt (writeAt m b d) sl = bytesAt m sl"
  by (simp add: bytesAt_def writeAt_def)

section \<open>The program without buffers\<close>

text \<open>
  A state read as one of \<open>RelayConc\<close>: every slice by its content.  Taking and returning buffers leave
  that state as it is.
\<close>

fun absPhase :: "bytes list \<Rightarrow> bphase \<Rightarrow> wphase" where
  "absPhase m (BTook j) = Took (jobOf m j)"
| "absPhase m (BSeen j) = SeenBridge (jobOf m j)"
| "absPhase m (BOn j) = OnBridge (jobOf m j)"
| "absPhase m (BOnGot j b) = OnBridge (jobOf m j)"
| "absPhase m (BOnFilled j sl) = OnBridge (jobOf m j)"
| "absPhase m (BOff j) = OffBridge (jobOf m j)"
| "absPhase m (BLooked j found) = Looked (jobOf m j) found"
| "absPhase m (BGot j found b) = Looked (jobOf m j) found"
| "absPhase m (BFlushing stop) = Flushing stop"
| "absPhase m (BReturn stop ps os) = (if stop then Stopped else Select)"
| "absPhase m BStopped = Stopped"
| "absPhase m _ = Select"

fun returning :: "bphase \<Rightarrow> bool" where
  "returning (BReturn stop ps os) = True"
| "returning _ = False"

definition absWorker :: "bytes list \<Rightarrow> bworker \<Rightarrow> rworker" where
  "absWorker m w =
     \<lparr>wpc = absPhase m (bpc w), wsock = bsock w,
      batch = if returning (bpc w) then \<lparr>msgs = [], timerActive = btimer w\<rparr> else batchOf m w\<rparr>"

fun absRead :: "bytes list \<Rightarrow> bytes \<Rightarrow> bread \<Rightarrow> relayJob option" where
  "absRead m data RIdle = None"
| "absRead m data (RAdmitted sender dest) = Some \<lparr>senderID = sender, destID = dest, payload = drop 8 data\<rparr>"
| "absRead m data (RGot sender dest b) = Some \<lparr>senderID = sender, destID = dest, payload = drop 8 data\<rparr>"
| "absRead m data (RFilled j) = Some (jobOf m j)"

definition absReader :: "bytes list \<Rightarrow> breader \<Rightarrow> rreader" where
  "absReader m r =
     \<lparr>backlog = map (\<lambda>(sl, src). (drop 1 (bytesAt m sl), src)) (frames_left r),
      admitted = (case frames_left r of [] \<Rightarrow> None | (sl, src) # rest \<Rightarrow> absRead m (drop 1 (bytesAt m sl)) (rpc r))\<rparr>"

definition absSys :: "psys \<Rightarrow> rsys" where
  "absSys c = (let m = mem (shr c) in
     \<lparr>rsrv = psrv (shr c), rreaders = map (absReader m) (preaders c), rworkers = map (absWorker m) (pworkers c),
      rhandlers = phandlers c\<rparr>)"

section \<open>Local invariants\<close>

definition inArray :: "bytes list \<Rightarrow> slice \<Rightarrow> bool" where
  "inArray m sl \<longleftrightarrow> slen sl \<le> length (m ! sbase sl)"

fun phaseJob :: "bphase \<Rightarrow> bjob option" where
  "phaseJob (BTook j) = Some j"
| "phaseJob (BSeen j) = Some j"
| "phaseJob (BOn j) = Some j"
| "phaseJob (BOnGot j b) = Some j"
| "phaseJob (BOnFilled j sl) = Some j"
| "phaseJob (BOff j) = Some j"
| "phaseJob (BLooked j found) = Some j"
| "phaseJob (BGot j found b) = Some j"
| "phaseJob _ = None"

fun shaped :: "externs \<Rightarrow> bytes list \<Rightarrow> bphase \<Rightarrow> bool" where
  "shaped x m (BOnFilled j sl) \<longleftrightarrow> bytesAt m sl = frameDeliver x (jobOf m j) \<and> length (bytesAt m sl) \<le> outBufCap"
| "shaped x m _ \<longleftrightarrow> True"

definition workerOK :: "externs \<Rightarrow> bytes list \<Rightarrow> bworker \<Rightarrow> bool" where
  "workerOK x m w \<longleftrightarrow>
     list_all (\<lambda>b. length (m ! b) = outBufCap) (heldOuts w)
     \<and> (\<forall>j. phaseJob (bpc w) = Some j \<longrightarrow> inArray m (bpayload j))
     \<and> shaped x m (bpc w)
     \<and> (\<not> returning (bpc w) \<longrightarrow> map (\<lambda>(a, sl). sbase sl) (bmsgs w) = bouts w \<and> list_all (\<lambda>(a, sl). inArray m sl) (bmsgs w))"

definition readerOK :: "bytes list \<Rightarrow> breader \<Rightarrow> bool" where
  "readerOK m r \<longleftrightarrow>
     list_all (\<lambda>(sl, src). frame_in m (rbufs r) sl) (frames_left r) \<and> (rpc r \<noteq> RIdle \<longrightarrow> frames_left r \<noteq> [])
     \<and> (\<forall>j. rpc r = RFilled j \<longrightarrow> inArray m (bpayload j))"

definition sharedOK :: "shared \<Rightarrow> bool" where
  "sharedOK sh \<longleftrightarrow>
     relayChs (psrv sh) = map (map (jobOf (mem sh))) (queues sh)
     \<and> list_all (\<lambda>b. length (mem sh ! b) = outBufCap) (outPool sh)
     \<and> list_all (list_all (\<lambda>j. inArray (mem sh) (bpayload j))) (queues sh)"

subsection \<open>Frame lemmas\<close>

lemma inArray_agree: "agree A m m' \<Longrightarrow> sbase sl < length m \<Longrightarrow> inArray m' sl = inArray m sl"
  by (simp add: inArray_def agree_def)

lemma phaseJob_owned: "phaseJob pc = Some j \<Longrightarrow> sbase (bpayload j) \<in> set (phasePays pc)"
  by (cases pc) simp_all

lemma ownWorker_phase: "b \<in> set (phasePays (bpc w)) \<Longrightarrow> b \<in># ownWorker w" "b \<in> set (phaseOuts (bpc w)) \<Longrightarrow> b \<in># ownWorker w"
  by (simp_all add: ownWorker_def heldOuts_def)

lemma ownWorker_outs: "b \<in> set (heldOuts w) \<Longrightarrow> b \<in># ownWorker w"
  by (simp add: ownWorker_def)

lemma ownWorker_msgs:
  "workerOK x m w \<Longrightarrow> \<not> returning (bpc w) \<Longrightarrow> (a, sl) \<in> set (bmsgs w) \<Longrightarrow> sbase sl \<in># ownWorker w"
proof -
  assume w: "workerOK x m w" "\<not> returning (bpc w)" "(a, sl) \<in> set (bmsgs w)"
  have "sbase sl \<in> set (map (\<lambda>(a, sl). sbase sl) (bmsgs w))" using w(3) by force
  then have "sbase sl \<in> set (bouts w)" using w(1,2) by (simp add: workerOK_def del: set_map)
  moreover have "batchOuts w = bouts w" using w(2) by (cases "bpc w") (simp_all add: batchOuts_def)
  ultimately show ?thesis by (simp add: ownWorker_outs heldOuts_def)
qed

lemma absPhase_agree:
  assumes "agree A m m'" "apart A m (ownWorker w)"
  shows "absPhase m' (bpc w) = absPhase m (bpc w)"
proof -
  have "jobOf m' j = jobOf m j" if "phaseJob (bpc w) = Some j" for j
    by (rule jobOf_agree [OF assms ownWorker_phase(1) [OF phaseJob_owned [OF that]]])
  then show ?thesis by (cases "bpc w") simp_all
qed

lemma absWorker_agree:
  assumes "agree A m m'" "apart A m (ownWorker w)" "workerOK x m w"
  shows "absWorker m' w = absWorker m w"
proof -
  have "bytesAt m' sl = bytesAt m sl" if "\<not> returning (bpc w)" "(a, sl) \<in> set (bmsgs w)" for a sl
    by (rule bytesAt_agree [OF assms(1,2) ownWorker_msgs [OF assms(3) that]])
  then have "\<not> returning (bpc w) \<Longrightarrow> batchOf m' w = batchOf m w" by (auto simp: batchOf_def)
  then show ?thesis using absPhase_agree [OF assms(1,2)] by (simp add: absWorker_def)
qed

lemma workerOK_agree:
  assumes "agree A m m'" "apart A m (ownWorker w)" "workerOK x m w"
  shows "workerOK x m' w"
proof -
  have own: "m' ! b = m ! b" "b < length m" if "b \<in># ownWorker w" for b
    using apartD [OF assms(2,1) that] assms(2) that by (simp_all add: apart_def)
  have "list_all (\<lambda>b. length (m' ! b) = outBufCap) (heldOuts w)"
    using assms(3) own(1) [OF ownWorker_outs] by (simp add: workerOK_def list_all_iff)
  moreover have "inArray m' (bpayload j)" if "phaseJob (bpc w) = Some j" for j
    using assms(3) that inArray_agree [OF assms(1) own(2) [OF ownWorker_phase(1) [OF phaseJob_owned [OF that]]]]
    by (simp add: workerOK_def)
  moreover have "shaped x m' (bpc w)"
  proof (cases "bpc w")
    case (BOnFilled j sl)
    have "bytesAt m' sl = bytesAt m sl" by (rule bytesAt_agree [OF assms(1,2) ownWorker_phase(2)]) (simp add: BOnFilled)
    moreover have "jobOf m' j = jobOf m j" by (rule jobOf_agree [OF assms(1,2) ownWorker_phase(1)]) (simp add: BOnFilled)
    moreover have "shaped x m (BOnFilled j sl)" using assms(3) BOnFilled by (simp only: workerOK_def)
    ultimately show ?thesis using BOnFilled by auto
  qed simp_all
  moreover have "list_all (\<lambda>(a, sl). inArray m' sl) (bmsgs w)" if "\<not> returning (bpc w)"
    using assms(3) that inArray_agree [OF assms(1) own(2) [OF ownWorker_msgs [OF assms(3) that]]]
    by (auto simp: workerOK_def list_all_iff)
  ultimately show ?thesis using assms(3) by (simp add: workerOK_def)
qed

lemma ownReader_frames: "readerOK m r \<Longrightarrow> (sl, src) \<in> set (frames_left r) \<Longrightarrow> sbase sl \<in># ownReader r"
  by (auto simp: readerOK_def list_all_iff frame_in_def ownReader_def)

lemma absReader_agree:
  assumes "agree A m m'" "apart A m (ownReader r)" "readerOK m r"
  shows "absReader m' r = absReader m r" "readerOK m' r"
proof -
  have own: "m' ! b = m ! b" "b < length m" if "b \<in># ownReader r" for b
    using apartD [OF assms(2,1) that] assms(2) that by (simp_all add: apart_def)
  have "bytesAt m' sl = bytesAt m sl" if "(sl, src) \<in> set (frames_left r)" for sl src
    by (rule bytesAt_agree [OF assms(1,2) ownReader_frames [OF assms(3) that]])
  then have b: "\<forall>(sl, src) \<in> set (frames_left r). bytesAt m' sl = bytesAt m sl" by blast
  have f: "sbase (bpayload j) \<in># ownReader r" if "rpc r = RFilled j" for j using that by (simp add: ownReader_def)
  have "absRead m' d (rpc r) = absRead m d (rpc r)" for d
    using jobOf_agree [OF assms(1,2) f] by (cases "rpc r") simp_all
  then show "absReader m' r = absReader m r"
    using b by (cases "frames_left r") (auto simp: absReader_def split: prod.splits)
  have "frame_in m' (rbufs r) sl" if "(sl, src) \<in> set (frames_left r)" for sl src
    using assms(3) that own(1) [OF ownReader_frames [OF assms(3) that]] by (auto simp: readerOK_def list_all_iff frame_in_def)
  moreover have "inArray m' (bpayload j)" if "rpc r = RFilled j" for j
    using assms(3) that inArray_agree [OF assms(1) own(2) [OF f [OF that]]] by (simp add: readerOK_def)
  ultimately show "readerOK m' r" using assms(3) by (auto simp: readerOK_def list_all_iff)
qed

lemma ownShared_queue: "q \<in> set (queues sh) \<Longrightarrow> j \<in> set q \<Longrightarrow> sbase (bpayload j) \<in># ownShared sh"
proof -
  assume q: "q \<in> set (queues sh)" "j \<in> set q"
  then obtain i where i: "i < length (queues sh)" "queues sh ! i = q" by (auto simp: in_set_conv_nth)
  have "sbase (bpayload j) \<in># ownQueue q" using q(2) by (auto simp: ownQueue_def)
  then have "sbase (bpayload j) \<in># sum_list (map ownQueue (queues sh))"
    using sum_member [OF i(1), of ownQueue] i(2) by (auto dest: mset_subset_eqD)
  then show ?thesis by (simp add: ownShared_def)
qed

lemma sharedOK_agree:
  assumes "agree A (mem sh) m'" "apart A (mem sh) (ownShared sh)" "sharedOK sh"
  shows "sharedOK (sh\<lparr>mem := m'\<rparr>)"
proof -
  have own: "m' ! b = mem sh ! b" "b < length (mem sh)" if "b \<in># ownShared sh" for b
    using apartD [OF assms(2,1) that] assms(2) that by (simp_all add: apart_def)
  have "jobOf m' j = jobOf (mem sh) j" "inArray m' (bpayload j) = inArray (mem sh) (bpayload j)" if "q \<in> set (queues sh)" "j \<in> set q" for q j
    using jobOf_agree [OF assms(1,2) ownShared_queue [OF that]] inArray_agree [OF assms(1) own(2) [OF ownShared_queue [OF that]]] by blast+
  then have "map (map (jobOf m')) (queues sh) = map (map (jobOf (mem sh))) (queues sh)"
      "list_all (list_all (\<lambda>j. inArray m' (bpayload j))) (queues sh)"
    using assms(3) by (auto simp: sharedOK_def list_all_iff)
  moreover have "list_all (\<lambda>b. length (m' ! b) = outBufCap) (outPool sh)"
    using assms(3) own(1) by (auto simp: sharedOK_def list_all_iff ownShared_def)
  ultimately show ?thesis using assms(3) by (simp add: sharedOK_def)
qed

end
