(* ===== verification/BufferRefine.thy ===== *)
theory BufferRefine
  imports Buffers
begin

text \<open>
  Pooled buffers refine packets as values.  Every operation of theory \<open>Buffers\<close> touches only arrays its
  goroutine holds, and is a step of theory \<open>RelayConc\<close> or leaves its state as it is; hence so does
  every step of the system, in which each array has one holder.
\<close>

section \<open>Steps of a reader\<close>

text \<open>Addresses allocated by a step.\<close>

definition fresh :: "bytes list \<Rightarrow> bytes list \<Rightarrow> nat multiset" where
  "fresh m m' = mset [length m..<length m']"

lemma fresh_same [simp]: "fresh m m = {#}"
  by (simp add: fresh_def)

lemma fresh_one [simp]: "fresh m (m @ [a]) = {#length m#}"
  by (simp add: fresh_def)

lemma fresh_write [simp]: "fresh m (writeAt m b d) = {#}"
  by (simp add: fresh_def writeAt_def)

lemma poolGet_cases:
  assumes "poolGet pick n m p = (b, m', p')"
  obtains "m' = m" "mset p = add_mset b (mset p')" | "m' = m @ [replicate n 0]" "b = length m" "p' = p"
proof (cases "\<exists>k < length p. pick = Some k")
  case True
  then obtain k where k: "pick = Some k" "k < length p" by blast
  have "mset p = mset (take k p @ p ! k # drop (Suc k) p)" using id_take_nth_drop [OF k(2)] by simp
  then show thesis using assms k by (intro that(1)) (auto simp: poolGet_def)
next
  case False
  then show thesis using assms by (intro that(2)) (auto simp: poolGet_def split: option.splits if_splits)
qed

definition owns_ok :: "shared \<Rightarrow> nat multiset \<Rightarrow> shared \<Rightarrow> nat multiset \<Rightarrow> bool" where
  "owns_ok sh own sh' own' \<longleftrightarrow>
     agree (set_mset own) (mem sh) (mem sh') \<and> ownShared sh' + own' \<subseteq># ownShared sh + own + fresh (mem sh) (mem sh')"

text \<open>A step is invisible, or the step of the reader without buffers; and it touches its own buffers only.\<close>

definition reader_simulates :: "env \<Rightarrow> shared \<Rightarrow> breader \<Rightarrow> shared \<times> breader \<Rightarrow> bool" where
  "reader_simulates e sh r c \<longleftrightarrow>
     (case c of (sh', r') \<Rightarrow>
        (psrv sh' = psrv sh \<and> absReader (mem sh') r' = absReader (mem sh) r
         \<or> readerStep e (psrv sh) (absReader (mem sh) r) = Some (psrv sh', absReader (mem sh') r'))
        \<and> sharedOK sh' \<and> readerOK (mem sh') r' \<and> rbufs r' = rbufs r \<and> owns_ok sh (ownReader r) sh' (ownReader r'))"

lemma ownShared_srv [simp]: "ownShared (sh\<lparr>psrv := s\<rparr>) = ownShared sh" "ownShared (sh\<lparr>mem := m\<rparr>) = ownShared sh" "ownShared (panicked sh) = ownShared sh"
  by (simp_all add: ownShared_def panicked_def)

lemma ownShared_put [simp]: "ownShared (putPay b sh) = add_mset b (ownShared sh)" "ownShared (putOut b sh) = add_mset b (ownShared sh)"
  by (simp_all add: ownShared_def putPay_def putOut_def)

lemma panicked_fields [simp]: "mem (panicked sh) = mem sh" "queues (panicked sh) = queues sh" "outPool (panicked sh) = outPool sh"
    "payPool (panicked sh) = payPool sh" "psrv (panicked sh) = (psrv sh)\<lparr>recoveredPanics := recoveredPanics (psrv sh) + 1\<rparr>"
  by (simp_all add: panicked_def)

lemma put_fields [simp]: "mem (putPay b sh) = mem sh" "queues (putPay b sh) = queues sh" "outPool (putPay b sh) = outPool sh"
    "psrv (putPay b sh) = psrv sh" "mem (putOut b sh) = mem sh" "queues (putOut b sh) = queues sh" "psrv (putOut b sh) = psrv sh"
    "outPool (putOut b sh) = b # outPool sh"
  by (simp_all add: putPay_def putOut_def)

lemma sharedOK_srv: "sharedOK sh \<Longrightarrow> relayChs s = relayChs (psrv sh) \<Longrightarrow> sharedOK (sh\<lparr>psrv := s\<rparr>)"
  by (simp add: sharedOK_def)

lemma sharedOK_panicked [simp]: "sharedOK (panicked sh) = sharedOK sh"
  by (simp add: sharedOK_def)

lemma sharedOK_put [simp]: "sharedOK (putPay b sh) = sharedOK sh" "length (mem sh ! b) = outBufCap \<Longrightarrow> sharedOK (putOut b sh) = sharedOK sh"
  by (simp_all add: sharedOK_def)

lemma admitRelay_effect:
  "admitRelay e s data src = Done (job, s') \<Longrightarrow> relayChs s' = relayChs s \<and> (\<forall>j. job = Some j \<longrightarrow> payload j = drop 8 data)"
  "admitRelay e s data src = Panicked (job, s') \<Longrightarrow> s' = s"
  by (auto simp: admitRelay_def Let_def split: if_splits option.splits prod.splits)

lemma absReader_next:
  assumes "frames_left r = (sl, src) # rest"
  shows "absReader m (nextFrame r) = \<lparr>backlog = map (\<lambda>(sl, src). (drop 1 (bytesAt m sl), src)) rest, admitted = None\<rparr>"
  using assms by (auto simp: absReader_def nextFrame_def split: list.split)

lemma readerOK_next: "readerOK m r \<Longrightarrow> frames_left r = f # rest \<Longrightarrow> readerOK m (nextFrame r)"
  by (auto simp: readerOK_def nextFrame_def)

lemma reader_idle:
  assumes "sharedOK sh" "readerOK (mem sh) r" "rpc r = RIdle" "readerOp e pick sh r = Some c"
  shows "reader_simulates e sh r c"
proof -
  obtain sl src rest where f: "frames_left r = (sl, src) # rest" using assms(4) by (auto simp: readerOp_def split: list.splits)
  let ?d = "drop 1 (bytesAt (mem sh) sl)"
  have a: "admitted (absReader (mem sh) r) = None" "backlog (absReader (mem sh) r) = (?d, src) # map (\<lambda>(sl, src). (drop 1 (bytesAt (mem sh) sl), src)) rest"
    using f assms(3) by (simp_all add: absReader_def)
  have own: "ownReader (nextFrame r) = ownReader r" "\<And>a b. ownReader (r\<lparr>rpc := RAdmitted a b\<rparr>) = ownReader r" "rbufs (nextFrame r) = rbufs r"
    using assms(3) by (simp_all add: ownReader_def nextFrame_def)
  note next' = absReader_next [OF f] readerOK_next [OF assms(2) f]
  show ?thesis
  proof (cases "admitRelay e (psrv sh) ?d src")
    case (Done js)
    obtain job s1 where js: "js = (job, s1)" by force
    note eff = admitRelay_effect(1) [OF Done [unfolded js]]
    show ?thesis
    proof (cases job)
      case None
      then have "c = (sh\<lparr>psrv := s1\<rparr>, nextFrame r)" using assms(3,4) f Done js by (simp add: readerOp_def Let_def)
      then show ?thesis
        using eff a Done js None next' own sharedOK_srv [OF assms(1)]
        by (simp add: reader_simulates_def owns_ok_def readerStep_def absReader_def)
    next
      case (Some j)
      have c: "c = (sh\<lparr>psrv := s1\<rparr>, r\<lparr>rpc := RAdmitted (senderID j) (destID j)\<rparr>)"
        using assms(3,4) f Done js Some by (simp add: readerOp_def Let_def)
      have "absReader (mem sh) (r\<lparr>rpc := RAdmitted (senderID j) (destID j)\<rparr>) = (absReader (mem sh) r)\<lparr>admitted := Some j\<rparr>"
        using eff Some f by (simp add: absReader_def)
      moreover have "readerOK (mem sh) (r\<lparr>rpc := RAdmitted (senderID j) (destID j)\<rparr>)"
        using assms(2) f by (simp add: readerOK_def)
      ultimately show ?thesis
        using eff a Done js Some own sharedOK_srv [OF assms(1)] by (simp add: c reader_simulates_def owns_ok_def readerStep_def)
    qed
  next
    case (Panicked js)
    obtain job s1 where js: "js = (job, s1)" by force
    have s1: "s1 = psrv sh" using admitRelay_effect(2) Panicked js by blast
    have "c = (panicked sh, nextFrame r)" using assms(3,4) f Panicked js s1 by (simp add: readerOp_def Let_def panicked_def)
    then show ?thesis
      using a Panicked js s1 next' own assms(1)
      by (simp add: reader_simulates_def owns_ok_def readerStep_def readerPanics_def absReader_def)
  qed
qed

lemma sharedOK_append: "sharedOK sh \<Longrightarrow> apart {} (mem sh) (ownShared sh) \<Longrightarrow> sharedOK (sh\<lparr>mem := mem sh @ k\<rparr>)"
  by (rule sharedOK_agree [where A = "{}"]) simp_all

lemma apart_sub: "apart A m M \<Longrightarrow> N \<subseteq># M \<Longrightarrow> apart A m N"
  by (auto simp: apart_def dest: mset_subset_eqD)

lemma reader_get:
  assumes "sharedOK sh" "readerOK (mem sh) r" "apart {} (mem sh) (ownShared sh + ownReader r)" "rpc r = RAdmitted sender dest"
    "readerOp e pick sh r = Some c"
  shows "reader_simulates e sh r c"
proof -
  obtain sl src rest where f: "frames_left r = (sl, src) # rest" using assms(5) by (auto simp: readerOp_def split: list.splits)
  obtain b m p where g: "poolGet pick payloadBufSize (mem sh) (payPool sh) = (b, m, p)" by (metis prod_cases3)
  let ?sh = "sh\<lparr>mem := m, payPool := p\<rparr>" and ?r = "r\<lparr>rpc := RGot sender dest b\<rparr>"
  have c: "c = (?sh, ?r)" using assms(4,5) f g by (simp add: readerOp_def Let_def)
  have ap: "apart {} (mem sh) (ownShared sh)" "apart {} (mem sh) (ownReader r)"
    by (rule apart_sub [OF assms(3)], simp)+
  have own: "agree {} (mem sh) m" "ownShared ?sh + ownReader ?r \<subseteq># ownShared sh + ownReader r + fresh (mem sh) m"
    by (rule poolGet_cases [OF g]; simp add: ownShared_def ownReader_def assms(4))+
  have s: "sharedOK ?sh" using sharedOK_agree [OF own(1) ap(1) assms(1)] by (simp add: sharedOK_def)
  have "absReader m ?r = absReader m r" "readerOK m ?r = readerOK m r"
    using assms(4) f by (simp_all add: absReader_def readerOK_def)
  then show ?thesis
    using s own absReader_agree [OF own(1) ap(2) assms(2)]
    by (simp add: c reader_simulates_def owns_ok_def agree_mono [OF own(1)])
qed

lemma copyPayload_effect:
  assumes "copyPayload m b body = (sl, m')" "b < length m"
  shows "agree {b} m m'" "bytesAt m' sl = body" "inArray m' sl" "{#sbase sl#} \<subseteq># add_mset b (fresh m m')"
proof -
  consider (new) "length (m ! b) < length body" "sl = \<lparr>sbase = length m, slen = length body\<rparr>" "m' = m @ [body]"
    | (old) "length body \<le> length (m ! b)" "sl = \<lparr>sbase = b, slen = length body\<rparr>" "m' = writeAt m b body"
    using assms(1) by (fastforce simp: copyPayload_def split: if_splits)
  then have "agree {b} m m' \<and> bytesAt m' sl = body \<and> inArray m' sl \<and> {#sbase sl#} \<subseteq># add_mset b (fresh m m')"
  proof cases
    case new
    then show ?thesis by (simp add: bytesAt_def inArray_def)
  next
    case old
    then show ?thesis using assms(2) agree_write [of b "{b}" body m] bytesAt_write [OF assms(2)] by (simp add: inArray_def writeAt_def)
  qed
  then show "agree {b} m m'" "bytesAt m' sl = body" "inArray m' sl" "{#sbase sl#} \<subseteq># add_mset b (fresh m m')" by auto
qed

lemma reader_copy:
  assumes "sharedOK sh" "readerOK (mem sh) r" "dist_mset (ownShared sh + ownReader r)" "apart {} (mem sh) (ownShared sh + ownReader r)"
    "rpc r = RGot sender dest b" "readerOp e pick sh r = Some c"
  shows "reader_simulates e sh r c"
proof -
  obtain sl src rest where f: "frames_left r = (sl, src) # rest" using assms(6) by (auto simp: readerOp_def split: list.splits)
  let ?m = "mem sh" and ?body = "drop 8 (drop 1 (bytesAt (mem sh) sl))"
  obtain sl' m where cp: "copyPayload ?m b ?body = (sl', m)" by force
  let ?j = "\<lparr>bsender = sender, bdest = dest, bpayload = sl'\<rparr>"
  let ?r = "r\<lparr>rpc := RFilled ?j\<rparr>"
  have c: "c = (sh\<lparr>mem := m\<rparr>, ?r)" using assms(5,6) f cp by (simp add: readerOp_def Let_def)
  have b: "b \<in># ownReader r" "b < length ?m" using assms(4,5) by (auto simp: ownReader_def apart_def)
  have nb: "b \<notin> set (rbufs r)"
    using dist_mset_disjoint [OF assms(3), of "mset (readPays (rpc r))" "mset (rbufs r)" b] assms(5)
    by (auto simp: ownReader_def ac_simps)
  note m = copyPayload_effect [OF cp b(2)]
  have o: "ownReader ?r \<subseteq># ownReader r + fresh ?m m"
    using m(4) assms(5) by (simp add: ownReader_def)
  have ap: "apart {b} ?m (ownShared sh)"
    using dist_mset_disjoint [OF assms(3), of "ownReader r" "ownShared sh" b] assms(4) b(1) by (auto simp: apart_def ac_simps)
  let ?i = "r\<lparr>rpc := RAdmitted sender dest\<rparr>"
  have i: "readerOK ?m ?i" "apart {b} ?m (ownReader ?i)"
    using assms(2,4) nb f by (auto simp: readerOK_def apart_def ownReader_def)
  note ag = absReader_agree [OF m(1) i(2,1)]
  have "bytesAt m sl = bytesAt ?m sl"
    by (rule bytesAt_agree [OF m(1) i(2) ownReader_frames [OF i(1), of sl src]]) (simp add: f)
  then have "absReader m ?r = absReader m ?i" using f m(2) by (simp add: absReader_def jobOf_def)
  moreover have "absReader ?m ?i = absReader ?m r" using f assms(5) by (simp add: absReader_def)
  moreover have "readerOK m ?r" using ag(2) m(3) by (simp add: readerOK_def)
  moreover have "ownShared sh + ownReader ?r \<subseteq># ownShared sh + ownReader r + fresh ?m m"
    using o by (simp add: add.assoc)
  ultimately show ?thesis
    using sharedOK_agree [OF m(1) ap assms(1)] ag(1) agree_mono [OF m(1), of "set_mset (ownReader r)"] b(1)
    by (simp add: c reader_simulates_def owns_ok_def)
qed

lemma map_jobs_append:
  "i < length qs \<Longrightarrow> (map (map f) qs)[i := map (map f) qs ! i @ [f j]] = map (map f) (qs[i := qs ! i @ [j]])"
  by (simp add: map_update)

lemma enqueueBuf_cases:
  assumes "sharedOK sh" "server_inv (psrv sh)" "inArray (mem sh) (bpayload j)" "enqueueBuf e sh j = res"
  shows "\<exists>sh'. res = Done sh' \<and> enqueueRelay e (psrv sh) (jobOf (mem sh) j) = Done (psrv sh') \<and> sharedOK sh' \<and> mem sh' = mem sh
    \<and> ownShared sh' = add_mset (sbase (bpayload j)) (ownShared sh)"
proof -
  let ?s = "psrv sh"
  obtain i where i: "i < length (relayChs ?s)" "relayQueueFor ?s (bdest j) = Some i"
    using relayQueueFor_less [OF server_invD(1) [OF assms(2)]] by blast
  have q: "relayChs ?s = map (map (jobOf (mem sh))) (queues sh)" "i < length (queues sh)"
    "length (relayChs ?s ! i) = length (queues sh ! i)"
    using assms(1) i(1) by (auto simp: sharedOK_def)
  have e: "enqueueRelay e ?s (jobOf (mem sh) j) =
     (if length (queues sh ! i) < relayChCap ?s
      then Done (?s\<lparr>relayChs := (relayChs ?s)[i := relayChs ?s ! i @ [jobOf (mem sh) j]]\<rparr>)
      else let s1 = ?s\<lparr>relayDropped := relayDropped ?s + 1\<rparr>; now = UnixNano (clk e 1) in
        Done (if word_of_int second <s now - lastDropLog s1 then s1\<lparr>lastDropLog := now\<rparr> else s1))"
    using i(2) q(3) by (simp add: enqueueRelay_def jobOf_def)
  show ?thesis
  proof (cases "length (queues sh ! i) < relayChCap ?s")
    case True
    let ?qs = "(queues sh)[i := queues sh ! i @ [j]]"
    let ?sh = "sh\<lparr>psrv := ?s\<lparr>relayChs := (relayChs ?s)[i := relayChs ?s ! i @ [jobOf (mem sh) j]]\<rparr>, queues := ?qs\<rparr>"
    have r: "res = Done ?sh" using assms(4) True i(2) e by (simp add: enqueueBuf_def)
    have "sum_list (map ownQueue ?qs) = add_mset (sbase (bpayload j)) (sum_list (map ownQueue (queues sh)))"
      using sum_update [OF q(2), of ownQueue "queues sh ! i @ [j]"] by (simp add: ownQueue_def)
    moreover have "sharedOK ?sh"
    proof -
      have "list_all (list_all (\<lambda>j. inArray (mem sh) (bpayload j))) (queues sh)" using assms(1) by (simp add: sharedOK_def)
      moreover from this have "list_all (\<lambda>j. inArray (mem sh) (bpayload j)) (queues sh ! i)" using q(2) by (simp add: list_all_length)
      ultimately have "list_all (list_all (\<lambda>j. inArray (mem sh) (bpayload j))) ?qs" using assms(3) by (intro list_all_update) simp_all
      then show ?thesis using assms(1) q(1) map_jobs_append [OF q(2), of "jobOf (mem sh)" j] by (simp add: sharedOK_def)
    qed
    ultimately show ?thesis using r e True by (simp add: ownShared_def)
  next
    case False
    obtain s1 where s1: "enqueueRelay e ?s (jobOf (mem sh) j) = Done s1" "relayChs s1 = relayChs ?s"
      using e False by (auto simp: Let_def split: if_splits)
    have "res = Done (putPay (sbase (bpayload j)) (sh\<lparr>psrv := s1\<rparr>))" using assms(4) False i(2) s1(1) by (simp add: enqueueBuf_def)
    then show ?thesis using s1 sharedOK_srv [OF assms(1) s1(2)] by simp
  qed
qed

lemma reader_queue:
  assumes "sharedOK sh" "readerOK (mem sh) r" "server_inv (psrv sh)" "rpc r = RFilled j" "readerOp e pick sh r = Some c"
  shows "reader_simulates e sh r c"
proof -
  obtain sl src rest where f: "frames_left r = (sl, src) # rest" using assms(5) by (auto simp: readerOp_def split: list.splits)
  have "inArray (mem sh) (bpayload j)" using assms(2,4) by (simp add: readerOK_def)
  then obtain sh' where q: "enqueueBuf e sh j = Done sh'" "enqueueRelay e (psrv sh) (jobOf (mem sh) j) = Done (psrv sh')" "sharedOK sh'"
      "mem sh' = mem sh" "ownShared sh' = add_mset (sbase (bpayload j)) (ownShared sh)"
    using enqueueBuf_cases [OF assms(1,3) _ refl] by blast
  have "c = (sh', nextFrame r)" using assms(4,5) f q(1) by (simp add: readerOp_def Let_def)
  moreover have "ownReader r = add_mset (sbase (bpayload j)) (ownReader (nextFrame r))"
    using assms(4) by (simp add: ownReader_def nextFrame_def)
  moreover have "readerStep e (psrv sh) (absReader (mem sh) r) = Some (psrv sh', absReader (mem sh) (nextFrame r))"
    using q(2) f assms(4) absReader_next [OF f] by (simp add: readerStep_def absReader_def)
  ultimately show ?thesis
    using q(3-5) readerOK_next [OF assms(2) f] by (simp add: reader_simulates_def owns_ok_def nextFrame_def)
qed

lemma reader_sim:
  assumes "sharedOK sh" "readerOK (mem sh) r" "server_inv (psrv sh)" "dist_mset (ownShared sh + ownReader r)"
    "apart {} (mem sh) (ownShared sh + ownReader r)" "readerOp e pick sh r = Some c"
  shows "reader_simulates e sh r c"
  using assms by (cases "rpc r") (auto intro: reader_idle reader_get reader_copy reader_queue)

section \<open>Steps of a worker\<close>

definition worker_simulates :: "externs \<Rightarrow> nat \<Rightarrow> wenv \<Rightarrow> worker_ev \<Rightarrow> shared \<Rightarrow> bworker \<Rightarrow> shared \<times> bworker \<Rightarrow> bool" where
  "worker_simulates x i e ev sh w c \<longleftrightarrow>
     (case c of (sh', w') \<Rightarrow>
        (psrv sh' = psrv sh \<and> absWorker (mem sh') w' = absWorker (mem sh) w
         \<or> workerStep x i e ev (psrv sh) (absWorker (mem sh) w) = Some (psrv sh', absWorker (mem sh') w'))
        \<and> sharedOK sh' \<and> workerOK x (mem sh') w' \<and> bsock w' = bsock w \<and> owns_ok sh (ownWorker w) sh' (ownWorker w'))"

lemma absWorker_fields [simp]: "wpc (absWorker m w) = absPhase m (bpc w)" "wsock (absWorker m w) = bsock w"
    "\<not> returning (bpc w) \<Longrightarrow> batch (absWorker m w) = batchOf m w"
  by (simp_all add: absWorker_def)

lemma batchOf_pc [simp]: "batchOf m (w\<lparr>bpc := p\<rparr>) = batchOf m w"
  by (simp add: batchOf_def)

lemma absWorker_pc: "\<not> returning (bpc w) \<Longrightarrow> \<not> returning p \<Longrightarrow> absWorker m (w\<lparr>bpc := p\<rparr>) = (absWorker m w)\<lparr>wpc := absPhase m p\<rparr>"
  by (simp add: absWorker_def)

lemma batch_held: "\<not> returning (bpc w) \<Longrightarrow> batchPays w = bpays w" "\<not> returning (bpc w) \<Longrightarrow> batchOuts w = bouts w"
  by (cases "bpc w"; simp add: batchPays_def batchOuts_def)+

lemma ownWorker_pc:
  "\<not> returning (bpc w) \<Longrightarrow> ownWorker w = mset (phasePays (bpc w)) + mset (phaseOuts (bpc w)) + mset (bpays w) + mset (bouts w)"
  by (simp add: ownWorker_def heldOuts_def batch_held ac_simps)

lemma workerOK_pc:
  "\<not> returning (bpc w) \<Longrightarrow> workerOK x m w \<longleftrightarrow>
     list_all (\<lambda>b. length (m ! b) = outBufCap) (phaseOuts (bpc w) @ bouts w)
     \<and> (\<forall>j. phaseJob (bpc w) = Some j \<longrightarrow> inArray m (bpayload j)) \<and> shaped x m (bpc w)
     \<and> map (\<lambda>(a, sl). sbase sl) (bmsgs w) = bouts w \<and> list_all (\<lambda>(a, sl). inArray m sl) (bmsgs w)"
  by (simp add: workerOK_def heldOuts_def batch_held)

lemma unwind_abs:
  assumes "bufUnwind sh w = (sh', w')"
  shows "unwind (psrv sh) (absWorker (mem sh) w) = (psrv sh', absWorker (mem sh') w')" "mem sh' = mem sh" "sharedOK sh' = sharedOK sh"
    "workerOK x m w'" "bsock w' = bsock w" "ownShared sh' = ownShared sh" "ownWorker w' = {#}"
  using assms
  by (auto simp: bufUnwind_def unwind_def absWorker_def batchOf_def freshWorker_def ownWorker_def heldOuts_def batchPays_def batchOuts_def
      workerOK_def split: if_splits)

lemma unwind_sim:
  assumes "sharedOK sh" "workerStep x i e ev (psrv sh) (absWorker (mem sh) w) = Some (unwind (psrv sh) (absWorker (mem sh) w))"
  shows "worker_simulates x i e ev sh w (bufUnwind sh w)"
proof -
  obtain sh' w' where u: "bufUnwind sh w = (sh', w')" by force
  show ?thesis using assms unwind_abs [OF u] by (simp add: worker_simulates_def u owns_ok_def)
qed

text \<open>A step that moves on with the buffers it has.\<close>

lemma move_sim:
  assumes "sharedOK sh" "workerOK x (mem sh) w" "\<not> returning (bpc w)" "\<not> returning p"
    "phasePays p = phasePays (bpc w)" "phaseOuts p = phaseOuts (bpc w)" "phaseJob p = phaseJob (bpc w)" "shaped x (mem sh) p"
    "workerStep x i e ev (psrv sh) (absWorker (mem sh) w) = Some (psrv sh, (absWorker (mem sh) w)\<lparr>wpc := absPhase (mem sh) p\<rparr>)"
  shows "worker_simulates x i e ev sh w (sh, w\<lparr>bpc := p\<rparr>)"
  using assms by (simp add: worker_simulates_def owns_ok_def absWorker_pc ownWorker_pc workerOK_pc)

lemma select_sim:
  assumes "sharedOK sh" "workerOK x (mem sh) w" "bpc w = BSelect" "i < length (queues sh)" "bufSelect i ev sh w = Some c"
  shows "worker_simulates x i e ev sh w c"
proof (cases ev)
  case TakeJob
  let ?m = "mem sh" and ?s = "psrv sh"
  obtain j rest where q: "queues sh ! i = j # rest"
    and c: "c = (sh\<lparr>queues := (queues sh)[i := rest], psrv := ?s\<lparr>relayChs := (relayChs ?s)[i := tl (relayChs ?s ! i)]\<rparr>\<rparr>, w\<lparr>bpc := BTook j\<rparr>)"
    using assms(5) TakeJob by (auto simp: bufSelect_def Let_def split: list.splits)
  have ch: "relayChs ?s = map (map (jobOf ?m)) (queues sh)" "relayChs ?s ! i = jobOf ?m j # map (jobOf ?m) rest"
    using assms(1,4) q by (simp_all add: sharedOK_def)
  have la: "list_all (list_all (\<lambda>j. inArray ?m (bpayload j))) (queues sh)" using assms(1) by (simp add: sharedOK_def)
  then have j: "inArray ?m (bpayload j)" "list_all (\<lambda>j. inArray ?m (bpayload j)) rest"
    using assms(4) q by (auto simp: list_all_length [of "list_all _"] dest!: spec [of _ i])
  have "sharedOK (fst c)"
    using assms(1) ch list_all_update [OF la, of rest i] j(2) by (simp add: c sharedOK_def map_update)
  moreover have "sum_list (map ownQueue (queues sh)) = add_mset (sbase (bpayload j)) (sum_list (map ownQueue ((queues sh)[i := rest])))"
    using sum_update [OF assms(4), of ownQueue rest] q by (simp add: ownQueue_def)
  then have "owns_ok sh (ownWorker w) (fst c) (ownWorker (snd c))"
    using assms(3) by (simp add: c owns_ok_def ownWorker_pc ownShared_def)
  moreover have "workerStep x i e ev ?s (absWorker ?m w) = Some (psrv (fst c), absWorker ?m (snd c))"
    using assms(3) TakeJob ch(2) by (simp add: c workerStep_def selectStep_def absWorker_pc)
  moreover have "workerOK x ?m (snd c)" using assms(2,3) j(1) by (simp add: c workerOK_pc)
  ultimately show ?thesis by (simp add: c worker_simulates_def)
next
  case TimerFired
  have c: "c = (sh, w\<lparr>btimer := False, bpc := BFlushing False\<rparr>)" "btimer w" using assms(5) TimerFired by (auto simp: bufSelect_def split: if_splits)
  have "workerStep x i e ev (psrv sh) (absWorker (mem sh) w) = Some (psrv sh, absWorker (mem sh) (w\<lparr>btimer := False, bpc := BFlushing False\<rparr>))"
    using assms(3) TimerFired c(2) by (simp add: workerStep_def selectStep_def absWorker_def batchOf_def)
  then show ?thesis using assms(1-3) by (simp add: c(1) worker_simulates_def owns_ok_def ownWorker_pc workerOK_pc)
next
  case Shutdown
  have c: "c = (sh, w\<lparr>bpc := BFlushing True\<rparr>)" "serverDone (psrv sh)" using assms(5) Shutdown by (auto simp: bufSelect_def split: if_splits)
  then show ?thesis
    using assms(3) Shutdown by (auto simp: workerStep_def selectStep_def intro!: move_sim [OF assms(1,2)])
qed

lemma outGet_effect:
  assumes "sharedOK sh" "apart {} (mem sh) (ownShared sh)" "outGet pick sh = (b, sh')"
  shows "psrv sh' = psrv sh" "agree {} (mem sh) (mem sh')" "sharedOK sh'" "length (mem sh' ! b) = outBufCap"
    "add_mset b (ownShared sh') \<subseteq># ownShared sh + fresh (mem sh) (mem sh')"
proof -
  obtain m p where g: "poolGet pick outBufCap (mem sh) (outPool sh) = (b, m, p)" and sh': "sh' = sh\<lparr>mem := m, outPool := p\<rparr>"
    using assms(3) by (auto simp: outGet_def split: prod.splits)
  have all: "\<forall>b \<in># mset (outPool sh). length (mem sh ! b) = outBufCap" using assms(1) by (simp add: sharedOK_def list_all_iff)
  have "agree {} (mem sh) m \<and> length (m ! b) = outBufCap \<and> add_mset b (ownShared sh') \<subseteq># ownShared sh + fresh (mem sh) m \<and> set p \<subseteq> set (outPool sh)"
  proof (rule poolGet_cases [OF g])
    assume m: "m = mem sh" "mset (outPool sh) = add_mset b (mset p)"
    then have "set p \<subseteq> set (outPool sh)" by (metis set_mset_add_mset_insert set_mset_mset subset_insertI)
    then show ?thesis using m all by (simp add: sh' ownShared_def)
  next
    assume "m = mem sh @ [replicate outBufCap 0]" "b = length (mem sh)" "p = outPool sh"
    then show ?thesis by (simp add: sh' ownShared_def)
  qed
  then have r: "agree {} (mem sh) m" "length (m ! b) = outBufCap" "add_mset b (ownShared sh') \<subseteq># ownShared sh + fresh (mem sh) m"
      "set p \<subseteq> set (outPool sh)" by auto
  have "sharedOK (sh\<lparr>mem := m\<rparr>)" by (rule sharedOK_agree [OF r(1) assms(2,1)])
  then show "sharedOK sh'" using r(4) by (auto simp: sh' sharedOK_def list_all_iff)
  show "psrv sh' = psrv sh" "agree {} (mem sh) (mem sh')" "length (mem sh' ! b) = outBufCap"
    "add_mset b (ownShared sh') \<subseteq># ownShared sh + fresh (mem sh) (mem sh')" using r by (simp_all add: sh')
qed

lemma get_sim:
  assumes "sharedOK sh" "workerOK x (mem sh) w" "apart {} (mem sh) (ownShared sh + ownWorker w)" "outGet pick sh = (b, sh')"
    "bpc w = BOn j \<and> p = BOnGot j b \<or> bpc w = BLooked j found \<and> p = BGot j found b"
  shows "worker_simulates x i e ev sh w (sh', w\<lparr>bpc := p\<rparr>)"
proof -
  have ap: "apart {} (mem sh) (ownShared sh)" "apart {} (mem sh) (ownWorker w)" by (rule apart_sub [OF assms(3)], simp)+
  note g = outGet_effect [OF assms(1) ap(1) assms(4)]
  have nr: "\<not> returning (bpc w)" "\<not> returning p" using assms(5) by auto
  have ok: "workerOK x (mem sh') w" by (rule workerOK_agree [OF g(2) ap(2) assms(2)])
  have "absPhase (mem sh') p = absPhase (mem sh') (bpc w)" using assms(5) by auto
  then have "absWorker (mem sh') (w\<lparr>bpc := p\<rparr>) = absWorker (mem sh') w" using nr by (simp add: absWorker_def)
  then have "absWorker (mem sh') (w\<lparr>bpc := p\<rparr>) = absWorker (mem sh) w" using absWorker_agree [OF g(2) ap(2) assms(2)] by simp
  moreover have "workerOK x (mem sh') (w\<lparr>bpc := p\<rparr>)" using ok nr g(4) assms(5) by (auto simp: workerOK_pc)
  moreover have "ownWorker (w\<lparr>bpc := p\<rparr>) = add_mset b (ownWorker w)" using nr assms(5) by (auto simp: ownWorker_pc)
  moreover have "add_mset b (ownShared sh' + ownWorker w) \<subseteq># ownShared sh + ownWorker w + fresh (mem sh) (mem sh')"
    using subset_mset.add_right_mono [OF g(5), of "ownWorker w"] by (simp add: ac_simps)
  ultimately show ?thesis using g(1,3) agree_mono [OF g(2)] by (simp add: worker_simulates_def owns_ok_def)
qed

text \<open>Writing into an output buffer that is held leaves everything else the worker holds alone.\<close>

lemma write_effect:
  assumes "sharedOK sh" "workerOK x (mem sh) w" "dist_mset (ownShared sh + ownWorker w)" "apart {} (mem sh) (ownShared sh + ownWorker w)"
    "\<not> returning (bpc w)" "phaseOuts (bpc w) = [b]" "phasePays (bpc w) = [sbase (bpayload j)]" "phaseJob (bpc w) = Some j"
    "length f \<le> outBufCap" "m = writeAt (mem sh) b f"
  shows "agree {b} (mem sh) m" "sharedOK (sh\<lparr>mem := m\<rparr>)" "jobOf m j = jobOf (mem sh) j" "batchOf m w = batchOf (mem sh) w"
    "bytesAt m \<lparr>sbase = b, slen = length f\<rparr> = f" "workerOK x m (w\<lparr>bpc := BTook j\<rparr>)" "length (m ! b) = outBufCap" "b \<in># ownWorker w"
proof -
  have len: "length (mem sh ! b) = outBufCap" using assms(2,5,6) by (simp add: workerOK_pc)
  have own: "ownWorker w = {#sbase (bpayload j), b#} + mset (bpays w) + mset (bouts w)" using assms(5-7) by (simp add: ownWorker_pc)
  show b: "b \<in># ownWorker w" by (simp add: own)
  then have bm: "b < length (mem sh)" using assms(4) by (auto simp: apart_def)
  show ag: "agree {b} (mem sh) m" using agree_write [of b "{b}" f "mem sh"] assms(9,10) len by simp
  have "apart {b} (mem sh) (ownShared sh)"
    using dist_mset_disjoint [OF assms(3), of "ownWorker w" "ownShared sh" b] assms(4) b by (auto simp: apart_def ac_simps)
  then show "sharedOK (sh\<lparr>mem := m\<rparr>)" by (rule sharedOK_agree [OF ag _ assms(1)])
  let ?t = "w\<lparr>bpc := BTook j\<rparr>"
  have t: "ownWorker ?t + {#b#} = ownWorker w" by (simp add: own ownWorker_pc)
  have "b \<notin># ownWorker ?t"
    using dist_mset_disjoint [OF assms(3), of "{#b#}" "ownWorker ?t" b] t by (simp add: ac_simps)
  then have ap: "apart {b} (mem sh) (ownWorker ?t)" using assms(4) t by (auto simp: apart_def dest!: arg_cong [of _ _ set_mset])
  have ok: "workerOK x (mem sh) ?t" using assms(2,5,6,8) by (simp add: workerOK_pc)
  then show "workerOK x m ?t" by (rule workerOK_agree [OF ag ap])
  have "absWorker m ?t = absWorker (mem sh) ?t" by (rule absWorker_agree [OF ag ap ok])
  then show "jobOf m j = jobOf (mem sh) j" "batchOf m w = batchOf (mem sh) w" by (simp_all add: absWorker_def)
  show "bytesAt m \<lparr>sbase = b, slen = length f\<rparr> = f" by (simp add: assms(10) bytesAt_write [OF bm])
  show "length (m ! b) = outBufCap" using ag bm len by (simp add: agree_def)
qed

lemma bridge_fill_sim:
  assumes "sharedOK sh" "workerOK x (mem sh) w" "dist_mset (ownShared sh + ownWorker w)" "apart {} (mem sh) (ownShared sh + ownWorker w)"
    "bpc w = BOnGot j b" "workerOp x i e ev pick sh w = Some c"
  shows "worker_simulates x i e ev sh w c"
proof -
  let ?f = "frameDeliver x (jobOf (mem sh) j)"
  have len: "length (mem sh ! b) = outBufCap" using assms(2,5) by (simp add: workerOK_pc)
  show ?thesis
  proof (cases "outBufCap < length ?f")
    case True
    then have "c = bufUnwind sh w" using assms(5,6) len by (simp add: workerOp_def)
    then show ?thesis using True assms(5) by (auto simp: workerStep_def bridgeWrite_def intro!: unwind_sim [OF assms(1)])
  next
    case False
    let ?m = "writeAt (mem sh) b ?f" and ?p = "BOnFilled j \<lparr>sbase = b, slen = length ?f\<rparr>"
    have c: "c = (sh\<lparr>mem := ?m\<rparr>, w\<lparr>bpc := ?p\<rparr>)" using assms(5,6) len False by (simp add: workerOp_def Let_def)
    note W = write_effect [OF assms(1-4), of b j ?f ?m]
    have w: "agree {b} (mem sh) ?m" "sharedOK (sh\<lparr>mem := ?m\<rparr>)" "jobOf ?m j = jobOf (mem sh) j" "batchOf ?m w = batchOf (mem sh) w"
        "bytesAt ?m \<lparr>sbase = b, slen = length ?f\<rparr> = ?f" "workerOK x ?m (w\<lparr>bpc := BTook j\<rparr>)" "length (?m ! b) = outBufCap" "b \<in># ownWorker w"
      using W False assms(5) by simp_all
    have "workerOK x ?m (w\<lparr>bpc := ?p\<rparr>)" using w(3,5,6,7) False by (simp add: workerOK_pc)
    moreover have "absWorker ?m (w\<lparr>bpc := ?p\<rparr>) = absWorker (mem sh) w" using w(3,4) assms(5) by (simp add: absWorker_def)
    moreover have "ownWorker (w\<lparr>bpc := ?p\<rparr>) = ownWorker w" using assms(5) by (simp add: ownWorker_pc)
    ultimately show ?thesis
      using w(2,8) agree_mono [OF w(1), of "set_mset (ownWorker w)"] by (simp add: c worker_simulates_def owns_ok_def)
  qed
qed

lemma bridge_write_sim:
  assumes "sharedOK sh" "workerOK x (mem sh) w" "bpc w = BOnFilled j sl"
  shows "worker_simulates x i e ev sh w (bufBridgeWrite e sh w j sl)"
proof -
  have f: "bytesAt (mem sh) sl = frameDeliver x (jobOf (mem sh) j)" "length (frameDeliver x (jobOf (mem sh) j)) \<le> outBufCap"
      "destID (jobOf (mem sh) j) = bdest j" "length (mem sh ! sbase sl) = outBufCap"
    using assms(2,3) by (auto simp: workerOK_pc jobOf_def)
  show ?thesis
  proof (cases "wssServer (psrv sh)")
    case None
    then show ?thesis using assms(3) by (auto simp: bufBridgeWrite_def workerStep_def bridgeWrite_def intro!: unwind_sim [OF assms(1)])
  next
    case (Some b)
    obtain ok b1 where b1: "WriteFrame b (bdest j) (frameDeliver x (jobOf (mem sh) j)) (wssOk e) = (ok, b1)" by force
    then show ?thesis
      using assms f Some sharedOK_srv [OF assms(1)]
      by (simp add: bufBridgeWrite_def workerStep_def bridgeWrite_def worker_simulates_def owns_ok_def absWorker_pc ownWorker_pc
          workerOK_pc Let_def)
  qed
qed

lemma give_sim:
  assumes "sharedOK sh" "workerOK x (mem sh) w" "bpc w = BGiveBack p b \<or> bpc w = BPutOut b"
    "workerOp x i e ev pick sh w = Some c"
  shows "worker_simulates x i e ev sh w c"
  using assms by (auto simp: workerOp_def worker_simulates_def owns_ok_def absWorker_def ownWorker_pc workerOK_pc)

lemma append_abs:
  assumes "\<not> returning (bpc w)" "bytesAt m sl = f"
  shows "absWorker m (bufAppend w dst sl j) = appendJob (absWorker m w) (dst, f)"
  using assms by (simp add: bufAppend_def appendJob_def absWorker_def batchOf_def Let_def)

lemma shape_sim:
  assumes "sharedOK sh" "workerOK x (mem sh) w" "dist_mset (ownShared sh + ownWorker w)" "apart {} (mem sh) (ownShared sh + ownWorker w)"
    "bpc w = BGot j found b"
  shows "worker_simulates x i e ev sh w (bufShape x sh w j found b)"
proof (cases "shapeJob x (psrv sh) (jobOf (mem sh) j) found")
  case None
  then show ?thesis
    using assms(2,5) sharedOK_srv [OF assms(1)]
    by (simp add: bufShape_def workerStep_def worker_simulates_def owns_ok_def absWorker_pc ownWorker_pc workerOK_pc)
next
  case (Some df)
  obtain dst f where df: "df = (dst, f)" by force
  have len: "length (mem sh ! b) = outBufCap" using assms(2,5) by (simp add: workerOK_pc)
  show ?thesis
  proof (cases "outBufCap < length f")
    case True
    then have "bufShape x sh w j found b = bufUnwind sh w" using Some df len by (simp add: bufShape_def)
    then show ?thesis using True Some df assms(5) by (auto simp: workerStep_def intro!: unwind_sim [OF assms(1)])
  next
    case False
    let ?m = "writeAt (mem sh) b f" and ?w = "bufAppend w dst \<lparr>sbase = b, slen = length f\<rparr> j"
    have c: "bufShape x sh w j found b = (sh\<lparr>mem := ?m\<rparr>, ?w)" using Some df len False by (simp add: bufShape_def)
    have w: "agree {b} (mem sh) ?m" "sharedOK (sh\<lparr>mem := ?m\<rparr>)" "jobOf ?m j = jobOf (mem sh) j" "batchOf ?m w = batchOf (mem sh) w"
        "bytesAt ?m \<lparr>sbase = b, slen = length f\<rparr> = f" "workerOK x ?m (w\<lparr>bpc := BTook j\<rparr>)" "length (?m ! b) = outBufCap" "b \<in># ownWorker w"
      using write_effect [OF assms(1-4), of b j f ?m] False assms(5) by simp_all
    have "workerOK x ?m ?w" using w(6,7) False by (simp add: workerOK_pc bufAppend_def inArray_def Let_def)
    moreover have "absWorker ?m w = absWorker (mem sh) w" using w(3,4) assms(5) by (simp add: absWorker_def)
    then have "absWorker ?m ?w = appendJob (absWorker (mem sh) w) (dst, f)" using append_abs [of w ?m _ f] w(5) assms(5) by simp
    moreover have "ownWorker ?w = ownWorker w" "bsock ?w = bsock w"
      using assms(5) by (simp_all add: ownWorker_pc bufAppend_def Let_def)
    ultimately show ?thesis
      using w(2,8) agree_mono [OF w(1), of "set_mset (ownWorker w)"] False Some df assms(5)
      by (simp add: c worker_simulates_def owns_ok_def workerStep_def)
  qed
qed

lemma flush_effect:
  "flush e s w = Done (s', w') \<Longrightarrow> w' = w\<lparr>msgs := []\<rparr> \<and> relayChs s' = relayChs s"
  "flush e s w = Panicked (s', w') \<Longrightarrow> relayChs s' = relayChs s"
  by (cases w; auto simp: flush_def Let_def countForwarded_def split: if_splits)+

lemma flush_sim:
  assumes "sharedOK sh" "workerOK x (mem sh) w" "bpc w = BFlushing stop" "workerOp x i e ev pick sh w = Some c"
  shows "worker_simulates x i e ev sh w c"
proof (cases "flush e (psrv sh) (batchOf (mem sh) w)")
  case (Done sw)
  obtain s1 w1 where sw: "sw = (s1, w1)" by force
  note eff = flush_effect(1) [OF Done [unfolded sw]]
  have c: "c = (sh\<lparr>psrv := s1\<rparr>, w\<lparr>bpc := BReturn stop (bpays w) (bouts w)\<rparr>)" using assms(3,4) Done sw by (simp add: workerOp_def)
  have "ownWorker (snd c) = ownWorker w" "workerOK x (mem sh) (snd c)"
    using assms(2,3) by (simp_all add: c ownWorker_def heldOuts_def batchPays_def batchOuts_def workerOK_def)
  then show ?thesis
    using Done sw assms(3) eff sharedOK_srv [OF assms(1)]
    by (simp add: c worker_simulates_def owns_ok_def workerStep_def absWorker_def batchOf_def)
next
  case (Panicked sw)
  obtain s1 w1 where sw: "sw = (s1, w1)" by force
  have "relayChs s1 = relayChs (psrv sh)" by (rule flush_effect(2) [OF Panicked [unfolded sw]])
  then have s1: "sharedOK (sh\<lparr>psrv := s1\<rparr>)" by (rule sharedOK_srv [OF assms(1)])
  obtain sh' w' where u: "bufUnwind (sh\<lparr>psrv := s1\<rparr>) w = (sh', w')" by force
  have "c = (sh', w')" using assms(3,4) Panicked sw u by (simp add: workerOp_def)
  moreover have "workerStep x i e ev (psrv sh) (absWorker (mem sh) w) = Some (unwind s1 (absWorker (mem sh) w))"
    using Panicked sw assms(3) by (simp add: workerStep_def)
  ultimately show ?thesis using unwind_abs [OF u] s1 by (simp add: worker_simulates_def owns_ok_def)
qed

lemma return_sim:
  assumes "sharedOK sh" "workerOK x (mem sh) w" "bpc w = BReturn stop ps os"
  shows "worker_simulates x i e ev sh w (bufReturn stop ps os sh w)"
  using assms
  by (auto simp: bufReturn_def worker_simulates_def owns_ok_def absWorker_def batchOf_def workerOK_def ownWorker_def heldOuts_def
      batchPays_def batchOuts_def split: list.splits if_splits)

lemma moves_sim:
  assumes "sharedOK sh" "workerOK x (mem sh) w" "bpc w = BTook j \<or> bpc w = BSeen j \<or> bpc w = BOff j"
    "workerOp x i e ev pick sh w = Some c"
  shows "worker_simulates x i e ev sh w c"
proof (cases "bpc w = BSeen j \<and> wssServer (psrv sh) = None")
  case True
  then show ?thesis using assms(4) by (auto simp: workerOp_def workerStep_def intro!: unwind_sim [OF assms(1)])
next
  case False
  have d: "destID (jobOf (mem sh) j) = bdest j" by (simp add: jobOf_def)
  obtain p where c: "c = (sh, w\<lparr>bpc := p\<rparr>)" and p: "\<not> returning p" "phasePays p = [sbase (bpayload j)]" "phaseOuts p = []"
      "phaseJob p = Some j" "shaped x (mem sh) p"
      "workerStep x i e ev (psrv sh) (absWorker (mem sh) w) = Some (psrv sh, (absWorker (mem sh) w)\<lparr>wpc := absPhase (mem sh) p\<rparr>)"
    using assms(3,4) False d by (auto simp: workerOp_def workerStep_def split: option.splits if_splits)
  show ?thesis unfolding c by (rule move_sim [OF assms(1,2)]) (use assms(3) p in auto)
qed

lemma worker_sim:
  assumes "sharedOK sh" "workerOK x (mem sh) w" "dist_mset (ownShared sh + ownWorker w)" "apart {} (mem sh) (ownShared sh + ownWorker w)"
    "i < length (queues sh)" "workerOp x i e ev pick sh w = Some c"
  shows "worker_simulates x i e ev sh w c"
proof (cases "bpc w")
  case BSelect
  then show ?thesis using assms(6) select_sim [OF assms(1,2) _ assms(5)] by (simp add: workerOp_def)
next
  case (BOn j)
  then show ?thesis using assms(6) get_sim [OF assms(1,2,4)] by (force simp: workerOp_def split: prod.splits)
next
  case (BLooked j found)
  then show ?thesis using assms(6) get_sim [OF assms(1,2,4)] by (force simp: workerOp_def split: prod.splits)
next
  case (BOnGot j b)
  then show ?thesis by (rule bridge_fill_sim [OF assms(1-4) _ assms(6)])
next
  case (BOnFilled j sl)
  then show ?thesis using assms(6) bridge_write_sim [OF assms(1,2)] by (auto simp: workerOp_def)
next
  case (BGot j found b)
  then show ?thesis using assms(6) shape_sim [OF assms(1-4)] by (auto simp: workerOp_def)
next
  case (BReturn stop ps os)
  then show ?thesis using assms(6) return_sim [OF assms(1,2)] by (auto simp: workerOp_def)
next
  case BStopped
  then show ?thesis using assms(6) by (simp add: workerOp_def)
qed (use assms(6) moves_sim [OF assms(1,2)] flush_sim [OF assms(1,2)] give_sim [OF assms(1,2)] in blast)+

section \<open>The whole system\<close>

text \<open>Every array has one holder, and every holder is in order.\<close>

definition pool_inv :: "externs \<Rightarrow> psys \<Rightarrow> bool" where
  "pool_inv x c \<longleftrightarrow>
     dist_mset (owned c) \<and> apart {} (mem (shr c)) (owned c) \<and> sharedOK (shr c)
     \<and> list_all (readerOK (mem (shr c))) (preaders c) \<and> list_all (workerOK x (mem (shr c))) (pworkers c)"

lemma map_update_frame:
  "(\<And>k. k < length xs \<Longrightarrow> k \<noteq> j \<Longrightarrow> f (xs ! k) = g (xs ! k)) \<Longrightarrow> map f (xs[j := y]) = (map g xs)[j := f y]"
  by (rule nth_equalityI) (simp_all, metis length_map nth_list_update_eq nth_list_update_neq nth_map)

lemma list_all_frame:
  "list_all Q xs \<Longrightarrow> (\<And>k. k < length xs \<Longrightarrow> k \<noteq> j \<Longrightarrow> Q (xs ! k) \<Longrightarrow> R (xs ! k)) \<Longrightarrow> R y \<Longrightarrow> list_all R (xs[j := y])"
  by (simp add: list_all_length) (metis nth_list_update_eq nth_list_update_neq)

lemma apart_mono: "apart A m own \<Longrightarrow> length m \<le> length m' \<Longrightarrow> apart A m' own"
  by (auto simp: apart_def)

lemma holders_grow:
  assumes "dist_mset M" "apart {} m M" "length m \<le> length m'" "N \<subseteq># M + fresh m m'"
  shows "dist_mset N" "apart {} m' N"
proof -
  have f: "dist_mset (fresh m m')"
    using distinct_count_atmost_1 [of "[length m..<length m']"] by (auto simp: dist_mset_def fresh_def)
  have "b \<notin># fresh m m'" if "b \<in># M" for b using assms(2) that by (auto simp: apart_def fresh_def)
  then have "dist_mset (M + fresh m m')" using dist_mset_add [OF assms(1) f] by blast
  then show "dist_mset N" by (rule dist_mset_sub [OF _ assms(4)])
  have "apart {} m' (M + fresh m m')" using apart_mono [OF assms(2,3)] by (auto simp: apart_def fresh_def)
  then show "apart {} m' N" by (rule apart_sub [OF _ assms(4)])
qed

lemma apart_others:
  assumes "dist_mset M" "apart {} m M" "own + other \<subseteq># M"
  shows "apart (set_mset own) m other"
proof -
  have "other \<subseteq># M" using assms(3) by (metis mset_subset_eq_add_right subset_mset.order_trans)
  then have "apart {} m other" by (rule apart_sub [OF assms(2)])
  then show ?thesis using dist_mset_disjoint [OF assms(1,3)] by (auto simp: apart_def)
qed

lemma sum_list_le: "j < length xs \<Longrightarrow> k < length ys \<Longrightarrow> f (xs ! j) + g (ys ! k) \<subseteq># sum_list (map f xs) + sum_list (map g ys)"
  for f :: "'a \<Rightarrow> nat multiset" and g :: "'b \<Rightarrow> nat multiset"
  by (intro subset_mset.add_mono sum_member)

lemma owned_reader:
  assumes "j < length (preaders c)"
  shows "ownShared (shr c) + ownReader (preaders c ! j) \<subseteq># owned c"
    "k < length (preaders c) \<Longrightarrow> k \<noteq> j \<Longrightarrow> ownReader (preaders c ! j) + ownReader (preaders c ! k) \<subseteq># owned c"
    "i < length (pworkers c) \<Longrightarrow> ownReader (preaders c ! j) + ownWorker (pworkers c ! i) \<subseteq># owned c"
proof -
  let ?r = "sum_list (map ownReader (preaders c))" and ?w = "sum_list (map ownWorker (pworkers c))"
  have o: "owned c = ownShared (shr c) + ?r + ?w" by (simp add: owned_def)
  show "ownShared (shr c) + ownReader (preaders c ! j) \<subseteq># owned c"
    using sum_member [OF assms, of ownReader] by (simp add: o add.assoc subset_mset.add_increasing2)
  show "k < length (preaders c) \<Longrightarrow> k \<noteq> j \<Longrightarrow> ownReader (preaders c ! j) + ownReader (preaders c ! k) \<subseteq># owned c"
    using sum_two [OF assms, of k ownReader] by (simp add: o subset_mset.add_increasing subset_mset.add_increasing2)
  show "i < length (pworkers c) \<Longrightarrow> ownReader (preaders c ! j) + ownWorker (pworkers c ! i) \<subseteq># owned c"
    using sum_list_le [OF assms, of i "pworkers c" ownReader ownWorker] by (simp add: o add.assoc subset_mset.add_increasing)
qed

lemma owned_worker:
  assumes "i < length (pworkers c)"
  shows "ownShared (shr c) + ownWorker (pworkers c ! i) \<subseteq># owned c"
    "k < length (pworkers c) \<Longrightarrow> k \<noteq> i \<Longrightarrow> ownWorker (pworkers c ! i) + ownWorker (pworkers c ! k) \<subseteq># owned c"
    "j < length (preaders c) \<Longrightarrow> ownWorker (pworkers c ! i) + ownReader (preaders c ! j) \<subseteq># owned c"
proof -
  let ?r = "sum_list (map ownReader (preaders c))" and ?w = "sum_list (map ownWorker (pworkers c))"
  have o: "owned c = ?r + (ownShared (shr c) + ?w)" by (simp add: owned_def ac_simps)
  show "ownShared (shr c) + ownWorker (pworkers c ! i) \<subseteq># owned c"
    using sum_member [OF assms, of ownWorker] by (simp add: o subset_mset.add_increasing)
  show "k < length (pworkers c) \<Longrightarrow> k \<noteq> i \<Longrightarrow> ownWorker (pworkers c ! i) + ownWorker (pworkers c ! k) \<subseteq># owned c"
    using sum_two [OF assms, of k ownWorker] by (simp add: o subset_mset.add_increasing)
  show "j < length (preaders c) \<Longrightarrow> ownWorker (pworkers c ! i) + ownReader (preaders c ! j) \<subseteq># owned c"
    using owned_reader(3) [of j c i] assms by (simp add: add.commute)
qed

lemma swap_le:
  fixes S :: "nat multiset"
  assumes "S' + a' \<subseteq># S + a + F" "R' + a = R + a'"
  shows "S' + R' \<subseteq># S + R + F"
proof -
  have "S' + (R' + a) \<subseteq># S + a + F + R" using subset_mset.add_right_mono [OF assms(1), of R] assms(2) by (simp add: ac_simps)
  then have "(S' + R') + a \<subseteq># (S + R + F) + a" by (simp add: ac_simps)
  then show ?thesis by (simp only: subset_mset.add_le_cancel_right)
qed

lemma owned_update_reader:
  assumes "j < length (preaders c)" "ownShared sh' + ownReader r' \<subseteq># ownShared (shr c) + ownReader (preaders c ! j) + F"
  shows "owned (c\<lparr>shr := sh', preaders := (preaders c)[j := r']\<rparr>) \<subseteq># owned c + F"
  using subset_mset.add_right_mono [OF swap_le [OF assms(2) sum_update [OF assms(1), of ownReader r']], of "sum_list (map ownWorker (pworkers c))"]
  by (simp add: owned_def ac_simps)

lemma owned_update_worker:
  assumes "i < length (pworkers c)" "ownShared sh' + ownWorker w' \<subseteq># ownShared (shr c) + ownWorker (pworkers c ! i) + F"
  shows "owned (c\<lparr>shr := sh', pworkers := (pworkers c)[i := w']\<rparr>) \<subseteq># owned c + F"
  using subset_mset.add_right_mono [OF swap_le [OF assms(2) sum_update [OF assms(1), of ownWorker w']], of "sum_list (map ownReader (preaders c))"]
  by (simp add: owned_def ac_simps)

text \<open>A goroutine that touches only what it owns leaves the others as they are.\<close>

lemma reader_frame:
  assumes "pool_inv x c" "j < length (preaders c)" "agree (set_mset (ownReader (preaders c ! j))) (mem (shr c)) (mem sh')"
    "ownShared sh' + ownReader r' \<subseteq># ownShared (shr c) + ownReader (preaders c ! j) + fresh (mem (shr c)) (mem sh')"
    "sharedOK sh'" "readerOK (mem sh') r'"
  defines "c' \<equiv> c\<lparr>shr := sh', preaders := (preaders c)[j := r']\<rparr>"
  shows "pool_inv x c'"
    "absSys c' = (absSys c)\<lparr>rsrv := psrv sh', rreaders := (rreaders (absSys c))[j := absReader (mem sh') r']\<rparr>"
proof -
  let ?m = "mem (shr c)" and ?m' = "mem sh'"
  have i: "dist_mset (owned c)" "apart {} ?m (owned c)" "list_all (readerOK ?m) (preaders c)" "list_all (workerOK x ?m) (pworkers c)"
    using assms(1) by (simp_all add: pool_inv_def)
  have le: "length ?m \<le> length ?m'" using assms(3) by (simp add: agree_def)
  have o: "dist_mset (owned c')" "apart {} ?m' (owned c')"
    using holders_grow [OF i(1,2) le owned_update_reader [OF assms(2,4)]] by (simp_all add: c'_def)
  have r: "absReader ?m' (preaders c ! k) = absReader ?m (preaders c ! k)" "readerOK ?m' (preaders c ! k)"
    if "k < length (preaders c)" "k \<noteq> j" for k
    using absReader_agree [OF assms(3) apart_others [OF i(1,2) owned_reader(2) [OF assms(2) that]]] i(3) that(1)
    by (simp_all add: list_all_length)
  have w: "absWorker ?m' (pworkers c ! k) = absWorker ?m (pworkers c ! k)" "workerOK x ?m' (pworkers c ! k)" if "k < length (pworkers c)" for k
  proof -
    note ap = apart_others [OF i(1,2) owned_reader(3) [OF assms(2) that]]
    have ok: "workerOK x ?m (pworkers c ! k)" using i(4) that by (simp add: list_all_length)
    show "absWorker ?m' (pworkers c ! k) = absWorker ?m (pworkers c ! k)" "workerOK x ?m' (pworkers c ! k)"
      by (rule absWorker_agree [OF assms(3) ap ok], rule workerOK_agree [OF assms(3) ap ok])
  qed
  have "list_all (readerOK ?m') ((preaders c)[j := r'])" by (rule list_all_frame [OF i(3)]) (simp_all add: r assms(6))
  then show "pool_inv x c'" using o assms(5) w(2) by (simp add: pool_inv_def c'_def list_all_length)
  have "map (absWorker ?m') (pworkers c) = map (absWorker ?m) (pworkers c)" by (rule nth_equalityI) (simp_all add: w)
  then show "absSys c' = (absSys c)\<lparr>rsrv := psrv sh', rreaders := (rreaders (absSys c))[j := absReader ?m' r']\<rparr>"
    using map_update_frame [of "preaders c" j "absReader ?m'" "absReader ?m" r'] r(1) by (simp add: absSys_def c'_def Let_def)
qed

lemma worker_frame:
  assumes "pool_inv x c" "i < length (pworkers c)" "agree (set_mset (ownWorker (pworkers c ! i))) (mem (shr c)) (mem sh')"
    "ownShared sh' + ownWorker w' \<subseteq># ownShared (shr c) + ownWorker (pworkers c ! i) + fresh (mem (shr c)) (mem sh')"
    "sharedOK sh'" "workerOK x (mem sh') w'"
  defines "c' \<equiv> c\<lparr>shr := sh', pworkers := (pworkers c)[i := w']\<rparr>"
  shows "pool_inv x c'"
    "absSys c' = (absSys c)\<lparr>rsrv := psrv sh', rworkers := (rworkers (absSys c))[i := absWorker (mem sh') w']\<rparr>"
proof -
  let ?m = "mem (shr c)" and ?m' = "mem sh'"
  have inv: "dist_mset (owned c)" "apart {} ?m (owned c)" "list_all (readerOK ?m) (preaders c)" "list_all (workerOK x ?m) (pworkers c)"
    using assms(1) by (simp_all add: pool_inv_def)
  have le: "length ?m \<le> length ?m'" using assms(3) by (simp add: agree_def)
  have o: "dist_mset (owned c')" "apart {} ?m' (owned c')"
    using holders_grow [OF inv(1,2) le owned_update_worker [OF assms(2,4)]] by (simp_all add: c'_def)
  have r: "absReader ?m' (preaders c ! k) = absReader ?m (preaders c ! k)" "readerOK ?m' (preaders c ! k)" if "k < length (preaders c)" for k
    using absReader_agree [OF assms(3) apart_others [OF inv(1,2) owned_worker(3) [OF assms(2) that]]] inv(3) that
    by (simp_all add: list_all_length)
  have w: "absWorker ?m' (pworkers c ! k) = absWorker ?m (pworkers c ! k)" "workerOK x ?m' (pworkers c ! k)"
    if "k < length (pworkers c)" "k \<noteq> i" for k
  proof -
    note ap = apart_others [OF inv(1,2) owned_worker(2) [OF assms(2) that]]
    have ok: "workerOK x ?m (pworkers c ! k)" using inv(4) that(1) by (simp add: list_all_length)
    show "absWorker ?m' (pworkers c ! k) = absWorker ?m (pworkers c ! k)" "workerOK x ?m' (pworkers c ! k)"
      by (rule absWorker_agree [OF assms(3) ap ok], rule workerOK_agree [OF assms(3) ap ok])
  qed
  have "list_all (workerOK x ?m') ((pworkers c)[i := w'])" by (rule list_all_frame [OF inv(4)]) (simp_all add: w assms(6))
  then show "pool_inv x c'" using o assms(5) r(2) by (simp add: pool_inv_def c'_def list_all_length)
  have "map (absReader ?m') (preaders c) = map (absReader ?m) (preaders c)" by (rule nth_equalityI) (simp_all add: r)
  then show "absSys c' = (absSys c)\<lparr>rsrv := psrv sh', rworkers := (rworkers (absSys c))[i := absWorker ?m' w']\<rparr>"
    using map_update_frame [of "pworkers c" i "absWorker ?m'" "absWorker ?m" w'] w(1) by (simp add: absSys_def c'_def Let_def)
qed

text \<open>A step of the system is a step of \<open>RelayConc\<close>, or leaves its state as it is.\<close>

definition sys_simulates :: "externs \<Rightarrow> (nodeid fset \<Rightarrow> nodeid list) \<Rightarrow> (wenv \<Rightarrow> bool) \<Rightarrow> bool \<Rightarrow> psys \<Rightarrow> psys \<Rightarrow> bool" where
  "sys_simulates x it P closes c c' \<longleftrightarrow>
     pool_inv x c' \<and> (absSys c' = absSys c \<or> relay_step x it P closes (absSys c) (absSys c'))"

lemma absSys_fields [simp]:
  "rsrv (absSys c) = psrv (shr c)" "rhandlers (absSys c) = phandlers c"
  "length (rreaders (absSys c)) = length (preaders c)" "length (rworkers (absSys c)) = length (pworkers c)"
  "j < length (preaders c) \<Longrightarrow> rreaders (absSys c) ! j = absReader (mem (shr c)) (preaders c ! j)"
  "i < length (pworkers c) \<Longrightarrow> rworkers (absSys c) ! i = absWorker (mem (shr c)) (pworkers c ! i)"
  by (simp_all add: absSys_def Let_def)

lemma receive_sim:
  assumes "pool_inv x c" "j < length (preaders c)" "preaders c ! j = r" "frames_left r = []" "rpc r = RIdle"
    "received (mem (shr c)) (rbufs r) m" "list_all (\<lambda>(sl, src). frame_in m (rbufs r) sl) fs"
  shows "sys_simulates x it P closes c (c\<lparr>shr := (shr c)\<lparr>mem := m\<rparr>, preaders := (preaders c)[j := r\<lparr>frames_left := fs\<rparr>]\<rparr>)"
proof -
  let ?m = "mem (shr c)" and ?r = "r\<lparr>frames_left := fs\<rparr>" and ?ms = "map (\<lambda>(sl, src). (drop 1 (bytesAt m sl), src)) fs"
  have ag: "agree (set_mset (ownReader r)) ?m m" using assms(6) by (auto simp: received_def agree_def ownReader_def)
  have len: "length m = length ?m" using assms(6) by (simp add: received_def)
  have inv: "dist_mset (owned c)" "apart {} ?m (owned c)" "sharedOK (shr c)" using assms(1) by (simp_all add: pool_inv_def)
  have "ownReader r + ownShared (shr c) \<subseteq># owned c" using owned_reader(1) [OF assms(2)] assms(3) by (simp add: add.commute)
  then have sh: "sharedOK ((shr c)\<lparr>mem := m\<rparr>)"
    by (intro sharedOK_agree [OF ag _ inv(3)] apart_others [OF inv(1,2)])
  have r: "readerOK m ?r" "ownReader ?r = ownReader r" using assms(5,7) by (simp_all add: readerOK_def ownReader_def)
  have a: "absReader m ?r = (absReader ?m r)\<lparr>backlog := ?ms\<rparr>"
    using assms(4,5) by (simp add: absReader_def split: list.split)
  let ?c = "c\<lparr>shr := (shr c)\<lparr>mem := m\<rparr>, preaders := (preaders c)[j := ?r]\<rparr>"
  have c: "pool_inv x ?c" "absSys ?c = (absSys c)\<lparr>rsrv := psrv (shr c), rreaders := (rreaders (absSys c))[j := absReader m ?r]\<rparr>"
    using reader_frame [OF assms(1,2), of "(shr c)\<lparr>mem := m\<rparr>" ?r] ag sh r len by (simp_all add: assms(3) fresh_def)
  have "absSys ?c = (absSys c)\<lparr>rreaders := (rreaders (absSys c))[j := (rreaders (absSys c) ! j)\<lparr>backlog := ?ms\<rparr>]\<rparr>"
    unfolding c(2) a using assms(2,3) by (cases "absSys c") (simp add: absSys_def Let_def)
  moreover have "backlog (rreaders (absSys c) ! j) = []" "admitted (rreaders (absSys c) ! j) = None"
    using assms(2-4) by (simp_all add: absReader_def)
  ultimately have "relay_step x it P closes (absSys c) (absSys ?c)"
    using relay_step.receive [of j "absSys c" x it P closes ?ms] assms(2) by simp
  then show ?thesis using c(1) by (simp add: sys_simulates_def)
qed

lemma reader_step_sim:
  assumes "pool_inv x c" "server_inv (psrv (shr c))" "j < length (preaders c)" "readerOp e pick (shr c) (preaders c ! j) = Some (sh, r)"
  shows "sys_simulates x it P closes c (c\<lparr>shr := sh, preaders := (preaders c)[j := r]\<rparr>)"
proof -
  let ?m = "mem (shr c)" and ?r = "preaders c ! j" and ?c = "c\<lparr>shr := sh, preaders := (preaders c)[j := r]\<rparr>"
  have inv: "dist_mset (owned c)" "apart {} ?m (owned c)" "sharedOK (shr c)" "readerOK ?m ?r"
    using assms(1,3) by (simp_all add: pool_inv_def list_all_length)
  have sim: "reader_simulates e (shr c) ?r (sh, r)"
    by (rule reader_sim [OF inv(3,4) assms(2) dist_mset_sub [OF inv(1)] apart_sub [OF inv(2)] assms(4)])
      (rule owned_reader(1) [OF assms(3)])+
  then have s: "agree (set_mset (ownReader ?r)) ?m (mem sh)" "ownShared sh + ownReader r \<subseteq># ownShared (shr c) + ownReader ?r + fresh ?m (mem sh)"
      "sharedOK sh" "readerOK (mem sh) r"
    by (simp_all add: reader_simulates_def owns_ok_def)
  note c = reader_frame [OF assms(1,3) s]
  from sim consider (same) "psrv sh = psrv (shr c)" "absReader (mem sh) r = absReader ?m ?r"
    | (step) "readerStep e (psrv (shr c)) (absReader ?m ?r) = Some (psrv sh, absReader (mem sh) r)"
    by (auto simp: reader_simulates_def)
  then show ?thesis
  proof cases
    case same
    have "(rreaders (absSys c))[j := absReader (mem sh) r] = rreaders (absSys c)" using assms(3) same(2) list_update_id [of "rreaders (absSys c)" j] by simp
    then have "absSys ?c = absSys c" using c(2) same(1) by (cases "absSys c") (simp add: absSys_def Let_def)
    then show ?thesis using c(1) by (simp add: sys_simulates_def)
  next
    case step
    then have "relay_step x it P closes (absSys c) (absSys ?c)"
      unfolding c(2) using assms(3) by (intro relay_step.reader [of j _ e]) simp_all
    then show ?thesis using c(1) by (simp add: sys_simulates_def)
  qed
qed

lemma worker_step_sim:
  assumes "pool_inv x c" "length (pworkers c) = length (relayChs (psrv (shr c)))" "i < length (pworkers c)" "P e"
    "dualStack e = isWildcardIPv6 (bsock (pworkers c ! i))" "workerOp x i e ev pick (shr c) (pworkers c ! i) = Some (sh, w)"
  shows "sys_simulates x it P closes c (c\<lparr>shr := sh, pworkers := (pworkers c)[i := w]\<rparr>)"
proof -
  let ?m = "mem (shr c)" and ?w = "pworkers c ! i" and ?c = "c\<lparr>shr := sh, pworkers := (pworkers c)[i := w]\<rparr>"
  have inv: "dist_mset (owned c)" "apart {} ?m (owned c)" "sharedOK (shr c)" "workerOK x ?m ?w"
    using assms(1,3) by (simp_all add: pool_inv_def list_all_length)
  have q: "i < length (queues (shr c))" using assms(2,3) inv(3) by (simp add: sharedOK_def)
  have sim: "worker_simulates x i e ev (shr c) ?w (sh, w)"
    by (rule worker_sim [OF inv(3,4) dist_mset_sub [OF inv(1)] apart_sub [OF inv(2)] q assms(6)])
      (rule owned_worker(1) [OF assms(3)])+
  then have s: "agree (set_mset (ownWorker ?w)) ?m (mem sh)" "ownShared sh + ownWorker w \<subseteq># ownShared (shr c) + ownWorker ?w + fresh ?m (mem sh)"
      "sharedOK sh" "workerOK x (mem sh) w"
    by (simp_all add: worker_simulates_def owns_ok_def)
  note c = worker_frame [OF assms(1,3) s]
  from sim consider (same) "psrv sh = psrv (shr c)" "absWorker (mem sh) w = absWorker ?m ?w"
    | (step) "workerStep x i e ev (psrv (shr c)) (absWorker ?m ?w) = Some (psrv sh, absWorker (mem sh) w)"
    by (auto simp: worker_simulates_def)
  then show ?thesis
  proof cases
    case same
    have "(rworkers (absSys c))[i := absWorker (mem sh) w] = rworkers (absSys c)" using assms(3) same(2) list_update_id [of "rworkers (absSys c)" i] by simp
    then have "absSys ?c = absSys c" using c(2) same(1) by (cases "absSys c") (simp add: absSys_def Let_def)
    then show ?thesis using c(1) by (simp add: sys_simulates_def)
  next
    case step
    then have "relay_step x it P closes (absSys c) (absSys ?c)"
      unfolding c(2) using assms(3-5) by (intro relay_step.worker [of i _ P e x ev]) simp_all
    then show ?thesis using c(1) by (simp add: sys_simulates_def)
  qed
qed

text \<open>The steps of the rest of the beacon leave queues and buffers alone.\<close>

lemma pool_inv_srv:
  "pool_inv x c \<Longrightarrow> relayChs s = relayChs (psrv (shr c)) \<Longrightarrow> pool_inv x (c\<lparr>shr := (shr c)\<lparr>psrv := s\<rparr>, phandlers := hs\<rparr>)"
  using sharedOK_srv [of "shr c" s] by (simp add: pool_inv_def owned_def)

lemma absSys_srv: "absSys (c\<lparr>shr := (shr c)\<lparr>psrv := s\<rparr>, phandlers := hs\<rparr>) = (absSys c)\<lparr>rsrv := s, rhandlers := hs\<rparr>"
  by (simp add: absSys_def Let_def)

lemma pool_step_sim:
  assumes "pool_step x it P closes c c'" "pool_inv x c" "relay_inv x closes (absSys c)"
  shows "sys_simulates x it P closes c c'"
  using assms(1)
proof cases
  case (receive j r m fs)
  then show ?thesis using receive_sim [OF assms(2)] by simp
next
  case (reader j e pick sh r)
  then show ?thesis using reader_step_sim [OF assms(2)] relay_invD(1) [OF assms(3)] by simp
next
  case (worker i e ev pick sh w)
  then show ?thesis using worker_step_sim [OF assms(2)] relay_invD(3) [OF assms(3)] by simp
next
  case (collect ps os)
  have "set os \<subseteq> set (outPool (shr c))" using set_mset_mono [OF collect(3)] by simp
  then have "sharedOK ((shr c)\<lparr>payPool := ps, outPool := os\<rparr>)" using assms(2) by (auto simp: pool_inv_def sharedOK_def list_all_iff)
  moreover have "owned c' \<subseteq># owned c + fresh (mem (shr c)) (mem (shr c))"
    using collect by (simp add: owned_def ownShared_def subset_mset.add_mono)
  ultimately have "pool_inv x c'"
    using holders_grow [of "owned c" "mem (shr c)" "mem (shr c)" "owned c'"] assms(2) collect(1) by (simp add: pool_inv_def)
  then show ?thesis using collect(1) by (simp add: sys_simulates_def absSys_def)
next
  case (other s)
  have "quiet (psrv (shr c)) s" using other_step_quiet [OF other(2)] relay_invD(1,2) [OF assms(3)] by simp
  then have "pool_inv x c'" using pool_inv_srv [OF assms(2), of s "phandlers c"] other(1) by (simp add: quiet_def)
  moreover have "absSys c' = (absSys c)\<lparr>rsrv := s\<rparr>" using other(1) by (simp add: absSys_def Let_def)
  ultimately show ?thesis using relay_step.other [of x it "absSys c" s P closes] other(2) by (simp add: sys_simulates_def)
next
  case (bridge w b)
  then show ?thesis
    using pool_inv_srv [OF assms(2)] relay_step.bridge [of "absSys c" w x b it P closes] by (simp add: sys_simulates_def absSys_srv)
next
  case (enable str fn bound err s)
  have "relayChs s = relayChs (psrv (shr c))"
    using enable(2,3) by (auto simp: EnableCompatWSS_def SetAuthoritativeKeyLookup_def Let_def split: sum.splits prod.splits bool.splits if_splits)
  then show ?thesis
    using enable pool_inv_srv [OF assms(2)] relay_step.enable [of "absSys c" str fn bound err s x it P closes] by (simp add: sys_simulates_def absSys_srv)
next
  case (disable w s)
  have "relayChs s = relayChs (psrv (shr c))" using disable(3) by (auto simp: CloseCompatWSS_def split: option.splits)
  then show ?thesis
    using disable pool_inv_srv [OF assms(2)] relay_step.disable [of closes "absSys c" w s x it P] by (simp add: sys_simulates_def absSys_srv)
qed

subsection \<open>The start\<close>

lemma sum_slots: "sum_list (map (\<lambda>k. mset [k * d..<(k + 1) * d]) [0..<n]) = mset [0..<n * d]"
proof (induction n)
  case (Suc n)
  have "[0..<Suc n * d] = [0..<n * d] @ [n * d..<n * d + d]" using upt_add_eq_append [of 0 "n * d" d] by (simp add: add.commute)
  moreover have "(n + 1) * d = n * d + d" by (simp add: add_mult_distrib)
  ultimately show ?case using Suc by simp
qed simp

lemma no_jobs: "sum_list (map ownQueue (replicate k [])) = {#}"
  by (induction k) (simp_all add: ownQueue_def)

lemma no_batches:
  assumes "\<And>w. w \<in> set ws \<Longrightarrow> ownWorker w = {#}"
  shows "sum_list (map ownWorker ws) = {#}"
  using assms by (induction ws) simp_all

lemma pool_start_inv:
  assumes "list_all (\<lambda>q. q = []) (relayChs (srv b))"
  shows "pool_inv x (pool_start b n)"
proof -
  let ?c = "pool_start b n"
  have q: "relayChs (srv b) = replicate (length (relayChs (srv b))) []"
    using assms by (simp add: list_all_iff replicate_length_same)
  have "sum_list (map ownWorker (pworkers ?c)) = {#}"
    by (rule no_batches) (auto simp: pool_start_def ownWorker_def heldOuts_def batchPays_def batchOuts_def)
  then have "owned ?c = mset [0..<n * readBatchCap]"
    using sum_slots [of readBatchCap n] no_jobs by (simp add: owned_def pool_start_def ownShared_def ownReader_def comp_def)
  then have "dist_mset (owned ?c)" "apart {} (mem (shr ?c)) (owned ?c)"
    using distinct_count_atmost_1 [of "[0..<n * readBatchCap]"] by (auto simp: dist_mset_def apart_def pool_start_def)
  moreover have "sharedOK (shr ?c)" using q by (simp add: sharedOK_def pool_start_def list_all_iff)
  moreover have "list_all (readerOK m) (preaders ?c)" "list_all (workerOK x m) (pworkers ?c)" for m
    by (auto simp: pool_start_def readerOK_def workerOK_def heldOuts_def batchOuts_def list_all_iff)
  ultimately show ?thesis by (simp add: pool_inv_def)
qed

lemma pool_start_abs: "list_all (\<lambda>(a, w). msgs w = []) (workers b) \<Longrightarrow> absSys (pool_start b n) = relay_start b n"
  by (auto simp: absSys_def pool_start_def relay_start_def absReader_def absWorker_def batchOf_def list_all_iff comp_def map_replicate_const
      Let_def)

lemma pool_reach_sim:
  assumes "pool_reach x it P closes c"
  shows "pool_inv x c \<and> relay_reach x it P closes (absSys c)"
  using assms
proof induction
  case (start b n)
  then show ?case using pool_start_inv [of b x n] pool_start_abs [of b n] relay_reach.start [of x it P b closes n] by simp
next
  case (more c c')
  then have "sys_simulates x it P closes c c'" using pool_step_sim [OF more(2)] relay_reach_inv(1) by blast
  then show ?case using more by (auto simp: sys_simulates_def intro: relay_reach.more)
qed

section \<open>Properties\<close>

text \<open>
  C4: The relay path with pooled buffers refines the one whose packets are values: reading every slice by
  its content turns each run into a run of \<open>RelayConc\<close>, whatever the pools hand out.  So a buffer is
  never overwritten while a queue, a batch or a send still needs what it holds.
\<close>

theorem pooled_buffers_refine:
  assumes "pool_reach x it P closes c"
  shows "relay_reach x it P closes (absSys c)"
  using pool_reach_sim [OF assms] by simp

text \<open>
  C9: Every array has at most one holder among the two pools, the queues, the readers and the workers; and
  every slice in a queue, in a reader's backlog or in a batch stays within its array, an output buffer
  having room for any frame.  So no slice expression of the relay path panics, as long as the bridge is
  not closed while workers run and the batch call reports no negative count.
\<close>

theorem buffers_exclusive:
  assumes "pool_reach x it P closes c" "sh = shr c" "m = mem sh"
  shows "(\<forall>b. count (owned c) b \<le> 1) \<and> (\<forall>b \<in># owned c. b < length m)
    \<and> (\<forall>q \<in> set (queues sh). \<forall>j \<in> set q. slen (bpayload j) \<le> length (m ! sbase (bpayload j)))
    \<and> (\<forall>r \<in> set (preaders c). \<forall>(sl, src) \<in> set (frames_left r). sbase sl \<in> set (rbufs r) \<and> slen sl \<le> length (m ! sbase sl))
    \<and> (\<forall>w \<in> set (pworkers c). \<not> returning (bpc w) \<longrightarrow>
         (\<forall>(dst, sl) \<in> set (bmsgs w). sbase sl \<in> set (bouts w) \<and> length (m ! sbase sl) = outBufCap \<and> slen sl \<le> outBufCap))
    \<and> (\<not> closes \<longrightarrow> (\<forall>e ms. P e \<longrightarrow> 0 \<le> batchN e ms) \<longrightarrow> recoveredPanics (psrv sh) = 0)"
proof -
  have inv: "pool_inv x c" using pool_reach_sim [OF assms(1)] by simp
  then have rest: "sharedOK sh" "\<forall>r \<in> set (preaders c). readerOK m r" "\<forall>w \<in> set (pworkers c). workerOK x m w"
    using assms(2,3) by (simp_all add: pool_inv_def list_all_iff)
  have "\<forall>(dst, sl) \<in> set (bmsgs w). sbase sl \<in> set (bouts w) \<and> length (m ! sbase sl) = outBufCap \<and> slen sl \<le> outBufCap"
    if w: "w \<in> set (pworkers c)" "\<not> returning (bpc w)" for w
  proof -
    have ok: "\<forall>b \<in> set (bouts w). length (m ! b) = outBufCap" "map (\<lambda>(a, sl). sbase sl) (bmsgs w) = bouts w"
        "\<forall>(a, sl) \<in> set (bmsgs w). slen sl \<le> length (m ! sbase sl)"
      using rest(3) w by (force simp: workerOK_pc list_all_iff inArray_def)+
    have "sbase sl \<in> set (bouts w)" if "(dst, sl) \<in> set (bmsgs w)" for dst sl
      unfolding ok(2) [symmetric] using that by force
    then show ?thesis using ok(1,3) by fastforce
  qed
  moreover have "\<not> closes \<longrightarrow> (\<forall>e ms. P e \<longrightarrow> 0 \<le> batchN e ms) \<longrightarrow> recoveredPanics (psrv sh) = 0"
    using relay_reach_inv(2) [OF conjunct2 [OF pool_reach_sim [OF assms(1)]]] assms(2) by auto
  ultimately show ?thesis
    using inv rest(1,2) assms(2,3)
    by (auto simp: pool_inv_def dist_mset_def apart_def sharedOK_def list_all_iff inArray_def readerOK_def frame_in_def)
qed

lemma exRegisters_idle: "list_all (\<lambda>(a, w). msgs w = []) (workers exRegisters)"
  by (simp add: exRegisters_def exListening_def ListenAndServe_def beacon_start_def exBind_def readerCount_def MaxReusePortShards_def
      startWorkers_def sendSockets_def sharedPort_def NewWithPeers_def relayWorkerCount_def freshWorker_def list_all_iff numeral_2_eq_2
      One_nat_def Let_def)

lemma exPool_reach: "pool_reach exExterns sorted_list_of_fset healthy False (pool_start exRegisters 2)"
  by (rule pool_reach.start [OF exRegisters_reach]) (simp_all add: exRegisters_fields exRegisters_idle, simp add: list_all_iff)

text \<open>The first reader has received a relay packet of ten bytes.\<close>

definition exReceived :: psys where
  "exReceived =
     (let c = pool_start exRegisters 2; sh = shr c; r = preaders c ! 0 in
      c\<lparr>shr := sh\<lparr>mem := writeAt (mem sh) 0 [5, 0, 0, 0, 3, 0, 0, 0, 7, 42]\<rparr>,
        preaders := (preaders c)[0 := r\<lparr>frames_left := [(\<lparr>sbase = 0, slen = 10\<rparr>, relaySourceForUDP (Some exAddr))]\<rparr>]\<rparr>)"

lemma received_write: "b \<in> set bufs \<Longrightarrow> length d \<le> length (m ! b) \<Longrightarrow> received m bufs (writeAt m b d)"
  using agree_write [of b "set bufs" d m] by (simp add: received_def agree_def writeAt_def)

lemma exReceived_reach: "pool_reach exExterns sorted_list_of_fset healthy False exReceived"
proof -
  let ?c = "pool_start exRegisters 2" and ?d = "[5, 0, 0, 0, 3, 0, 0, 0, 7, 42] :: bytes"
  let ?r = "preaders ?c ! 0" and ?m = "mem (shr ?c)"
  have n: "0 < length (preaders ?c)" "rbufs ?r = [0..<readBatchCap]" "frames_left ?r = []" "rpc ?r = RIdle"
    by (simp_all add: pool_start_def)
  have m: "length ?m = 64" "length (?m ! 0) = readBufSize" by (simp_all add: pool_start_def readBatchCap_def)
  have "received ?m (rbufs ?r) (writeAt ?m 0 ?d)"
    by (rule received_write) (simp_all add: n m readBatchCap_def readBufSize_def)
  moreover have "frame_in (writeAt ?m 0 ?d) (rbufs ?r) \<lparr>sbase = 0, slen = 10\<rparr>"
    using m by (simp add: frame_in_def n writeAt_def readBatchCap_def readBufSize_def)
  ultimately show ?thesis
    unfolding exReceived_def Let_def
    by (intro pool_reach.more [OF exPool_reach] pool_step.receive [OF n(1) refl n(3,4)]) simp_all
qed

theorem pooled_buffers_refine_witness:
  "relay_reach exExterns sorted_list_of_fset healthy False (absSys exReceived)
    \<and> backlog (rreaders (absSys exReceived) ! 0) = [([0, 0, 0, 3, 0, 0, 0, 7, 42], relaySourceForUDP (Some exAddr))]"
proof -
  let ?d = "[5, 0, 0, 0, 3, 0, 0, 0, 7, 42] :: bytes"
  have "length ?d = 10" by simp
  then have "bytesAt (mem (shr exReceived)) \<lparr>sbase = 0, slen = 10\<rparr> = ?d"
    using bytesAt_write [of 0 "mem (shr (pool_start exRegisters 2))" ?d]
    by (simp only: exReceived_def) (simp add: pool_start_def readBatchCap_def Let_def)
  then have "backlog (rreaders (absSys exReceived) ! 0) = [([0, 0, 0, 3, 0, 0, 0, 7, 42], relaySourceForUDP (Some exAddr))]"
    by (simp add: absSys_def absReader_def exReceived_def pool_start_def One_nat_def Let_def)
  then show ?thesis using pooled_buffers_refine [OF exReceived_reach] by simp
qed

theorem buffers_exclusive_witness:
  "pool_reach exExterns sorted_list_of_fset healthy False exReceived \<and> count (owned exReceived) 0 \<le> 1
    \<and> slen (fst (hd (frames_left (preaders exReceived ! 0)))) \<le> length (mem (shr exReceived) ! 0)"
proof -
  have "0 < length (preaders exReceived)" by (simp add: exReceived_def pool_start_def Let_def)
  then have r: "preaders exReceived ! 0 \<in> set (preaders exReceived)" by (rule nth_mem)
  have f: "frames_left (preaders exReceived ! 0) = [(\<lparr>sbase = 0, slen = 10\<rparr>, relaySourceForUDP (Some exAddr))]"
    by (simp add: exReceived_def pool_start_def Let_def)
  note B = buffers_exclusive [OF exReceived_reach refl refl]
  have "slen \<lparr>sbase = 0, slen = 10\<rparr> \<le> length (mem (shr exReceived) ! sbase \<lparr>sbase = 0, slen = 10\<rparr>)"
    using B r f by fastforce
  then show ?thesis using exReceived_reach B f by simp
qed

end
