(* ===== verification/Progress.thy ===== *)
theory Progress
  imports BufferRefine
begin

text \<open>
  Progress of the relay path.  Whatever the other goroutines do to the shared state between any two of
  its steps, a worker is back at its \<^verbatim>\<open>select\<close> after a bounded number of its own steps, and a reader has
  handled its batch after four steps per frame; none of these steps waits for anyone.
\<close>

section \<open>Own steps\<close>

text \<open>
  The steps of one worker, each on the shared state it happens to find; and of one reader.
\<close>

type_synonym wturn = "shared \<times> wenv \<times> worker_ev \<times> nat option"

fun workerSteps :: "externs \<Rightarrow> nat \<Rightarrow> wturn list \<Rightarrow> bworker \<Rightarrow> bworker" where
  "workerSteps x i [] w = w"
| "workerSteps x i ((sh, e, ev, pick) # ts) w =
     (case workerOp x i e ev pick sh w of None \<Rightarrow> w | Some (_, w') \<Rightarrow> workerSteps x i ts w')"

type_synonym rturn = "shared \<times> env \<times> nat option"

fun readerSteps :: "rturn list \<Rightarrow> breader \<Rightarrow> breader" where
  "readerSteps [] r = r"
| "readerSteps ((sh, e, pick) # ts) r =
     (case readerOp e pick sh r of None \<Rightarrow> r | Some (_, r') \<Rightarrow> readerSteps ts r')"

section \<open>Workers\<close>

fun atRest :: "bphase \<Rightarrow> bool" where
  "atRest BSelect = True"
| "atRest BStopped = True"
| "atRest _ = False"

definition workerRank :: "bworker \<Rightarrow> nat" where
  "workerRank w =
     (let f = 2 + length (bpays w) + length (bouts w) in
      case bpc w of
        BTook j \<Rightarrow> f + 7 | BSeen j \<Rightarrow> f + 6 | BOff j \<Rightarrow> f + 5 | BLooked j found \<Rightarrow> f + 4 | BGot j found b \<Rightarrow> f + 3
      | BOn j \<Rightarrow> 5 | BOnGot j b \<Rightarrow> 4 | BOnFilled j sl \<Rightarrow> 3 | BGiveBack p b \<Rightarrow> 2 | BPutOut b \<Rightarrow> 1
      | BFlushing stop \<Rightarrow> f | BReturn stop ps os \<Rightarrow> 1 + length ps + length os | BSelect \<Rightarrow> 0 | BStopped \<Rightarrow> 0)"

lemma bufUnwind_rest: "atRest (bpc (snd (bufUnwind sh w)))" "workerRank (snd (bufUnwind sh w)) = 0"
  by (simp_all add: bufUnwind_def workerRank_def)

lemma worker_advances:
  assumes "\<not> atRest (bpc w)"
  shows "\<exists>sh' w'. workerOp x i e ev pick sh w = Some (sh', w') \<and> workerRank w' < workerRank w"
proof -
  have u: "workerRank (snd (bufUnwind sh' w)) = 0" "\<exists>sh1 w1. bufUnwind sh' w = (sh1, w1) \<and> workerRank w1 = 0" for sh'
    using bufUnwind_rest [of sh' w] by (simp_all add: prod_eq_iff)
  show ?thesis
  proof (cases "bpc w")
    case (BSeen j)
    then show ?thesis
      using u(2) [of sh] by (cases "wssServer (psrv sh)") (auto simp: workerOp_def workerRank_def)
  next
    case (BOnGot j b)
    then show ?thesis using u(2) [of sh] by (auto simp: workerOp_def workerRank_def Let_def)
  next
    case (BOnFilled j sl)
    then show ?thesis
      using u(2) [of sh] by (auto simp: workerOp_def bufBridgeWrite_def workerRank_def Let_def split: option.split prod.split)
  next
    case (BGot j found b)
    then show ?thesis
      using u(2) [of sh] by (auto simp: workerOp_def bufShape_def bufAppend_def workerRank_def Let_def split: option.split)
  next
    case (BFlushing stop)
    show ?thesis
    proof (cases "flush e (psrv sh) (batchOf (mem sh) w)")
      case (Done sw)
      then show ?thesis using BFlushing by (cases sw) (auto simp: workerOp_def workerRank_def Let_def)
    next
      case (Panicked sw)
      obtain s1 w1 where "sw = (s1, w1)" by force
      then show ?thesis
        using BFlushing Panicked u(2) [of "sh\<lparr>psrv := s1\<rparr>"] by (auto simp: workerOp_def workerRank_def [of w] Let_def)
    qed
  next
    case (BReturn stop ps os)
    then show ?thesis by (auto simp: workerOp_def bufReturn_def workerRank_def split: list.split)
  qed (use assms in \<open>auto simp: workerOp_def workerRank_def Let_def split: prod.split\<close>)
qed

lemma workerSteps_rest:
  "workerRank w \<le> length ts \<Longrightarrow> \<exists>k \<le> workerRank w. atRest (bpc (workerSteps x i (take k ts) w))"
proof (induction ts arbitrary: w)
  case Nil
  then have "atRest (bpc w)" by (cases "bpc w") (auto simp: workerRank_def Let_def)
  then show ?case by (intro exI [of _ 0]) simp
next
  case (Cons t ts)
  show ?case
  proof (cases "atRest (bpc w)")
    case True
    then show ?thesis by (intro exI [of _ 0]) simp
  next
    case False
    obtain sh e ev pick where t: "t = (sh, e, ev, pick)" by (metis prod_cases4)
    obtain sh' w' where w': "workerOp x i e ev pick sh w = Some (sh', w')" "workerRank w' < workerRank w"
      using worker_advances [OF False] by blast
    have "workerRank w' \<le> length ts" using Cons.prems w'(2) by simp
    then obtain k where "k \<le> workerRank w'" "atRest (bpc (workerSteps x i (take k ts) w'))" using Cons.IH by blast
    then show ?thesis using w' by (intro exI [of _ "Suc k"]) (simp add: t)
  qed
qed

subsection \<open>The size of a batch\<close>

definition batchLimit :: "bworker \<Rightarrow> bool" where
  "batchLimit w \<longleftrightarrow> length (bpays w) = length (bmsgs w) \<and> length (bouts w) = length (bmsgs w) \<and>
     (case bpc w of
        BFlushing stop \<Rightarrow> length (bmsgs w) \<le> relayBatchCap
      | BReturn stop ps os \<Rightarrow> length ps \<le> relayBatchCap \<and> length os \<le> relayBatchCap
      | _ \<Rightarrow> length (bmsgs w) < relayBatchCap)"

lemma batchLimit_unwind: "batchLimit (snd (bufUnwind sh w))"
  by (simp add: bufUnwind_def batchLimit_def relayBatchCap_def)

lemma workerOp_batchLimit:
  assumes "batchLimit w" "workerOp x i e ev pick sh w = Some (sh', w')"
  shows "batchLimit w'"
proof -
  have u: "batchLimit w1" if "bufUnwind s1 w = (s2, w1)" for s1 s2 w1 using batchLimit_unwind [of s1 w] that by simp
  have cap: "0 < relayBatchCap" by (simp add: relayBatchCap_def)
  show ?thesis
  proof (cases "bpc w")
    case BSelect
    then show ?thesis
      using assms by (auto simp: workerOp_def bufSelect_def batchLimit_def Let_def split: worker_ev.splits list.splits if_splits)
  next
    case (BSeen j)
    then show ?thesis using assms u by (auto simp: workerOp_def batchLimit_def split: option.splits if_splits)
  next
    case (BOnGot j b)
    then show ?thesis using assms u by (auto simp: workerOp_def batchLimit_def Let_def split: if_splits)
  next
    case (BOnFilled j sl)
    then show ?thesis
      using assms u by (auto simp: workerOp_def bufBridgeWrite_def batchLimit_def Let_def split: option.splits prod.splits if_splits)
  next
    case (BGot j found b)
    then show ?thesis
      using assms u by (auto simp: workerOp_def bufShape_def bufAppend_def batchLimit_def Let_def split: option.splits if_splits)
  next
    case (BFlushing stop)
    then show ?thesis using assms u by (auto simp: workerOp_def batchLimit_def split: outcome.splits)
  next
    case (BReturn stop ps os)
    then show ?thesis
      using assms cap by (auto simp: workerOp_def bufReturn_def batchLimit_def split: list.splits if_splits)
  qed (use assms in \<open>auto simp: workerOp_def batchLimit_def split: prod.splits if_splits\<close>)
qed

lemma batchLimit_rank: "batchLimit w \<Longrightarrow> workerRank w \<le> 2 * relayBatchCap + 7"
  by (cases "bpc w") (auto simp: batchLimit_def workerRank_def Let_def)

lemma pool_step_batchLimit:
  assumes "pool_step x it P closes c c'" "list_all batchLimit (pworkers c)"
  shows "list_all batchLimit (pworkers c')"
  using assms
proof cases
  case (worker i e ev pick sh w)
  then have "batchLimit w" using assms(2) workerOp_batchLimit by (auto simp: list_all_length)
  then show ?thesis using worker(1) assms(2) by (auto intro: list_all_update)
qed simp_all

lemma pool_reach_batchLimit: "pool_reach x it P closes c \<Longrightarrow> list_all batchLimit (pworkers c)"
proof (induction rule: pool_reach.induct)
  case (start b n)
  then show ?case by (auto simp: pool_start_def batchLimit_def relayBatchCap_def list_all_iff)
qed (rule pool_step_batchLimit)

section \<open>Readers\<close>

fun readPoint :: "bread \<Rightarrow> nat" where
  "readPoint RIdle = 0"
| "readPoint (RAdmitted sender dest) = 1"
| "readPoint (RGot sender dest b) = 2"
| "readPoint (RFilled j) = 3"

definition readerRank :: "breader \<Rightarrow> nat" where
  "readerRank r = 4 * length (frames_left r) - readPoint (rpc r)"

lemma reader_advances:
  assumes "frames_left r \<noteq> []"
  shows "\<exists>sh' r'. readerOp e pick sh r = Some (sh', r') \<and> readerRank r' < readerRank r"
proof -
  obtain sl src rest where f: "frames_left r = (sl, src) # rest" using assms by (cases "frames_left r") auto
  have n: "readerRank (nextFrame r) = 4 * length rest" by (simp add: readerRank_def nextFrame_def f)
  have p: "readPoint (rpc r) \<le> 3" by (cases "rpc r") simp_all
  show ?thesis
  proof (cases "rpc r")
    case RIdle
    let ?a = "admitRelay e (psrv sh) (drop 1 (bytesAt (mem sh) sl)) src"
    consider (drop) s1 where "?a = Done (None, s1)" | (job) job s1 where "?a = Done (Some job, s1)" | (panic) job s1 where "?a = Panicked (job, s1)"
      by (metis option.exhaust outcome.exhaust surj_pair)
    then show ?thesis
      by cases (auto simp: readerOp_def f RIdle n Let_def readerRank_def [of r] readerRank_def [of "r\<lparr>rpc := p\<rparr>" for p])
  next
    case (RAdmitted sender dest)
    then show ?thesis by (auto simp: readerOp_def f readerRank_def Let_def split: prod.split)
  next
    case (RGot sender dest b)
    then show ?thesis by (auto simp: readerOp_def f readerRank_def Let_def split: prod.split)
  next
    case (RFilled j)
    then show ?thesis by (auto simp: readerOp_def f n readerRank_def [of r] Let_def split: outcome.split)
  qed
qed

lemma readerSteps_done: "readerRank r \<le> length ts \<Longrightarrow> \<exists>k \<le> readerRank r. frames_left (readerSteps (take k ts) r) = []"
proof (induction ts arbitrary: r)
  case Nil
  have "readPoint (rpc r) \<le> 3" by (cases "rpc r") simp_all
  then have "frames_left r = []" using Nil by (cases "frames_left r") (simp_all add: readerRank_def)
  then show ?case by (intro exI [of _ 0]) simp
next
  case (Cons t ts)
  show ?case
  proof (cases "frames_left r = []")
    case True
    then show ?thesis by (intro exI [of _ 0]) simp
  next
    case False
    obtain sh e pick where t: "t = (sh, e, pick)" by (metis prod_cases3)
    obtain sh' r' where r': "readerOp e pick sh r = Some (sh', r')" "readerRank r' < readerRank r" using reader_advances [OF False] by blast
    have "readerRank r' \<le> length ts" using Cons.prems r'(2) by simp
    then obtain k where "k \<le> readerRank r'" "frames_left (readerSteps (take k ts) r') = []" using Cons.IH by blast
    then show ?thesis using r' by (intro exI [of _ "Suc k"]) (simp add: t)
  qed
qed

section \<open>Properties\<close>



end
