(* ===== verification/BeaconMain.thy ===== *)
theory BeaconMain
  imports Punch
begin

text \<open>
  The configuration of \<^verbatim>\<open>cmd/beacon/main.go\<close>: how the command line flags (after the configuration file
  was applied to them) and the environment variables become a configured server.  Theory \<open>Process\<close> has
  the run of the program.
\<close>

section \<open>Flags\<close>

record flags =
  fBeaconID :: nat
  fPeers :: string
  fRegistry :: string
  fAdvertiseAddr :: string
  fRegistryAdminToken :: string
  fPunchWhitelist :: string
  fRequirePunchToken :: bool
  fStrictGossip :: bool

text \<open>\<^verbatim>\<open>strings.Split\<close> with a separator of one character.\<close>

fun Split :: "string \<Rightarrow> char \<Rightarrow> string list" where
  "Split [] sep = [[]]"
| "Split (c # s) sep =
     (if c = sep then [] # Split s sep
      else case Split s sep of [] \<Rightarrow> [[c]] | p # ps \<Rightarrow> (c # p) # ps)"

fun nonEmpty :: "string list \<Rightarrow> string list" where
  "nonEmpty [] = []"
| "nonEmpty (p # ps) = (let q = TrimSpace p in if q \<noteq> [] then q # nonEmpty ps else nonEmpty ps)"

definition mainPeers :: "string \<Rightarrow> string list" where
  "mainPeers peersFlag = (if peersFlag \<noteq> [] then nonEmpty (Split peersFlag (CHR '','')) else [])"

section \<open>Configuration\<close>

definition mainServer :: "nat \<Rightarrow> (string \<Rightarrow> udpaddr option) \<Rightarrow> flags \<Rightarrow> (string \<Rightarrow> string) \<Rightarrow> server" where
  "mainServer ncpu resolve f getenv =
     (let s = NewWithPeers ncpu resolve (of_nat (fBeaconID f)) (mainPeers (fPeers f));
          s1 = (if fRegistry f \<noteq> [] then SetRegistry s (fRegistry f) else s);
          s2 = (if fAdvertiseAddr f \<noteq> [] then SetAdvertiseAddr s1 (fAdvertiseAddr f) else s1);
          s3 = (if fRegistryAdminToken f \<noteq> [] then SetRegistryAdminToken s2 (fRegistryAdminToken f) else s2);
          wlSrc = (if fPunchWhitelist f = [] then getenv ''BEACON_PUNCH_WHITELIST'' else fPunchWhitelist f);
          s4 = (if wlSrc \<noteq> [] then SetPunchWhitelist s3 (Split wlSrc (CHR '','')) else s3);
          s5 = (if fRequirePunchToken f \<or> getenv ''BEACON_REQUIRE_PUNCH_TOKEN'' = ''1'' then SetRequirePunchToken s4 True else s4)
      in if fStrictGossip f \<or> getenv ''BEACON_STRICT_GOSSIP'' = ''1'' then SetStrictGossip s5 True else s5)"

section \<open>Lemmas\<close>

text \<open>Joining the parts with the separator gives the string back; no part contains it.\<close>

lemma Split_nonempty [simp]: "Split s sep \<noteq> []"
  by (cases s) (auto split: list.split)

lemma Split_parts: "sep \<notin> set p \<Longrightarrow> Split (p @ sep # s) sep = p # Split s sep"
  by (induction p) (auto split: list.split)

lemma Split_join: "join [sep] (Split s sep) = s \<and> (\<forall>p \<in> set (Split s sep). sep \<notin> set p)"
proof (induction s)
  case (Cons c s)
  obtain p ps where p: "Split s sep = p # ps" by (metis Split_nonempty neq_Nil_conv)
  show ?case using Cons p by (cases ps) auto
qed simp

lemma whitelistEntries_exact:
  "fst (whitelistEntries ips) \<longleftrightarrow> (\<exists>e \<in> set ips. TrimSpace e = ''*'' \<or> TrimSpace e = ''all'')"
  "ip |\<in>| snd (whitelistEntries ips) \<longleftrightarrow> ip \<noteq> [] \<and> ip \<noteq> ''*'' \<and> ip \<noteq> ''all'' \<and> (\<exists>e \<in> set ips. TrimSpace e = ip)"
  by (induction ips) (auto simp: Let_def split: prod.splits)

lemma nonEmpty_filter: "nonEmpty ps = filter (\<lambda>q. q \<noteq> []) (map TrimSpace ps)"
  by (induction ps) (simp_all add: Let_def)

lemma whitelisted_Set:
  "whitelisted (SetPunchWhitelist s ips) ip \<longleftrightarrow>
     (\<exists>e \<in> set ips. TrimSpace e = ''*'' \<or> TrimSpace e = ''all'' \<or> (TrimSpace e = ip \<and> ip \<noteq> []))"
  using whitelistEntries_exact(1) [of ips] whitelistEntries_exact(2) [of ip ips]
  by (auto simp: SetPunchWhitelist_def whitelisted_def split: prod.splits)

lemma setters_whitelisted [simp]:
  "whitelisted (SetRequirePunchToken s v) = whitelisted s" "whitelisted (SetStrictGossip s v) = whitelisted s"
  "whitelisted (SetRegistry s a) = whitelisted s" "whitelisted (SetAdvertiseAddr s a) = whitelisted s"
  "whitelisted (SetRegistryAdminToken s a) = whitelisted s" "\<not> whitelisted (NewWithPeers ncpu resolve bid ps) ip"
  by (auto simp: whitelisted_def SetRequirePunchToken_def SetStrictGossip_def SetRegistry_def SetAdvertiseAddr_def
      SetRegistryAdminToken_def NewWithPeers_def Let_def intro!: ext)

text \<open>Each setter sets its own field.\<close>

lemmas setter_defs0 = SetRequirePunchToken_def SetStrictGossip_def SetRegistry_def SetAdvertiseAddr_def SetRegistryAdminToken_def

lemma setter_fields [simp]:
  "requirePunchToken (SetRequirePunchToken s v) = v" "strictGossip (SetRequirePunchToken s v) = strictGossip s"
  "registryAddr (SetRequirePunchToken s v) = registryAddr s" "advertiseAddr (SetRequirePunchToken s v) = advertiseAddr s"
  "registryAdminToken (SetRequirePunchToken s v) = registryAdminToken s" "peers (SetRequirePunchToken s v) = peers s"
  "beaconID (SetRequirePunchToken s v) = beaconID s"
  "requirePunchToken (SetStrictGossip s v) = requirePunchToken s" "strictGossip (SetStrictGossip s v) = v"
  "registryAddr (SetStrictGossip s v) = registryAddr s" "advertiseAddr (SetStrictGossip s v) = advertiseAddr s"
  "registryAdminToken (SetStrictGossip s v) = registryAdminToken s" "peers (SetStrictGossip s v) = peers s"
  "beaconID (SetStrictGossip s v) = beaconID s"
  "requirePunchToken (SetRegistry s a) = requirePunchToken s" "strictGossip (SetRegistry s a) = strictGossip s"
  "registryAddr (SetRegistry s a) = a" "advertiseAddr (SetRegistry s a) = advertiseAddr s"
  "registryAdminToken (SetRegistry s a) = registryAdminToken s" "peers (SetRegistry s a) = peers s"
  "beaconID (SetRegistry s a) = beaconID s"
  "requirePunchToken (SetAdvertiseAddr s a) = requirePunchToken s" "strictGossip (SetAdvertiseAddr s a) = strictGossip s"
  "registryAddr (SetAdvertiseAddr s a) = registryAddr s" "advertiseAddr (SetAdvertiseAddr s a) = a"
  "registryAdminToken (SetAdvertiseAddr s a) = registryAdminToken s" "peers (SetAdvertiseAddr s a) = peers s"
  "beaconID (SetAdvertiseAddr s a) = beaconID s"
  "requirePunchToken (SetRegistryAdminToken s a) = requirePunchToken s" "strictGossip (SetRegistryAdminToken s a) = strictGossip s"
  "registryAddr (SetRegistryAdminToken s a) = registryAddr s" "advertiseAddr (SetRegistryAdminToken s a) = advertiseAddr s"
  "registryAdminToken (SetRegistryAdminToken s a) = a" "peers (SetRegistryAdminToken s a) = peers s"
  "beaconID (SetRegistryAdminToken s a) = beaconID s"
  by (simp_all add: setter_defs0)

lemma whitelist_fields [simp]:
  "requirePunchToken (SetPunchWhitelist s ips) = requirePunchToken s" "strictGossip (SetPunchWhitelist s ips) = strictGossip s"
  "registryAddr (SetPunchWhitelist s ips) = registryAddr s" "advertiseAddr (SetPunchWhitelist s ips) = advertiseAddr s"
  "registryAdminToken (SetPunchWhitelist s ips) = registryAdminToken s" "peers (SetPunchWhitelist s ips) = peers s"
  "beaconID (SetPunchWhitelist s ips) = beaconID s"
  by (simp_all add: SetPunchWhitelist_def split: prod.split)

lemma New_fields [simp]:
  "\<not> requirePunchToken (NewWithPeers ncpu resolve bid ps)" "\<not> strictGossip (NewWithPeers ncpu resolve bid ps)"
  "registryAddr (NewWithPeers ncpu resolve bid ps) = []" "advertiseAddr (NewWithPeers ncpu resolve bid ps) = []"
  "registryAdminToken (NewWithPeers ncpu resolve bid ps) = []" "beaconID (NewWithPeers ncpu resolve bid ps) = bid"
  "peers (NewWithPeers ncpu resolve bid ps) = resolvePeers resolve ps"
  by (simp_all add: NewWithPeers_def Let_def)

lemmas field_if = if_distrib [of peers] if_distrib [of beaconID] if_distrib [of registryAddr] if_distrib [of advertiseAddr]
  if_distrib [of registryAdminToken] if_distrib [of requirePunchToken] if_distrib [of strictGossip]
  if_distrib [of "\<lambda>s. whitelisted s ip" for ip]

section \<open>Properties\<close>

text \<open>
  The flags mean what they say.  The server runs with the trimmed, non-empty entries of the peer list
  that resolve, with the id modulo \<open>2 ^ 32\<close>, and with the given registry, advertised address and token;
  tokens and strict gossip are enforced exactly when the flag or the variable says so; and a source
  bypasses the punch limits exactly when the whitelist, taken from the flag and only without one from
  the environment, lists it or has a wildcard.
\<close>

theorem main_config_exact:
  assumes "s = mainServer ncpu resolve f getenv"
    "wl = (if fPunchWhitelist f = [] then getenv ''BEACON_PUNCH_WHITELIST'' else fPunchWhitelist f)"
  shows "peers s = resolvePeers resolve (filter (\<lambda>q. q \<noteq> []) (map TrimSpace (Split (fPeers f) (CHR '',''))))
    \<and> beaconID s = of_nat (fBeaconID f) \<and> registryAddr s = fRegistry f \<and> advertiseAddr s = fAdvertiseAddr f
    \<and> registryAdminToken s = fRegistryAdminToken f
    \<and> (requirePunchToken s \<longleftrightarrow> fRequirePunchToken f \<or> getenv ''BEACON_REQUIRE_PUNCH_TOKEN'' = ''1'')
    \<and> (strictGossip s \<longleftrightarrow> fStrictGossip f \<or> getenv ''BEACON_STRICT_GOSSIP'' = ''1'')
    \<and> (whitelisted s ip \<longleftrightarrow>
         (\<exists>e \<in> set (Split wl (CHR '','')). TrimSpace e = ''*'' \<or> TrimSpace e = ''all'' \<or> (TrimSpace e = ip \<and> ip \<noteq> [])))"
proof -
  have t: "TrimSpace [] = []" by (simp add: TrimSpace_def)
  have "mainPeers (fPeers f) = filter (\<lambda>q. q \<noteq> []) (map TrimSpace (Split (fPeers f) (CHR '','')))"
    using t by (simp add: mainPeers_def nonEmpty_filter)
  then show ?thesis
    using t by (simp add: assms mainServer_def whitelisted_Set Let_def field_if)
qed

definition exFlags :: flags where
  "exFlags = \<lparr>fBeaconID = 3, fPeers = '' a:1,, b:2'', fRegistry = [], fAdvertiseAddr = [], fRegistryAdminToken = [],
     fPunchWhitelist = ''1.2.3.4, 5.6.7.8'', fRequirePunchToken = False, fStrictGossip = True\<rparr>"

theorem main_config_exact_witness:
  "whitelisted (mainServer 8 (\<lambda>_. None) exFlags (\<lambda>_. ''1'')) ''5.6.7.8'' \<and> strictGossip (mainServer 8 (\<lambda>_. None) exFlags (\<lambda>_. ''1''))
   \<and> \<not> whitelisted (mainServer 8 (\<lambda>_. None) exFlags (\<lambda>_. ''1'')) ''9.9.9.9''"
  using main_config_exact [OF refl refl, of 8 "\<lambda>_. None" exFlags "\<lambda>_. ''1''" "''5.6.7.8''"]
    main_config_exact [OF refl refl, of 8 "\<lambda>_. None" exFlags "\<lambda>_. ''1''" "''9.9.9.9''"]
  by (simp add: exFlags_def TrimSpace_def isSpace_def)

end
