(* ===== verification/Process.thy ===== *)
theory Process
  imports System BeaconMain
begin

text \<open>
  The rest of the program around the server: the creation of sockets on either platform
  (\<^verbatim>\<open>reuseport_linux.go\<close>, \<^verbatim>\<open>reuseport_other.go\<close>), the values the server reports, the periodic log of
  relay counters, and the process \<^verbatim>\<open>main\<close> of \<^verbatim>\<open>cmd/beacon\<close> from its configuration to its exit.
\<close>

section \<open>Sockets\<close>

text \<open>
  What the system answers to one call: the resolved address, whether running the control function and
  \<^verbatim>\<open>setsockopt\<close> fail, and the address bound.
\<close>

record sockAnswer =
  resolved :: "udpaddr option"
  controlErr :: bool
  sockoptErr :: bool
  bound :: "udpaddr option"

datatype listenError = ResolveFailed | ControlFailed | SockoptFailed | BindFailed

record udpSocket =
  laddr :: udpaddr
  reusePort :: bool

definition bindSocket :: "sockAnswer \<Rightarrow> bool \<Rightarrow> listenError + udpSocket" where
  "bindSocket a reuse = (case bound a of None \<Rightarrow> Inl BindFailed | Some l \<Rightarrow> Inr \<lparr>laddr = l, reusePort = reuse\<rparr>)"

text \<open>\<^verbatim>\<open>ListenPacket\<close> resolves, runs the control function on the new socket, and binds.\<close>

definition listenReusePort_linux :: "sockAnswer \<Rightarrow> listenError + udpSocket" where
  "listenReusePort_linux a =
     (if resolved a = None then Inl ResolveFailed
      else if controlErr a then Inl ControlFailed
      else if sockoptErr a then Inl SockoptFailed
      else bindSocket a True)"

definition listenReusePort_other :: "sockAnswer \<Rightarrow> listenError + udpSocket" where
  "listenReusePort_other a = (if resolved a = None then Inl ResolveFailed else bindSocket a False)"

definition listenReusePort :: "bool \<Rightarrow> sockAnswer \<Rightarrow> listenError + udpSocket" where
  "listenReusePort linux = (if linux then listenReusePort_linux else listenReusePort_other)"

text \<open>The calls of \<^verbatim>\<open>ListenAndServe\<close>, the \<open>i\<close>-th answered by \<open>sys i\<close>.\<close>

definition bindWith :: "bool \<Rightarrow> (nat \<Rightarrow> sockAnswer) \<Rightarrow> nat \<Rightarrow> udpaddr option" where
  "bindWith linux sys i = (case listenReusePort linux (sys i) of Inl err \<Rightarrow> None | Inr s \<Rightarrow> Some (laddr s))"

section \<open>Reported values\<close>

definition Ready :: "beacon \<Rightarrow> bool" where
  "Ready b = ready b"

definition RelayForwarded :: "server \<Rightarrow> u64" where
  "RelayForwarded s = relayForwarded s"

definition RelayDropped :: "server \<Rightarrow> u64" where
  "RelayDropped s = relayDropped s"

definition RelayNotFound :: "server \<Rightarrow> u64" where
  "RelayNotFound s = relayNotFound s"

definition StrictGossip :: "server \<Rightarrow> bool" where
  "StrictGossip s = strictGossip s"

definition RecoveredPanicCount :: "server \<Rightarrow> u64" where
  "RecoveredPanicCount s = recoveredPanics s"

text \<open>One tick of \<^verbatim>\<open>relayStatsLoop\<close>: the line it logs, if any; and the loop, as the lines of its ticks until \<^verbatim>\<open>done\<close>.\<close>

definition statsTick :: "server \<Rightarrow> (u64 \<times> u64 \<times> u64) option" where
  "statsTick s =
     (let fwd = relayForwarded s; drp = relayDropped s; nf = relayNotFound s in
      if 0 < fwd \<or> 0 < drp \<or> 0 < nf then Some (fwd, drp, nf) else None)"

fun relayStatsLoop :: "server list \<Rightarrow> (u64 \<times> u64 \<times> u64) list" where
  "relayStatsLoop [] = []"
| "relayStatsLoop (s # ss) =
     (if serverDone s then [] else case statsTick s of None \<Rightarrow> relayStatsLoop ss | Some l \<Rightarrow> l # relayStatsLoop ss)"

text \<open>\<^verbatim>\<open>ServeHealth\<close>: the answer to a request for a path in canonical form.\<close>

definition ServeHealth :: "server \<Rightarrow> string \<Rightarrow> nat \<times> string" where
  "ServeHealth s path = (if path = ''/healthz'' then healthz s else (404, ''404 page not found'' @ [CHR 0x0A]))"

section \<open>The process\<close>

text \<open>
  \<open>load\<close> is \<^verbatim>\<open>config.Load\<close> followed by \<^verbatim>\<open>config.ApplyToFlags\<close>: \<open>None\<close> when the file cannot be loaded,
  otherwise what it does to the flags.  A process has an exit status once it has ended.
\<close>

record proc =
  pbeacon :: beacon
  plistened :: bool
  pexit :: "nat option"

definition mainFlags :: "(string \<Rightarrow> (flags \<Rightarrow> flags) option) \<Rightarrow> string \<Rightarrow> flags \<Rightarrow> flags option" where
  "mainFlags load configPath f = (if configPath \<noteq> [] then map_option (\<lambda>apply. apply f) (load configPath) else Some f)"

definition mainStart :: "nat \<Rightarrow> (string \<Rightarrow> udpaddr option) \<Rightarrow> flags \<Rightarrow> (string \<Rightarrow> string) \<Rightarrow> proc" where
  "mainStart ncpu resolve f getenv =
     \<lparr>pbeacon = beacon_start (mainServer ncpu resolve f getenv), plistened = False, pexit = None\<rparr>"

text \<open>
  The goroutine that listens ends the process when \<^verbatim>\<open>ListenAndServe\<close> reports an error; the main goroutine
  ends it after a signal.  Until then the goroutines of the server run.  A failing health endpoint is
  only logged.
\<close>

inductive main_step :: "externs \<Rightarrow> (nodeid fset \<Rightarrow> nodeid list) \<Rightarrow> (wenv \<Rightarrow> bool) \<Rightarrow> proc \<Rightarrow> proc \<Rightarrow> bool" for x it P where
  datagram: "pexit c = None \<Longrightarrow> ready b \<Longrightarrow> b = pbeacon c \<Longrightarrow>
    main_step x it P c (c\<lparr>pbeacon := b\<lparr>srv := handlePacket x e (srv b) data remote\<rparr>\<rparr>)"
| worker: "pexit c = None \<Longrightarrow> b = pbeacon c \<Longrightarrow> i < length (workers b) \<Longrightarrow> workers b ! i = (a, w) \<Longrightarrow> P e \<Longrightarrow>
    dualStack e = isWildcardIPv6 a \<Longrightarrow> workerTurn x i e (srv b) w ev = Some r \<Longrightarrow> workerResume r = (s', w') \<Longrightarrow>
    main_step x it P c (c\<lparr>pbeacon := b\<lparr>srv := s', workers := (workers b)[i := (a, w')]\<rparr>\<rparr>)"
| reap: "pexit c = None \<Longrightarrow> ready b \<Longrightarrow> b = pbeacon c \<Longrightarrow> main_step x it P c (c\<lparr>pbeacon := b\<lparr>srv := reapTick e (srv b)\<rparr>\<rparr>)"
| gossip: "pexit c = None \<Longrightarrow> ready b \<Longrightarrow> b = pbeacon c \<Longrightarrow>
    main_step x it P c (c\<lparr>pbeacon := b\<lparr>srv := gossipTick it x e (srv b)\<rparr>\<rparr>)"
| registry: "pexit c = None \<Longrightarrow> ready b \<Longrightarrow> b = pbeacon c \<Longrightarrow>
    main_step x it P c (c\<lparr>pbeacon := b\<lparr>srv := registryTick re reply (srv b)\<rparr>\<rparr>)"
| listen: "pexit c = None \<Longrightarrow> \<not> plistened c \<Longrightarrow> ListenAndServe (pbeacon c) ncpu linux (bindWith linux sys) = Done (err, b') \<Longrightarrow>
    main_step x it P c (c\<lparr>pbeacon := b', plistened := True, pexit := if err = None then None else Some 1\<rparr>)"
| signal: "pexit c = None \<Longrightarrow> beacon_Close (pbeacon c) ok = (err, b') \<Longrightarrow>
    main_step x it P c (c\<lparr>pbeacon := b', pexit := Some 0\<rparr>)"

inductive main_reach :: "externs \<Rightarrow> (nodeid fset \<Rightarrow> nodeid list) \<Rightarrow> (wenv \<Rightarrow> bool) \<Rightarrow> proc \<Rightarrow> proc \<Rightarrow> bool" for x it P c0 where
  start: "main_reach x it P c0 c0"
| more: "main_reach x it P c0 c \<Longrightarrow> main_step x it P c c' \<Longrightarrow> main_reach x it P c0 c'"

section \<open>Settings\<close>

text \<open>What the flags set; nothing the goroutines do changes it.\<close>

definition settings :: "server \<Rightarrow> u32 \<times> string \<times> string \<times> string \<times> bool \<times> bool \<times> bool \<times> string fset" where
  "settings s = (beaconID s, registryAddr s, advertiseAddr s, registryAdminToken s, requirePunchToken s, strictGossip s,
     punchWhitelistAll s, punchWhitelist s)"

lemma settings_updates [simp]:
  "settings (s\<lparr>nodes := a\<rparr>) = settings s" "settings (s\<lparr>dstNodes := b\<rparr>) = settings s" "settings (s\<lparr>outbox := c\<rparr>) = settings s"
  "settings (s\<lparr>punchRL := d\<rparr>) = settings s" "settings (s\<lparr>lastPunchTime := f\<rparr>) = settings s" "settings (s\<lparr>discoverRL := g\<rparr>) = settings s"
  "settings (s\<lparr>peerNodes := h\<rparr>) = settings s" "settings (s\<lparr>gossipSeen := i\<rparr>) = settings s" "settings (s\<lparr>nodePubKeys := j\<rparr>) = settings s"
  "settings (s\<lparr>relayRL := k\<rparr>) = settings s" "settings (s\<lparr>relayChs := l\<rparr>) = settings s" "settings (s\<lparr>relayDropped := m\<rparr>) = settings s"
  "settings (s\<lparr>relayNotFound := m\<rparr>) = settings s" "settings (s\<lparr>relayForwarded := m\<rparr>) = settings s" "settings (s\<lparr>lastDropLog := n\<rparr>) = settings s"
  "settings (s\<lparr>wssServer := q\<rparr>) = settings s" "settings (s\<lparr>recoveredPanics := m\<rparr>) = settings s" "settings (s\<lparr>peers := r\<rparr>) = settings s"
  "settings (s\<lparr>conn := t\<rparr>) = settings s" "settings (s\<lparr>serverDone := v\<rparr>) = settings s"
  by (simp_all add: settings_def)

lemma settings_frame [simp]:
  "settings (snd (WriteToUDP e k t msg dst)) = settings t" "settings (discoverReply x e t remote) = settings t"
  "settings (discoverUpsert x e t nodeID remote) = settings t" "settings (storeKey t nodeID pub) = settings t"
  "settings (snd (SendPunchCommand x e k t n p q)) = settings t" "settings (coordinatePunch x e t r d remote) = settings t"
  "settings (countForwarded t i) = settings t"
  by (simp_all add: WriteToUDP_def discoverReply_def discoverUpsert_def storeKey_def SendPunchCommand_def coordinatePunch_def
      countForwarded_def Let_def split: option.split prod.split)

lemma settings_gate: "settings (snd (punchGate e t key)) = settings t"
  by (simp add: punchGate_def Let_def split: prod.split)

lemma settings_serve: "servePunch x e t data remote = Done s' \<Longrightarrow> settings s' = settings t"
  by (auto simp: servePunch_def split: option.splits if_splits bool.splits)

lemma settings_handlers:
  "handleDiscover x e s data remote w = Done s' \<Longrightarrow> settings s' = settings s"
  "handlePunchRequest x e s data remote = Done s' \<Longrightarrow> settings s' = settings s"
  "handleSync e s data remote = Done s' \<Longrightarrow> settings s' = settings s"
  "enqueueRelay e s job = Done s' \<Longrightarrow> settings s' = settings s"
proof -
  show "handleDiscover x e s data remote w = Done s' \<Longrightarrow> settings s' = settings s"
    by (auto simp: handleDiscover_def Let_def split: if_splits option.splits)
  show "handlePunchRequest x e s data remote = Done s' \<Longrightarrow> settings s' = settings s"
    using settings_gate [of e s "IPString (IP remote)"] settings_serve
    by (fastforce simp: handlePunchRequest_def Let_def split: if_splits prod.splits bool.splits)
  show "handleSync e s data remote = Done s' \<Longrightarrow> settings s' = settings s"
    by (auto simp: handleSync_def Let_def split: option.splits if_splits prod.splits)
  show "enqueueRelay e s job = Done s' \<Longrightarrow> settings s' = settings s"
    by (auto simp: enqueueRelay_def Let_def split: option.splits if_splits)
qed

lemma settings_relay: "dispatchRelay e s data src = Done s' \<Longrightarrow> settings s' = settings s"
  by (auto simp: dispatchRelay_def Let_def dest: settings_handlers(4) split: option.splits if_splits prod.splits)

lemma settings_packet: "server_inv s \<Longrightarrow> settings (handlePacket x e s data remote) = settings s"
proof -
  assume "server_inv s"
  then obtain s' where s': "dispatchPacket x e s data remote 0 = Done s'" using dispatchPacket_inv by blast
  then have "settings s' = settings s"
    by (auto simp: dispatchPacket_def dest: settings_handlers settings_relay split: list.splits if_splits)
  then show ?thesis by (simp add: handlePacket_def handlePacketFrom_def recoverHandler_def s')
qed

lemma settings_flush:
  "flush e s w = Done (s', w') \<Longrightarrow> settings s' = settings s" "flush e s w = Panicked (s', w') \<Longrightarrow> settings s' = settings s"
  by (auto simp: flush_def Let_def split: if_splits)

lemma settings_turn:
  assumes "workerTurn x i e s w ev = Some r" "workerResume r = (s', w')"
  shows "settings s' = settings s"
proof -
  have b: "settings t = settings u" if "batchJob x e u v job = Done (t, v') \<or> batchJob x e u v job = Panicked (t, v')" for u v job t v'
    using that by (auto simp: batchJob_def Let_def dest: settings_flush split: option.splits if_splits)
  have j: "settings t = settings u" if "workerJob x e u v job = Done (t, v') \<or> workerJob x e u v job = Panicked (t, v')" for u v job t v'
    using that b by (fastforce simp: workerJob_def Let_def split: option.splits if_splits prod.splits)
  have "settings t = settings s" if "r = Done (t, v) \<or> r = Panicked (t, v)" for t v
  proof (cases ev)
    case TakeJob
    then obtain job rest where "r = workerJob x e (s\<lparr>relayChs := (relayChs s)[i := rest]\<rparr>) w job"
      using assms(1) by (auto simp: workerTurn_def split: list.splits)
    then show ?thesis using j [of "s\<lparr>relayChs := (relayChs s)[i := rest]\<rparr>" w job t v] that by simp
  qed (use assms(1) that in \<open>auto simp: workerTurn_def dest: settings_flush split: if_splits\<close>)
  then show ?thesis using assms(2) by (auto simp: workerResume_def split: outcome.splits)
qed

lemma settings_ticks:
  "settings (reapTick e s) = settings s" "settings (gossipTick it x e s) = settings s" "settings (registryTick re reply s) = settings s"
proof -
  show "settings (reapTick e s) = settings s" by (simp add: reapTick_def safely_Done reapStaleNodes_eq Let_def)
  have "settings (sendToPeers e k t msg ps) = settings t" for k t msg ps
    by (induction e k t msg ps rule: sendToPeers.induct) simp_all
  then show "settings (gossipTick it x e s) = settings s"
    by (auto simp: gossipTick_def safely_def recoverHandler_def sendGossip_def Let_def split: outcome.splits if_splits option.splits)
  show "settings (registryTick re reply s) = settings s"
    by (auto simp: registryTick_def safely_def recoverHandler_def registryDiscover_def Let_def split: option.splits prod.splits bool.splits)
qed

lemma settings_listen: "ListenAndServe b ncpu linux bind = Done (err, b') \<Longrightarrow> settings (srv b') = settings (srv b)"
  by (auto simp: ListenAndServe_def Let_def split: sum.splits prod.splits if_splits)

lemma settings_close: "beacon_Close b ok = (err, b') \<Longrightarrow> settings (srv b') = settings (srv b)"
  by (auto simp: beacon_Close_def Let_def split: option.splits)

section \<open>Runs of the process\<close>

lemma beacon_start_srv: "(beacon_start s)\<lparr>srv := s'\<rparr> = beacon_start s'"
  by (simp add: beacon_start_def)

text \<open>The configuration is a sequence of calls an embedding program may make.\<close>

lemma set_reach:
  assumes "beacon_reach x it P (beacon_start s)"
  shows "beacon_reach x it P (beacon_start (if c then SetRegistry s str else s))"
    "beacon_reach x it P (beacon_start (if c then SetAdvertiseAddr s str else s))"
    "beacon_reach x it P (beacon_start (if c then SetRegistryAdminToken s str else s))"
    "beacon_reach x it P (beacon_start (if c then SetPunchWhitelist s ips else s))"
    "beacon_reach x it P (beacon_start (if c then SetRequirePunchToken s v else s))"
    "beacon_reach x it P (beacon_start (if c then SetStrictGossip s v else s))"
proof -
  note steps = beacon_step.set_registry beacon_step.set_advertise beacon_step.set_admin beacon_step.set_whitelist beacon_step.set_token
    beacon_step.set_strict
  note more = steps [THEN beacon_reach.more [OF assms], unfolded beacon_start_srv beacon.simps]
  have "srv (beacon_start s) = s" by (simp add: beacon_start_def)
  then show "beacon_reach x it P (beacon_start (if c then SetRegistry s str else s))"
    "beacon_reach x it P (beacon_start (if c then SetAdvertiseAddr s str else s))"
    "beacon_reach x it P (beacon_start (if c then SetRegistryAdminToken s str else s))"
    "beacon_reach x it P (beacon_start (if c then SetPunchWhitelist s ips else s))"
    "beacon_reach x it P (beacon_start (if c then SetRequirePunchToken s v else s))"
    "beacon_reach x it P (beacon_start (if c then SetStrictGossip s v else s))"
    using assms more by auto
qed

lemma mainServer_reach: "ncpu < 2 ^ 32 \<Longrightarrow> beacon_reach x it P (beacon_start (mainServer ncpu resolve f getenv))"
  unfolding mainServer_def Let_def by (intro set_reach beacon_reach.start)

lemma main_step_beacon: "main_step x it P c c' \<Longrightarrow> beacon_step x it P (pbeacon c) (pbeacon c')"
  by (induction rule: main_step.induct) (auto intro: beacon_step.intros)

lemma main_step_settings: "main_step x it P c c' \<Longrightarrow> server_inv (srv (pbeacon c)) \<Longrightarrow> settings (srv (pbeacon c')) = settings (srv (pbeacon c))"
  by (induction rule: main_step.induct)
    (simp_all add: settings_packet settings_turn settings_ticks settings_listen settings_close)

text \<open>What has happened when the process has ended, and that nothing runs before it listens.\<close>

definition proc_ok :: "proc \<Rightarrow> bool" where
  "proc_ok c \<longleftrightarrow>
     (\<not> plistened c \<longrightarrow> \<not> ready (pbeacon c) \<and> workers (pbeacon c) = [] \<and> outbox (srv (pbeacon c)) = [])
     \<and> (pexit c = Some 0 \<longrightarrow> serverDone (srv (pbeacon c)) \<and> \<not> socketsOpen (pbeacon c))
     \<and> (pexit c = Some 1 \<longrightarrow> plistened c \<and> \<not> socketsOpen (pbeacon c) \<and> workers (pbeacon c) = [] \<and> outbox (srv (pbeacon c)) = [])
     \<and> (pexit c = None \<or> pexit c = Some 0 \<or> pexit c = Some 1)"

lemma listen_failed:
  "ListenAndServe b ncpu linux bind = Done (Some i, b') \<Longrightarrow> \<not> socketsOpen b' \<and> workers b' = workers b \<and> srv b' = srv b"
  by (auto simp: ListenAndServe_def Let_def split: sum.splits if_splits)

lemma close_done:
  "beacon_Close b ok = (err, b') \<Longrightarrow> closeErr b = None \<Longrightarrow> serverDone (srv b') \<and> \<not> socketsOpen b'"
  by (auto simp: beacon_Close_def Let_def)

lemma step_closeErr: "main_step x it P c c' \<Longrightarrow> closeErr (pbeacon c) = None \<Longrightarrow> pexit c' = None \<Longrightarrow> closeErr (pbeacon c') = None"
  by (induction rule: main_step.induct) (auto simp: ListenAndServe_def Let_def split: sum.splits if_splits)

lemma closed_frame: "beacon_Close b ok = (err, b') \<Longrightarrow> workers b' = workers b \<and> ready b' = ready b \<and> outbox (srv b') = outbox (srv b)"
  by (auto simp: beacon_Close_def Let_def split: option.splits)

lemma main_step_ok:
  assumes "main_step x it P c c'" "proc_ok c" "closeErr (pbeacon c) = None"
  shows "proc_ok c'"
  using assms
proof cases
  case (listen ncpu linux sys err b')
  then show ?thesis using assms(2) listen_failed [of "pbeacon c" ncpu linux "bindWith linux sys" _ b'] by (auto simp: proc_ok_def)
next
  case (signal ok err b')
  then show ?thesis using assms(2) close_done [OF signal(3) assms(3)] closed_frame [OF signal(3)] by (auto simp: proc_ok_def)
qed (use assms(2) in \<open>auto simp: proc_ok_def\<close>)

lemma main_reach_beacon:
  assumes "main_reach x it P (mainStart ncpu resolve f getenv) c" "ncpu < 2 ^ 32"
  shows "beacon_reach x it P (pbeacon c) \<and> settings (srv (pbeacon c)) = settings (mainServer ncpu resolve f getenv) \<and> proc_ok c
    \<and> (pexit c = None \<longrightarrow> closeErr (pbeacon c) = None)"
  using assms(1)
proof induction
  case start
  have "outbox (mainServer ncpu resolve f getenv) = []"
    by (simp add: mainServer_def setter_defs NewWithPeers_def Let_def split: prod.split)
  then show ?case using mainServer_reach [OF assms(2)] by (simp add: mainStart_def proc_ok_def beacon_start_def)
next
  case (more c c')
  have r: "pexit c = None" using more(2) by (auto elim: main_step.cases)
  have "server_inv (srv (pbeacon c))" using more(3) beacon_reach_inv beacon_invD(1) by blast
  then show ?case
    using more(3) r beacon_reach.more [OF _ main_step_beacon [OF more(2)]] main_step_settings [OF more(2)] main_step_ok [OF more(2)]
      step_closeErr [OF more(2)] by auto
qed

lemma main_token: "requirePunchToken (mainServer ncpu resolve f getenv) \<longleftrightarrow> fRequirePunchToken f \<or> getenv ''BEACON_REQUIRE_PUNCH_TOKEN'' = ''1''"
  by (simp add: mainServer_def Let_def field_if)

section \<open>Properties\<close>

text \<open>
  C6: A process started with punch tokens required, by flag, configuration file or environment, keeps
  requiring them: at any point of its run, a punch request that arrives changes the node table or sends
  something only with an unexpired grant that the key of the target signed for this requester.
\<close>

theorem process_punch_requires_grant:
  assumes "mainFlags load configPath f = Some g" "fRequirePunchToken g \<or> getenv ''BEACON_REQUIRE_PUNCH_TOKEN'' = ''1''"
    "ncpu < 2 ^ 32" "main_reach x it P (mainStart ncpu resolve g getenv) c" "distinct (inbound_types x)"
    "s = srv (pbeacon c)" "s' = handlePacket x e s (BeaconMsgPunchRequest x # data) remote"
    "nodes s' \<noteq> nodes s \<or> outbox s' \<noteq> outbox s"
  shows "\<exists>r t expiry pub. uint32_at data 0 = Some r \<and> uint32_at data 4 = Some t
    \<and> be_Uint64 (take 8 (drop 8 data)) = Some expiry \<and> Unix (clk e 3) \<le>s expiry
    \<and> targetPubKey s t = (pub, True) \<and> length pub = PublicKeySize
    \<and> edVerify x pub (punchPreimage r t expiry) (take SignatureSize (drop 16 data))"
proof -
  note R = main_reach_beacon [OF assms(4,3)]
  have tok: "requirePunchToken s" using R main_token [of ncpu resolve g getenv] assms(2,6) by (simp add: settings_def)
  have inv: "server_inv s" using R beacon_reach_inv beacon_invD(1) assms(6) by blast
  obtain t where t: "handlePunchRequest x e s data remote = Done t"
    using dispatchPacket_inv [OF inv, of x e "BeaconMsgPunchRequest x # data" remote 0] assms(5)
    by (auto simp: dispatchPacket_def inbound_types_def)
  then have "s' = t"
    using assms(5,7) by (auto simp: handlePacket_def handlePacketFrom_def dispatchPacket_def inbound_types_def recoverHandler_def)
  then show ?thesis using punch_grant_needed [OF tok t] assms(8) by simp
qed

text \<open>
  C39: How the process ends: with status 0 after a signal, having told every goroutine to stop and closed
  its sockets; or with status 1 because a socket could not be bound, and then no socket stays open, no
  worker was started and nothing was sent.  Until then it runs as a beacon with the settings of its
  flags.
\<close>

theorem process_exits:
  assumes "ncpu < 2 ^ 32" "main_reach x it P (mainStart ncpu resolve f getenv) c" "b = pbeacon c"
  shows "beacon_reach x it P b \<and> settings (srv b) = settings (mainServer ncpu resolve f getenv)
    \<and> (pexit c = None \<or> pexit c = Some 0 \<or> pexit c = Some 1)
    \<and> (pexit c = Some 0 \<longrightarrow> serverDone (srv b) \<and> \<not> socketsOpen b)
    \<and> (pexit c = Some 1 \<longrightarrow> \<not> socketsOpen b \<and> workers b = [] \<and> outbox (srv b) = [])"
  using main_reach_beacon [OF assms(2,1)] assms(3) by (auto simp: proc_ok_def)

text \<open>
  On Linux every socket of the beacon has \<^verbatim>\<open>SO_REUSEPORT\<close>; elsewhere there is exactly one socket,
  without the option.
\<close>

lemma sockets_reuse_port:
  assumes "ListenAndServe b ncpu linux (bindWith linux sys) = Done (None, b')"
  shows "length (conns b') = readerCount ncpu linux
    \<and> (\<forall>i < readerCount ncpu linux. \<exists>sk. listenReusePort linux (sys i) = Inr sk \<and> laddr sk = conns b' ! i \<and> (reusePort sk \<longleftrightarrow> linux))
    \<and> (\<not> linux \<longrightarrow> readerCount ncpu linux = 1)"
proof -
  obtain cs where cs: "openSockets (bindWith linux sys) 0 (readerCount ncpu linux) [] = Inr cs" "conns b' = cs"
    using assms by (auto simp: ListenAndServe_def Let_def split: sum.splits if_splits)
  have "\<exists>sk. listenReusePort linux (sys i) = Inr sk \<and> laddr sk = cs ! i \<and> (reusePort sk \<longleftrightarrow> linux)" if "i < readerCount ncpu linux" for i
  proof -
    have "bindWith linux sys i = Some (cs ! i)" using openSockets_ok [OF cs(1)] that by simp
    then show ?thesis
      by (auto simp: bindWith_def listenReusePort_def listenReusePort_linux_def listenReusePort_other_def bindSocket_def
          split: if_splits option.splits)
  qed
  moreover have "\<not> linux \<longrightarrow> readerCount ncpu linux = 1" by (auto simp: readerCount_def MaxReusePortShards_def Let_def)
  ultimately show ?thesis using openSockets_ok [OF cs(1)] cs(2) by simp
qed

section \<open>Closing before listening\<close>

text \<open>
  \<^verbatim>\<open>Close\<close> runs its teardown once.  A server that is closed before it listens still binds its sockets when
  it listens afterwards, and no later \<^verbatim>\<open>Close\<close> closes them.
\<close>

lemma close_then_listen_leaks:
  assumes "beacon_Close b ok = (err, b1)" "ListenAndServe b1 ncpu linux bind = Done (None, b2)"
  shows "serverDone (srv b) \<or> closeErr b = None \<Longrightarrow> serverDone (srv b2) \<and> socketsOpen b2 \<and> conns b2 \<noteq> [] \<and> snd (beacon_Close b2 ok') = b2"
proof -
  assume "serverDone (srv b) \<or> closeErr b = None"
  then have b1: "serverDone (srv b1)" "closeErr b1 \<noteq> None"
    using assms(1) by (auto simp: beacon_Close_def Let_def split: option.splits)
  obtain cs where cs: "openSockets bind 0 (readerCount ncpu linux) [] = Inr cs" "conns b2 = cs" "socketsOpen b2" "closeErr b2 = closeErr b1"
      "serverDone (srv b2) = serverDone (srv b1)"
    using assms(2) by (auto simp: ListenAndServe_def Let_def split: sum.splits if_splits)
  have "cs \<noteq> []" using openSockets_ok [OF cs(1)] readerCount_pos [of ncpu linux] by auto
  then show ?thesis using b1 cs by (auto simp: beacon_Close_def)
qed

section \<open>Example runs\<close>

text \<open>A beacon that requires tokens and trusts every source, with one socket; node 2 announces its key.\<close>

definition exTokenFlags :: flags where
  "exTokenFlags = exFlags\<lparr>fRequirePunchToken := True, fPunchWhitelist := ''*''\<rparr>"

definition exAnswer :: "nat \<Rightarrow> sockAnswer" where
  "exAnswer i = \<lparr>resolved = Some exAddr, controlErr = False, sockoptErr = False, bound = Some exAddr\<rparr>"

abbreviation exMain :: "proc \<Rightarrow> bool" where
  "exMain \<equiv> main_reach exAll sorted_list_of_fset healthy (mainStart 8 (\<lambda>_. None) exTokenFlags (\<lambda>_. []))"

definition exTokenListens :: beacon where
  "exTokenListens =
     (case ListenAndServe (beacon_start (mainServer 8 (\<lambda>_. None) exTokenFlags (\<lambda>_. []))) 8 False (bindWith False exAnswer) of
        Done (_, b) \<Rightarrow> b | Panicked (_, b) \<Rightarrow> b)"

definition exAnnounces :: beacon where
  "exAnnounces = exTokenListens\<lparr>srv := handlePacket exAll (exEnv 1) (srv exTokenListens) ([1, 0, 0, 0, 2] @ replicate 32 1) exAddr\<rparr>"

lemma exTokenListens_Done:
  "ListenAndServe (beacon_start (mainServer 8 (\<lambda>_. None) exTokenFlags (\<lambda>_. []))) 8 False (bindWith False exAnswer) = Done (None, exTokenListens)"
  unfolding exTokenListens_def
  by (simp add: ListenAndServe_def beacon_start_def bindWith_def listenReusePort_def listenReusePort_other_def bindSocket_def exAnswer_def
      readerCount_def MaxReusePortShards_def One_nat_def Let_def)

lemma exTokenListens_srv: "srv exTokenListens = (mainServer 8 (\<lambda>_. None) exTokenFlags (\<lambda>_. []))\<lparr>conn := Some exAddr\<rparr>" "ready exTokenListens"
  by (simp_all add: exTokenListens_def ListenAndServe_def beacon_start_def bindWith_def listenReusePort_def listenReusePort_other_def
      bindSocket_def exAnswer_def readerCount_def MaxReusePortShards_def One_nat_def Let_def)

lemma exTokenServer:
  "mainServer 8 (\<lambda>_. None) exTokenFlags (\<lambda>_. []) =
     (NewWithPeers 8 (\<lambda>_. None) 3 [''a:1'', ''b:2''])\<lparr>punchWhitelistAll := True, punchWhitelist := {||}, requirePunchToken := True, strictGossip := True\<rparr>"
  by (simp add: mainServer_def exTokenFlags_def exFlags_def mainPeers_def setter_defs TrimSpace_def isSpace_def Let_def)

lemma exAnnounces_fields:
  "requirePunchToken (srv exAnnounces)" "punchWhitelistAll (srv exAnnounces)" "breakerAllow (srv exAnnounces) = None"
  "authKeyLookup (srv exAnnounces) = None" "fmlookup (nodePubKeys (srv exAnnounces)) 2 = Some (replicate 32 1)"
  "Snapshot (nodes (srv exAnnounces)) 1 = None" "\<not> snd (snd (Upsert (nodes (srv exAnnounces)) 1 exAddr (at_s 50) maxBeaconNodes))"
  by (simp_all add: exAnnounces_def exTokenListens_srv exTokenServer NewWithPeers_def handlePacket_def handlePacketFrom_def dispatchPacket_def
      exAll_def exExterns_def recoverHandler_def handleDiscover_def breakerOpen_def uint32_at_def slice_def PublicKeySize_def discoverUpsert_def
      storeKey_def discover_allow_def newDiscoverRateLimiter_def rateLimitShards_def shardU32_def discoverReply_def WriteToUDP_def Upsert_def
      shardFor_def newNodeMap_def nodeShardCount_def maxBeaconNodes_def Snapshot_def exAddr_def ipBytes_def To4_def Let_def)

lemma exMain_listen:
  assumes "ListenAndServe (beacon_start (mainServer 8 (\<lambda>_. None) exTokenFlags (\<lambda>_. []))) 8 linux (bindWith linux sys) = Done (err, b)"
  shows "exMain \<lparr>pbeacon = b, plistened = True, pexit = if err = None then None else Some 1\<rparr>"
proof -
  let ?c = "mainStart 8 (\<lambda>_. None) exTokenFlags (\<lambda>_. [])"
  have "main_step exAll sorted_list_of_fset healthy ?c (?c\<lparr>pbeacon := b, plistened := True, pexit := if err = None then None else Some 1\<rparr>)"
    by (rule main_step.listen [where linux = linux]) (use assms in \<open>simp_all add: mainStart_def\<close>)
  from main_reach.more [OF main_reach.start this] show ?thesis by (simp add: mainStart_def)
qed

lemma exAnnounces_reach: "exMain \<lparr>pbeacon = exAnnounces, plistened = True, pexit = None\<rparr>"
proof -
  have "exMain \<lparr>pbeacon = exTokenListens, plistened = True, pexit = None\<rparr>"
    using exMain_listen [OF exTokenListens_Done] by simp
  from main_reach.more [OF this main_step.datagram [OF _ _ refl]] show ?thesis
    using exTokenListens_srv(2) by (simp add: exAnnounces_def)
qed

lemma exAnnounces_punch:
  "nodes (handlePacket exAll (exEnv 50) (srv exAnnounces) (BeaconMsgPunchRequest exAll # exGrant) exAddr) \<noteq> nodes (srv exAnnounces)"
proof -
  let ?s = "srv exAnnounces"
  note F = exAnnounces_fields
  have "handlePunchRequest exAll (exEnv 50) ?s exGrant exAddr = Done (coordinatePunch exAll (exEnv 50) ?s 1 2 exAddr)"
    by (simp add: handlePunchRequest_def breakerOpen_def F whitelisted_def servePunch_def exGrant_def uint32_at_def slice_def
        verifyPunchGrant_def punchGrantTrailerSize_def punchGrantExpirySize_def SignatureSize_def targetPubKey_def PublicKeySize_def
        ed25519_Verify_def exAll_def Unix_def at_s_def unixToInternal_def second_def word_sless_alt)
  then have h: "nodes (handlePacket exAll (exEnv 50) ?s (BeaconMsgPunchRequest exAll # exGrant) exAddr) = fst (Upsert (nodes ?s) 1 exAddr (at_s 50) maxBeaconNodes)"
    by (simp add: handlePacket_def handlePacketFrom_def dispatchPacket_def recoverHandler_def exAll_def exExterns_def)
  have "server_inv ?s"
    using main_reach_beacon [OF exAnnounces_reach] beacon_reach_inv beacon_invD(1) by fastforce
  then have "nodes_abs (fst (Upsert (nodes ?s) 1 exAddr (at_s 50) maxBeaconNodes)) 1 \<noteq> None"
    using Upsert_nodes_abs [OF server_inv_wf(1) F(7)] by simp
  moreover have "nodes_abs (nodes ?s) 1 = None" using F(6) by (simp add: Snapshot_abs)
  ultimately show ?thesis using h by auto
qed

theorem process_punch_requires_grant_witness:
  "\<exists>t pub. uint32_at exGrant 4 = Some t \<and> targetPubKey (srv exAnnounces) t = (pub, True) \<and> length pub = PublicKeySize"
proof -
  have "distinct (inbound_types exAll)" by (simp add: inbound_types_def exAll_def exExterns_def)
  moreover have "mainFlags (\<lambda>_. None) [] exTokenFlags = Some exTokenFlags" by (simp add: mainFlags_def)
  moreover have "fRequirePunchToken exTokenFlags \<or> (\<lambda>_. []) ''BEACON_REQUIRE_PUNCH_TOKEN'' = ''1''" by (simp add: exTokenFlags_def)
  ultimately show ?thesis
    using process_punch_requires_grant [OF _ _ _ exAnnounces_reach _ refl refl, of "\<lambda>_. None" "[]" exTokenFlags "exEnv 50" exGrant exAddr]
      exAnnounces_punch by auto
qed

text \<open>A process that cannot resolve its address.\<close>

definition exFailed :: proc where
  "exFailed = \<lparr>pbeacon = (beacon_start (mainServer 8 (\<lambda>_. None) exTokenFlags (\<lambda>_. []))), plistened = True, pexit = Some 1\<rparr>"

lemma exFailed_reach: "exMain exFailed"
proof -
  let ?b = "beacon_start (mainServer 8 (\<lambda>_. None) exTokenFlags (\<lambda>_. []))"
  have "ListenAndServe ?b 8 False (bindWith False (\<lambda>i. (exAnswer i)\<lparr>resolved := None\<rparr>)) = Done (Some 0, ?b)"
    by (simp add: ListenAndServe_def bindWith_def listenReusePort_def listenReusePort_other_def readerCount_def MaxReusePortShards_def
        beacon_start_def One_nat_def Let_def)
  from exMain_listen [OF this] show ?thesis by (simp add: exFailed_def)
qed

theorem process_exits_witness: "exMain exFailed \<and> pexit exFailed = Some 1 \<and> workers (pbeacon exFailed) = [] \<and> outbox (srv (pbeacon exFailed)) = []"
  using process_exits [OF _ exFailed_reach refl] exFailed_reach by (simp add: exFailed_def)

end
