(* ===== verification/TableConc.thy ===== *)
theory TableConc
  imports NodeMap
begin

text \<open>
  The node table under concurrency.  \<^verbatim>\<open>Upsert\<close>, \<^verbatim>\<open>claimNotify\<close> and the lookups hold the lock of one shard;
  \<^verbatim>\<open>Len\<close>, \<^verbatim>\<open>IDs\<close> and \<^verbatim>\<open>ReapStale\<close> lock one shard after the other, and everything else may happen in
  between.  Here each of those loops is a sequence of steps, one per shard.
\<close>

section \<open>Loops over the shards\<close>

text \<open>
  A loop has a next shard and what it has collected so far.  \<open>since\<close> is the length of the history of
  tables when the loop began; no step depends on it.
\<close>

datatype tloop =
    IDsLoop (since: nat) (nextShard: nat) "nodeid list"
  | LenLoop (since: nat) (nextShard: nat) nat
  | ReapLoop (since: nat) (nextShard: nat) gotime nat

definition reapShard :: "gotime \<Rightarrow> nodeShard \<Rightarrow> nodeShard" where
  "reapShard threshold s = fm_keep (\<lambda>nid n. \<not> Before (lastSeen n) threshold) s"

fun loopTurn :: "(nodeid fset \<Rightarrow> nodeid list) \<Rightarrow> nodeMap \<Rightarrow> tloop \<Rightarrow> nodeMap \<times> tloop" where
  "loopTurn it m (IDsLoop b i out) = (m, IDsLoop b (i + 1) (out @ it (fmdom (shards m ! i))))"
| "loopTurn it m (LenLoop b i acc) = (m, LenLoop b (i + 1) (acc + fm_len (shards m ! i)))"
| "loopTurn it m (ReapLoop b i threshold removed) =
     (m\<lparr>shards := (shards m)[i := reapShard threshold (shards m ! i)]\<rparr>,
      ReapLoop b (i + 1) threshold (removed + fm_len (fm_keep (\<lambda>nid n. Before (lastSeen n) threshold) (shards m ! i))))"

record tsys =
  table :: nodeMap
  loops :: "tloop list"
  tables :: "nodeMap list"

definition moves :: "tsys \<Rightarrow> nodeMap \<Rightarrow> tsys" where
  "moves c m = c\<lparr>table := m, tables := tables c @ [m]\<rparr>"

inductive table_step :: "(nodeid fset \<Rightarrow> nodeid list) \<Rightarrow> tsys \<Rightarrow> tsys \<Rightarrow> bool" for it where
  upsert: "table_step it c (moves c (fst (Upsert (table c) nodeID a now maxTotal)))"
| claim: "table_step it c (moves c (fst (claimNotify (table c) nodeID now minGap)))"
| begin_ids: "table_step it c (c\<lparr>loops := loops c @ [IDsLoop (length (tables c) - 1) 0 []]\<rparr>)"
| begin_len: "table_step it c (c\<lparr>loops := loops c @ [LenLoop (length (tables c) - 1) 0 0]\<rparr>)"
| begin_reap: "table_step it c (c\<lparr>loops := loops c @ [ReapLoop (length (tables c) - 1) 0 threshold 0]\<rparr>)"
| turn: "k < length (loops c) \<Longrightarrow> nextShard (loops c ! k) < length (shards (table c)) \<Longrightarrow> loopTurn it (table c) (loops c ! k) = (m, l) \<Longrightarrow>
    table_step it c ((moves c m)\<lparr>loops := (loops c)[k := l]\<rparr>)"

inductive table_reach :: "(nodeid fset \<Rightarrow> nodeid list) \<Rightarrow> tsys \<Rightarrow> bool" for it where
  start: "table_reach it \<lparr>table = newNodeMap, loops = [], tables = [newNodeMap]\<rparr>"
| more: "table_reach it c \<Longrightarrow> table_step it c c' \<Longrightarrow> table_reach it c'"

section \<open>A loop alone\<close>

text \<open>Without interference each loop is the operation of theory \<open>NodeMap\<close>.\<close>

fun turns :: "nat \<Rightarrow> (nodeid fset \<Rightarrow> nodeid list) \<Rightarrow> nodeMap \<times> tloop \<Rightarrow> nodeMap \<times> tloop" where
  "turns 0 it c = c"
| "turns (Suc n) it c = turns n it (loopTurn it (fst c) (snd c))"

lemma take_Suc_last: "i < length xs \<Longrightarrow> take (i + 1) xs = take i xs @ [xs ! i]"
  by (simp add: take_Suc_conv_app_nth)

lemma turns_ids:
  "i + n = length (shards m) \<Longrightarrow>
   turns n it (m, IDsLoop b i out) = (m, IDsLoop b (i + n) (out @ concat (map (\<lambda>s. it (fmdom s)) (drop i (shards m)))))"
proof (induction n arbitrary: i out)
  case (Suc n)
  then have "drop i (shards m) = shards m ! i # drop (i + 1) (shards m)" using Cons_nth_drop_Suc [of i "shards m"] by simp
  then show ?case using Suc.IH [of "i + 1"] Suc.prems by simp
qed simp

lemma turns_len:
  "i + n = length (shards m) \<Longrightarrow>
   turns n it (m, LenLoop b i acc) = (m, LenLoop b (i + n) (acc + sum_list (map fm_len (drop i (shards m)))))"
proof (induction n arbitrary: i acc)
  case (Suc n)
  then have "drop i (shards m) = shards m ! i # drop (i + 1) (shards m)" using Cons_nth_drop_Suc [of i "shards m"] by simp
  then show ?case using Suc.IH [of "i + 1"] Suc.prems by simp
qed simp

lemma turns_reap:
  "i + n = length (shards m) \<Longrightarrow>
   turns n it (m, ReapLoop b i thr removed) =
     (m\<lparr>shards := take i (shards m) @ map (reapShard thr) (drop i (shards m))\<rparr>,
      ReapLoop b (i + n) thr (removed + sum_list (map (\<lambda>s. fm_len (fm_keep (\<lambda>nid n. Before (lastSeen n) thr) s)) (drop i (shards m)))))"
proof (induction n arbitrary: i m removed)
  case (Suc n)
  let ?m = "m\<lparr>shards := (shards m)[i := reapShard thr (shards m ! i)]\<rparr>"
  have d: "drop i (shards m) = shards m ! i # drop (i + 1) (shards m)" using Cons_nth_drop_Suc [of i "shards m"] Suc.prems by simp
  have t: "take (i + 1) (shards ?m) = take i (shards m) @ [reapShard thr (shards m ! i)]" "drop (i + 1) (shards ?m) = drop (i + 1) (shards m)"
    using Suc.prems take_Suc_last [of i "shards ?m"] by simp_all
  show ?case using Suc.IH [of "i + 1" ?m] Suc.prems t by (simp add: d)
qed simp

lemma loops_alone:
  assumes "length (shards m) = nodeShardCount"
  shows "turns nodeShardCount it (m, IDsLoop b 0 []) = (m, IDsLoop b nodeShardCount (IDs it m))"
    "turns nodeShardCount it (m, LenLoop b 0 0) = (m, LenLoop b nodeShardCount (Len m))"
    "turns nodeShardCount it (m, ReapLoop b 0 thr 0) = (fst (ReapStale m thr), ReapLoop b nodeShardCount thr (snd (ReapStale m thr)))"
proof -
  have n: "0 + nodeShardCount = length (shards m)" using assms by simp
  show "turns nodeShardCount it (m, IDsLoop b 0 []) = (m, IDsLoop b nodeShardCount (IDs it m))"
    using turns_ids [OF n] by (simp add: IDs_def)
  show "turns nodeShardCount it (m, LenLoop b 0 0) = (m, LenLoop b nodeShardCount (Len m))"
    using turns_len [OF n] by (simp add: Len_def)
  show "turns nodeShardCount it (m, ReapLoop b 0 thr 0) = (fst (ReapStale m thr), ReapLoop b nodeShardCount thr (snd (ReapStale m thr)))"
    using turns_reap [OF n] by (simp add: ReapStale_def reapShard_def [abs_def])
qed

section \<open>Interference\<close>

definition stale :: "gotime \<Rightarrow> nodeMap \<Rightarrow> nodeid \<Rightarrow> bool" where
  "stale threshold m nid \<longleftrightarrow> (case nodes_abs m nid of None \<Rightarrow> False | Some n \<Rightarrow> Before (lastSeen n) threshold)"

text \<open>What holds of the shards a loop has visited, in terms of the tables since it began.\<close>

definition always :: "nodeMap list \<Rightarrow> nodeid set" where
  "always ms = {nid. \<forall>m \<in> set ms. Has m nid}"

definition sometime :: "nodeMap list \<Rightarrow> nodeid set" where
  "sometime ms = {nid. \<exists>m \<in> set ms. Has m nid}"

abbreviation visited :: "nat \<Rightarrow> nodeid set" where
  "visited i \<equiv> {nid. shardFor nid < i}"

fun loop_ok :: "nodeMap list \<Rightarrow> tloop \<Rightarrow> bool" where
  "loop_ok ms (IDsLoop b i out) \<longleftrightarrow> b < length ms \<and> distinct out
     \<and> always (drop b ms) \<inter> visited i \<subseteq> set out \<and> set out \<subseteq> sometime (drop b ms) \<inter> visited i"
| "loop_ok ms (LenLoop b i acc) \<longleftrightarrow> b < length ms
     \<and> card (always (drop b ms) \<inter> visited i) \<le> acc \<and> acc \<le> card (sometime (drop b ms) \<inter> visited i)"
| "loop_ok ms (ReapLoop b i threshold removed) \<longleftrightarrow> b < length ms
     \<and> (\<forall>nid \<in> visited i. \<exists>m \<in> set (drop b ms). \<not> stale threshold m nid)"

definition scan_inv :: "tsys \<Rightarrow> bool" where
  "scan_inv c \<longleftrightarrow> tables c \<noteq> [] \<and> last (tables c) = table c \<and> node_wf (table c) \<and> list_all (loop_ok (tables c)) (loops c)"

lemma always_antimono: "set ms \<subseteq> set ms' \<Longrightarrow> always ms' \<subseteq> always ms"
  by (auto simp: always_def)

lemma sometime_mono: "set ms \<subseteq> set ms' \<Longrightarrow> sometime ms \<subseteq> sometime ms'"
  by (auto simp: sometime_def)

lemma finite_ids: "finite (A :: nodeid set)"
  by (rule finite_subset [OF subset_UNIV finite])

text \<open>A step of another goroutine only adds a table to the history.\<close>

lemma loop_ok_more:
  assumes "loop_ok ms l"
  shows "loop_ok (ms @ [m]) l"
proof -
  have b: "since l < length ms" using assms by (cases l) simp_all
  then have d: "drop (since l) (ms @ [m]) = drop (since l) ms @ [m]" by simp
  have s: "set (drop (since l) ms) \<subseteq> set (drop (since l) (ms @ [m]))" by (auto simp: d)
  note mono = always_antimono [OF s] sometime_mono [OF s]
  show ?thesis
  proof (cases l)
    case (IDsLoop b i out)
    then show ?thesis using assms mono by auto
  next
    case (LenLoop b i acc)
    have "card (always (drop b (ms @ [m])) \<inter> visited i) \<le> card (always (drop b ms) \<inter> visited i)"
      "card (sometime (drop b ms) \<inter> visited i) \<le> card (sometime (drop b (ms @ [m])) \<inter> visited i)"
      using mono LenLoop by (auto intro!: card_mono finite_ids)
    then show ?thesis using assms LenLoop by auto
  next
    case (ReapLoop b i thr removed)
    then show ?thesis using assms s by (auto simp: d)
  qed
qed

subsection \<open>The turn of a loop\<close>

lemma shard_ids:
  assumes "node_wf m" "i < nodeShardCount"
  shows "fset (fmdom (shards m ! i)) = {nid. shardFor nid = i \<and> Has m nid}"
proof (rule set_eqI)
  fix nid
  have "shardFor nid = i" if "fmlookup (shards m ! i) nid \<noteq> None"
    using assms that unfolding node_wf_def sh_wf_def by blast
  then show "nid \<in> fset (fmdom (shards m ! i)) \<longleftrightarrow> nid \<in> {nid. shardFor nid = i \<and> Has m nid}"
    unfolding Has_def mem_Collect_eq fmdom_notI fmlookup_dom_iff by (metis not_Some_eq)
qed

lemma reapShard_abs:
  assumes "node_wf m" "i < nodeShardCount" "m' = m\<lparr>shards := (shards m)[i := reapShard thr (shards m ! i)]\<rparr>"
  shows "node_wf m'" "nodes_abs m' nid = (if shardFor nid = i \<and> stale thr m nid then None else nodes_abs m nid)"
proof -
  have len: "length (shards m) = nodeShardCount" using assms(1) by (simp add: node_wf_def sh_wf_length)
  show "node_wf m'"
    using assms by (auto simp: node_wf_def sh_wf_def reapShard_def nth_list_update split: option.splits if_splits)
  show "nodes_abs m' nid = (if shardFor nid = i \<and> stale thr m nid then None else nodes_abs m nid)"
    using len shardFor_less [of nid]
    by (cases "shardFor nid = i") (auto simp: assms(3) nodes_abs_def sh_get_def stale_def reapShard_def split: option.splits)
qed

lemma loopTurn_wf:
  assumes "node_wf m" "nextShard l < nodeShardCount" "loopTurn it m l = (m', l')"
  shows "node_wf m'" "since l' = since l"
  using assms by (cases l; auto dest: reapShard_abs(1))+

lemma loopTurn_ok:
  assumes "iter_ok it" "node_wf m" "loop_ok ms l" "last ms = m" "nextShard l < nodeShardCount" "loopTurn it m l = (m', l')"
  shows "loop_ok (ms @ [m']) l'"
proof (cases l)
  case (IDsLoop b i out)
  let ?D = "drop b ms" and ?S = "{nid. shardFor nid = i \<and> Has m nid}"
  have b: "b < length ms" and o: "distinct out" "always ?D \<inter> visited i \<subseteq> set out" "set out \<subseteq> sometime ?D \<inter> visited i"
    using assms(3) IDsLoop by simp_all
  then have m: "m \<in> set ?D" using assms(4) by (metis drop_eq_Nil last_drop last_in_set not_le)
  have sh: "set (it (fmdom (shards m ! i))) = ?S" "distinct (it (fmdom (shards m ! i)))"
    using shard_ids [OF assms(2)] assms(5) IDsLoop iter_okD [OF assms(1)] by simp_all
  have "loop_ok ms (IDsLoop b (i + 1) (out @ it (fmdom (shards m ! i))))"
    using b o sh m by (auto simp: always_def sometime_def less_Suc_eq)
  from loop_ok_more [OF this, of m] show ?thesis using assms(6) unfolding IDsLoop loopTurn.simps prod.inject by blast
next
  case (LenLoop b i acc)
  let ?D = "drop b ms" and ?S = "{nid. shardFor nid = i \<and> Has m nid}"
  have b: "b < length ms" and o: "card (always ?D \<inter> visited i) \<le> acc" "acc \<le> card (sometime ?D \<inter> visited i)"
    using assms(3) LenLoop by simp_all
  then have m: "m \<in> set ?D" using assms(4) by (metis drop_eq_Nil last_drop last_in_set not_le)
  have sh: "fm_len (shards m ! i) = card ?S"
    using shard_ids [OF assms(2), of i] assms(5) LenLoop by (simp add: fm_len_def fcard.rep_eq)
  have "card (always ?D \<inter> visited (i + 1)) \<le> card ((always ?D \<inter> visited i) \<union> ?S)"
    using m by (intro card_mono finite_ids) (auto simp: always_def less_Suc_eq)
  also have "\<dots> \<le> acc + card ?S" using o(1) card_Un_le [of "always ?D \<inter> visited i" ?S] by linarith
  finally have 1: "card (always ?D \<inter> visited (i + 1)) \<le> acc + card ?S" .
  have "acc + card ?S \<le> card ((sometime ?D \<inter> visited i) \<union> ?S)"
    using o(2) by (subst card_Un_disjoint) (auto intro: finite_ids)
  also have "\<dots> \<le> card (sometime ?D \<inter> visited (i + 1))"
    using m by (intro card_mono finite_ids) (auto simp: sometime_def)
  finally have "loop_ok ms (LenLoop b (i + 1) (acc + card ?S))" using 1 b by simp
  from loop_ok_more [OF this, of m] show ?thesis using assms(6) unfolding LenLoop loopTurn.simps prod.inject sh by blast
next
  case (ReapLoop b i thr removed)
  note r = reapShard_abs [OF assms(2) _ refl, of i thr]
  have m': "m' = m\<lparr>shards := (shards m)[i := reapShard thr (shards m ! i)]\<rparr>" using assms(6) ReapLoop by auto
  have "\<not> stale thr m' nid" if "shardFor nid = i" for nid
    using r(2) [of nid] assms(5) ReapLoop that by (auto simp: m' stale_def split: option.splits)
  then show ?thesis
    using loop_ok_more [OF assms(3), of m'] assms(6) ReapLoop by (auto simp: less_Suc_eq)
qed

lemma moves_inv:
  assumes "scan_inv c" "node_wf m"
  shows "scan_inv (moves c m)"
  using assms loop_ok_more [of "tables c" _ m] by (auto simp: scan_inv_def moves_def list_all_iff)

lemma begin_inv:
  assumes "scan_inv c" "l = IDsLoop (length (tables c) - 1) 0 [] \<or> l = LenLoop (length (tables c) - 1) 0 0 \<or> l = ReapLoop (length (tables c) - 1) 0 thr 0"
  shows "scan_inv (c\<lparr>loops := loops c @ [l]\<rparr>)"
  using assms by (auto simp: scan_inv_def)

lemma turn_inv:
  assumes "iter_ok it" "scan_inv c" "k < length (loops c)" "nextShard (loops c ! k) < length (shards (table c))"
    "loopTurn it (table c) (loops c ! k) = (m, l)"
  shows "scan_inv ((moves c m)\<lparr>loops := (loops c)[k := l]\<rparr>)"
proof -
  have wf: "node_wf (table c)" "last (tables c) = table c" "list_all (loop_ok (tables c)) (loops c)" using assms(2) by (simp_all add: scan_inv_def)
  have i: "nextShard (loops c ! k) < nodeShardCount" using assms(4) wf(1) by (simp add: node_wf_def sh_wf_length)
  have l: "loop_ok (tables c @ [m]) l"
    using loopTurn_ok [OF assms(1) wf(1) _ wf(2) i assms(5)] wf(3) assms(3) by (simp add: list_all_length)
  have "list_all (loop_ok (tables c @ [m])) (loops c)" using wf(3) loop_ok_more by (simp add: list_all_iff)
  then have "list_all (loop_ok (tables c @ [m])) ((loops c)[k := l])"
    using l by (simp add: list_all_length) (metis nth_list_update_eq nth_list_update_neq)
  then show ?thesis using loopTurn_wf(1) [OF wf(1) i assms(5)] by (simp add: scan_inv_def moves_def)
qed

lemma table_step_inv:
  assumes "table_step it c c'" "iter_ok it" "scan_inv c"
  shows "scan_inv c'"
proof -
  have wf: "node_wf (table c)" using assms(3) by (simp add: scan_inv_def)
  from assms(1) show ?thesis
  proof cases
    case (turn k m l)
    then show ?thesis using turn_inv [OF assms(2,3)] by simp
  next
    case upsert
    then show ?thesis using moves_inv [OF assms(3)] node_wf_Upsert [OF wf] by simp
  next
    case claim
    then show ?thesis using moves_inv [OF assms(3)] node_wf_claim [OF wf] by simp
  qed (use begin_inv [OF assms(3)] in blast)+
qed

lemma table_reach_inv: "table_reach it c \<Longrightarrow> iter_ok it \<Longrightarrow> scan_inv c"
proof (induction rule: table_reach.induct)
  case start
  then show ?case by (simp add: scan_inv_def node_wf_new)
qed (rule table_step_inv)

section \<open>Properties\<close>

text \<open>
  C40: What the loops over the shards promise while other goroutines change the table: \<^verbatim>\<open>IDs\<close> returns no id
  twice, every id that was registered all the time, and only ids that were registered at some time of
  the call; \<^verbatim>\<open>Len\<close> lies between the numbers of those two kinds of ids; and after \<^verbatim>\<open>ReapStale\<close> no entry is
  left that was stale all the time.
\<close>

theorem table_loops_consistent:
  assumes "iter_ok it" "table_reach it c" "k < length (loops c)" "seen = set (drop (since (loops c ! k)) (tables c))"
  shows "(\<forall>b out. loops c ! k = IDsLoop b nodeShardCount out \<longrightarrow>
        distinct out \<and> (\<forall>nid. (\<forall>m \<in> seen. Has m nid) \<longrightarrow> nid \<in> set out) \<and> (\<forall>nid \<in> set out. \<exists>m \<in> seen. Has m nid))
    \<and> (\<forall>b acc. loops c ! k = LenLoop b nodeShardCount acc \<longrightarrow>
        card {nid. \<forall>m \<in> seen. Has m nid} \<le> acc \<and> acc \<le> card {nid. \<exists>m \<in> seen. Has m nid})
    \<and> (\<forall>b thr removed. loops c ! k = ReapLoop b nodeShardCount thr removed \<longrightarrow> (\<forall>nid. \<exists>m \<in> seen. \<not> stale thr m nid))"
proof -
  have ok: "loop_ok (tables c) (loops c ! k)"
    using table_reach_inv [OF assms(2,1)] assms(3) by (simp add: scan_inv_def list_all_length)
  have v: "visited nodeShardCount = UNIV" using shardFor_less by auto
  show ?thesis
  proof (cases "loops c ! k")
    case (IDsLoop b i out)
    then show ?thesis using ok assms(4) shardFor_less by (auto simp: always_def sometime_def)
  next
    case (LenLoop b i acc)
    then show ?thesis using ok assms(4) v by (auto simp: always_def sometime_def)
  next
    case (ReapLoop b i thr removed)
    then show ?thesis using ok assms(4) shardFor_less by auto
  qed
qed

section \<open>Not a point in time\<close>

text \<open>
  The ids that \<^verbatim>\<open>IDs\<close> returns need not be those of any one moment: node 0 expires after its shard was
  read, and node 63 registers before its shard is.
\<close>

lemma reach_turns:
  assumes "table_reach it c" "k < length (loops c)" "loops c ! k = IDsLoop b i out" "i + n = length (shards (table c))"
  shows "\<exists>c'. table_reach it c' \<and> k < length (loops c') \<and> loops c' ! k = snd (turns n it (table c, loops c ! k)) \<and> set (tables c') \<subseteq> insert (table c) (set (tables c))"
  using assms
proof (induction n arbitrary: c i out)
  case (Suc n)
  let ?l = "IDsLoop b (i + 1) (out @ it (fmdom (shards (table c) ! i)))"
  let ?c = "(moves c (table c))\<lparr>loops := (loops c)[k := ?l]\<rparr>"
  have "table_step it c ?c" using Suc.prems by (intro table_step.turn) simp_all
  then have "table_reach it ?c" using Suc.prems(1) by (rule table_reach.more [rotated])
  moreover have "k < length (loops ?c)" "loops ?c ! k = ?l" "i + 1 + n = length (shards (table ?c))" "table ?c = table c"
    using Suc.prems by (simp_all add: moves_def)
  ultimately obtain c' where "table_reach it c'" "k < length (loops c')" "loops c' ! k = snd (turns n it (table c, ?l))" "set (tables c') \<subseteq> insert (table c) (set (tables ?c))"
    using Suc.IH [of ?c] by metis
  then show ?case using Suc.prems(3) by (auto simp: moves_def)
qed auto

definition exFirst :: nodeMap where
  "exFirst = fst (Upsert newNodeMap 0 exAddr (at_s 0) 0)"

definition exGone :: nodeMap where
  "exGone = exFirst\<lparr>shards := (shards exFirst)[0 := reapShard (at_s 9) (shards exFirst ! 0)]\<rparr>"

definition exLater :: nodeMap where
  "exLater = fst (Upsert exGone 63 exAddr (at_s 9) 0)"

lemma exTables:
  "node_wf exFirst" "node_wf exGone" "node_wf exLater" "Has exFirst k \<longleftrightarrow> k = 0" "\<not> Has exGone k" "Has exLater k \<longleftrightarrow> k = 63"
proof -
  have f: "nodes_abs exFirst = [0 \<mapsto> touch None exAddr (at_s 0)]" unfolding exFirst_def by (simp add: Upsert_put nodes_abs_put)
  show 1: "node_wf exFirst" unfolding exFirst_def by (rule node_wf_Upsert) simp
  note g = reapShard_abs [OF 1 _ exGone_def]
  show 2: "node_wf exGone" using g(1) by (simp add: nodeShardCount_def)
  have e: "nodes_abs exGone = Map.empty"
    by (rule ext) (simp add: g(2) nodeShardCount_def f stale_def touch_def Before_def at_s_def second_def shardFor_def)
  then have l: "nodes_abs exLater = [63 \<mapsto> touch None exAddr (at_s 9)]"
    unfolding exLater_def using 2 by (simp add: Upsert_put nodes_abs_put)
  show "node_wf exLater" unfolding exLater_def by (rule node_wf_Upsert [OF 2])
  show "Has exFirst k \<longleftrightarrow> k = 0" "\<not> Has exGone k" "Has exLater k \<longleftrightarrow> k = 63" using f e l by (simp_all add: Has_abs)
qed

text \<open>The state in which the reading of shard 0 and the expiry are over.\<close>

definition exScanned :: tsys where
  "exScanned = \<lparr>table = exLater, loops = [IDsLoop 1 1 [0], ReapLoop 2 1 (at_s 9) 1], tables = [newNodeMap, exFirst, exFirst, exGone, exLater]\<rparr>"

lemma exScanned_reach: "table_reach sorted_list_of_fset exScanned"
proof -
  let ?it = "sorted_list_of_fset :: nodeid fset \<Rightarrow> nodeid list" and ?r = "table_reach (sorted_list_of_fset :: nodeid fset \<Rightarrow> nodeid list)"
  have sh: "shards exFirst ! 0 = fmupd 0 (touch None exAddr (at_s 0)) fmempty" "length (shards exFirst) = 64"
    by (simp_all add: exFirst_def Upsert_def newNodeMap_def shardFor_def nodeShardCount_def touch_def Let_def)
  have len: "fm_len (fm_keep (\<lambda>nid n. Before (lastSeen n) (at_s 9)) (shards exFirst ! 0)) = 1"
    by (simp add: sh(1) fm_len_card touch_def Before_def at_s_def second_def)
  let ?c1 = "\<lparr>table = exFirst, loops = [], tables = [newNodeMap, exFirst]\<rparr>"
  have 1: "?r ?c1"
    using table_reach.more [OF table_reach.start table_step.upsert [where nodeID = 0 and a = exAddr and now = "at_s 0" and maxTotal = 0]]
    by (simp add: moves_def exFirst_def)
  let ?c2 = "\<lparr>table = exFirst, loops = [IDsLoop 1 0 []], tables = [newNodeMap, exFirst]\<rparr>"
  have 2: "?r ?c2" using table_reach.more [OF 1 table_step.begin_ids] by simp
  let ?c3 = "\<lparr>table = exFirst, loops = [IDsLoop 1 1 [0]], tables = [newNodeMap, exFirst, exFirst]\<rparr>"
  have one: "?it {|0|} = [0]" by (simp add: sorted_list_of_fset.rep_eq)
  have 3: "?r ?c3"
    using table_reach.more [OF 2 table_step.turn [where k = 0 and m = exFirst and l = "IDsLoop 1 1 [0]"]] sh one by (simp add: moves_def)
  let ?c4 = "\<lparr>table = exFirst, loops = [IDsLoop 1 1 [0], ReapLoop 2 0 (at_s 9) 0], tables = [newNodeMap, exFirst, exFirst]\<rparr>"
  have 4: "?r ?c4" using table_reach.more [OF 3 table_step.begin_reap [where threshold = "at_s 9"]] by (simp add: numeral_2_eq_2)
  let ?c5 = "\<lparr>table = exGone, loops = [IDsLoop 1 1 [0], ReapLoop 2 1 (at_s 9) 1], tables = [newNodeMap, exFirst, exFirst, exGone]\<rparr>"
  have 5: "?r ?c5"
    using table_reach.more [OF 4 table_step.turn [where k = 1 and m = exGone and l = "ReapLoop 2 1 (at_s 9) 1"]] sh(2) len
    by (simp add: moves_def exGone_def)
  show ?thesis
    using table_reach.more [OF 5 table_step.upsert [where nodeID = 63 and a = exAddr and now = "at_s 9" and maxTotal = 0]]
    by (simp add: moves_def exScanned_def exLater_def)
qed

lemma exFinished:
  "\<exists>c out. table_reach sorted_list_of_fset c \<and> 0 < length (loops c) \<and> loops c ! 0 = IDsLoop 1 nodeShardCount out \<and> {0, 63} \<subseteq> set out
    \<and> set (tables c) \<subseteq> {newNodeMap, exFirst, exGone, exLater}"
proof -
  let ?it = "sorted_list_of_fset :: nodeid fset \<Rightarrow> nodeid list" and ?rest = "concat (map (\<lambda>s. sorted_list_of_fset (fmdom s)) (drop 1 (shards exLater)))"
  have n: "1 + 63 = length (shards exLater)" using exTables(3) by (simp add: node_wf_def sh_wf_length nodeShardCount_def)
  obtain c where c: "table_reach ?it c" "0 < length (loops c)" "loops c ! 0 = snd (turns 63 ?it (exLater, IDsLoop 1 1 [0]))"
      "set (tables c) \<subseteq> {newNodeMap, exFirst, exGone, exLater}"
    using reach_turns [OF exScanned_reach, of 0 1 1 "[0]" 63] n by (auto simp: exScanned_def)
  have l: "loops c ! 0 = IDsLoop 1 nodeShardCount ([0] @ ?rest)" using c(3) turns_ids [OF n] by (simp add: nodeShardCount_def)
  have "63 |\<in>| fmdom (shards exLater ! 63)" using exTables(6) [of 63] by (simp add: Has_def shardFor_def nodeShardCount_def fmlookup_dom_iff)
  moreover have "shards exLater ! 63 \<in> set (drop 1 (shards exLater))"
    using nth_mem [of 62 "drop 1 (shards exLater)"] n by simp
  ultimately have "63 \<in> set ?rest" using iter_okD(2) [OF iter_ok_sorted] by fastforce
  then show ?thesis using c(1,2,4) l by (intro exI [of _ c] exI [of _ "[0] @ ?rest"]) simp
qed

lemma ids_not_point_in_time:
  "\<exists>c b out. table_reach sorted_list_of_fset c \<and> loops c ! 0 = IDsLoop b nodeShardCount out \<and> (\<forall>m \<in> set (tables c). set out \<noteq> {nid. Has m nid})"
proof -
  obtain c out where c: "table_reach sorted_list_of_fset c" "loops c ! 0 = IDsLoop 1 nodeShardCount out" "{0, 63} \<subseteq> set out"
      "set (tables c) \<subseteq> {newNodeMap, exFirst, exGone, exLater}"
    using exFinished by blast
  have "\<not> (Has m 0 \<and> Has m 63)" if "m \<in> {newNodeMap, exFirst, exGone, exLater}" for m
    using that exTables(4) [of 63] exTables(5) [of 0] exTables(6) [of 0] by (auto simp: Has_abs)
  then have "\<forall>m \<in> set (tables c). set out \<noteq> {nid. Has m nid}" using c(3,4) by blast
  then show ?thesis using c(1,2) by blast
qed

theorem table_loops_consistent_witness:
  "\<exists>c out. table_reach sorted_list_of_fset c \<and> loops c ! 0 = IDsLoop 1 nodeShardCount out \<and> 63 \<in> set out \<and> distinct out \<and> (\<forall>nid \<in> set out. \<exists>m \<in> set (drop 1 (tables c)). Has m nid)"
proof -
  obtain c out where c: "table_reach sorted_list_of_fset c" "0 < length (loops c)" "loops c ! 0 = IDsLoop 1 nodeShardCount out" "63 \<in> set out"
    using exFinished by blast
  have "distinct out \<and> (\<forall>nid \<in> set out. \<exists>m \<in> set (drop 1 (tables c)). Has m nid)"
    using table_loops_consistent [OF iter_ok_sorted c(1,2) refl] c(3) by simp
  then show ?thesis using c(1,3,4) by blast
qed

end
