(* ===== verification/Tasks.thy ===== *)
theory Tasks
  imports RelayConc TableConc
begin

text \<open>
  The handlers of \<^verbatim>\<open>server.go\<close> at the granularity of their accesses to shared state.  Registration, punch
  requests, gossip and the periodic clean-up run as sequences of steps, one per atomic load or store,
  per call that locks a shard of the node table, per call of a limiter, and per datagram sent.  Without
  interference the steps amount to the handlers of theories \<open>Discover\<close>, \<open>Punch\<close> and \<open>Gossip\<close>.
\<close>

section \<open>Steps\<close>

text \<open>What follows a step: another point of the handler, its return, or a panic.\<close>

datatype 'p goes = Goto 'p | Return | Panic

subsection \<open>Registration\<close>

datatype dphase = DStart bool | DDest nodeid bool | DKey nodeid | DLimit nodeid | DEnter nodeid | DReply

fun discoverStep :: "externs \<Rightarrow> env \<Rightarrow> bytes \<Rightarrow> udpaddr \<Rightarrow> server \<Rightarrow> dphase \<Rightarrow> server \<times> dphase goes" where
  "discoverStep x e data remote s (DStart wantDest) =
     (if length data < 4 then (s, Return)
      else if fst (breakerOpen s ''beacon.discover'') then (s, Return)
      else case uint32_at data 0 of None \<Rightarrow> (s, Panic) | Some nodeID \<Rightarrow> (s, Goto (DDest nodeID wantDest)))"
| "discoverStep x e data remote s (DDest nodeID wantDest) =
     (if wantDest then s\<lparr>dstNodes := finsert nodeID (dstNodes s)\<rparr> else s, Goto (DKey nodeID))"
| "discoverStep x e data remote s (DKey nodeID) =
     (if 4 + PublicKeySize \<le> length data then
        (case slice data 4 (4 + PublicKeySize) of
           None \<Rightarrow> (s, Panic) | Some pub \<Rightarrow> (storeKey s nodeID pub, Goto (DLimit nodeID)))
      else (s, Goto (DLimit nodeID)))"
| "discoverStep x e data remote s (DLimit nodeID) =
     (case discover_allow (discoverRL s) nodeID discoverMinInterval (clk e 0) (clk e 1) of
        (allowed, rl) \<Rightarrow> (s\<lparr>discoverRL := rl\<rparr>, Goto (if allowed then DEnter nodeID else DReply)))"
| "discoverStep x e data remote s (DEnter nodeID) =
     (case Upsert (nodes s) nodeID remote (clk e 2) maxBeaconNodes of
        (m, inserted, atCap) \<Rightarrow> (s\<lparr>nodes := m\<rparr>, if atCap then Return else Goto DReply))"
| "discoverStep x e data remote s DReply = (discoverReply x e s remote, Return)"

subsection \<open>Punch requests\<close>

text \<open>
  \<^verbatim>\<open>SendPunchCommand\<close> looks up the node it writes to, and then writes; an error of either is only logged.
\<close>

definition commandTo :: "server \<Rightarrow> nodeid \<Rightarrow> udpaddr option" where
  "commandTo s nodeID = (if conn s = None then None else Snapshot (nodes s) nodeID)"

definition commandWrite :: "externs \<Rightarrow> env \<Rightarrow> nat \<Rightarrow> server \<Rightarrow> udpaddr \<Rightarrow> udpaddr \<Rightarrow> server" where
  "commandWrite x e k s nodeAddr target =
     (case ipBytes (IP target) of
        None \<Rightarrow> s
      | Some p \<Rightarrow> snd (WriteToUDP e k s (endpointMsg (BeaconMsgPunchCommand x) p (word_of_int (Port target))) nodeAddr))"

datatype pphase =
    PStart | PAll | PListed | PCap | PSource i64 | PStamp i64 | PToken
  | PGrant u32 u32 | PEnter u32 u32 | PTarget u32 u32 | PRequester u32 u32 "udpaddr option"
  | PAgain u32 u32 udpaddr udpaddr | PTell u32 u32 udpaddr udpaddr | PTellTo u32 u32 udpaddr udpaddr udpaddr
  | PBack u32 u32 udpaddr | PReply u32 udpaddr | PReplyTo udpaddr udpaddr

fun punchStep :: "externs \<Rightarrow> env \<Rightarrow> bytes \<Rightarrow> udpaddr \<Rightarrow> server \<Rightarrow> pphase \<Rightarrow> server \<times> pphase goes" where
  "punchStep x e data remote s PStart =
     (if length data < 8 then (s, Return)
      else if fst (breakerOpen s ''beacon.punch'') then (s, Return) else (s, Goto PAll))"
| "punchStep x e data remote s PAll = (s, Goto (if punchWhitelistAll s then PToken else PListed))"
| "punchStep x e data remote s PListed = (s, Goto (if IPString (IP remote) |\<in>| punchWhitelist s then PToken else PCap))"
| "punchStep x e data remote s PCap =
     (let now = UnixNano (clk e 0) in
      if now - lastPunchTime s <s punchGlobalGap then (s, Return) else (s, Goto (PSource now)))"
| "punchStep x e data remote s (PSource now) =
     (case punch_allow (punchRL s) (IPString (IP remote)) punchPerSourceInterval (clk e 1) (clk e 2) of
        (allowed, rl) \<Rightarrow> (s\<lparr>punchRL := rl\<rparr>, if allowed then Goto (PStamp now) else Return))"
| "punchStep x e data remote s (PStamp now) = (s\<lparr>lastPunchTime := now\<rparr>, Goto PToken)"
| "punchStep x e data remote s PToken =
     (case (uint32_at data 0, uint32_at data 4) of
        (Some r, Some t) \<Rightarrow> (s, Goto (if requirePunchToken s then PGrant r t else PEnter r t))
      | _ \<Rightarrow> (s, Panic))"
| "punchStep x e data remote s (PGrant r t) =
     (case verifyPunchGrant x (clk e 3) s (drop 8 data) r t of
        None \<Rightarrow> (s, Panic) | Some ok \<Rightarrow> (s, if ok then Goto (PEnter r t) else Return))"
| "punchStep x e data remote s (PEnter r t) =
     (s\<lparr>nodes := fst (Upsert (nodes s) r remote (clk e 4) maxBeaconNodes)\<rparr>, Goto (PTarget r t))"
| "punchStep x e data remote s (PTarget r t) = (s, Goto (PRequester r t (Snapshot (nodes s) t)))"
| "punchStep x e data remote s (PRequester r t found) =
     (s, case (found, Snapshot (nodes s) r) of (Some ta, Some ra) \<Rightarrow> Goto (PAgain r t ta ra) | _ \<Rightarrow> Return)"
| "punchStep x e data remote s (PAgain r t ta ra) =
     (s, Goto (PTell r t (case Snapshot (nodes s) t of Some a \<Rightarrow> a | None \<Rightarrow> ta) ra))"
| "punchStep x e data remote s (PTell r t ta ra) =
     (s, Goto (case commandTo s r of None \<Rightarrow> PBack r t ra | Some dst \<Rightarrow> PTellTo r t ta ra dst))"
| "punchStep x e data remote s (PTellTo r t ta ra dst) = (commandWrite x e 0 s dst ta, Goto (PBack r t ra))"
| "punchStep x e data remote s (PBack r t ra) = (s, Goto (PReply t (case Snapshot (nodes s) r of Some a \<Rightarrow> a | None \<Rightarrow> ra)))"
| "punchStep x e data remote s (PReply t ra) = (s, case commandTo s t of None \<Rightarrow> Return | Some dst \<Rightarrow> Goto (PReplyTo ra dst))"
| "punchStep x e data remote s (PReplyTo ra dst) = (commandWrite x e 1 s dst ra, Return)"

subsection \<open>Gossip\<close>

text \<open>
  \<^verbatim>\<open>handleSync\<close> holds \<^verbatim>\<open>peerWriteMu\<close> from the copy of the routes to their replacement and asks the node
  table about one id after the other meanwhile.  \<^verbatim>\<open>gossipSeen\<close> is only used under that lock, so its update
  belongs to the step that publishes the routes.
\<close>

datatype sphase = SStart | SPeers | SLock "nodeid list" | SMerge "(nodeid, udpaddr) fmap" "nodeid list"

definition syncParse :: "bytes \<Rightarrow> sphase goes" where
  "syncParse data =
     (case (uint32_at data 0, uint16_at data 4) of
        (Some peerBeaconID, Some nodeCount) \<Rightarrow>
          if length data < 6 + 4 * unat nodeCount then Return
          else (case parseIDs data (unat nodeCount) of None \<Rightarrow> Panic | Some ids \<Rightarrow> Goto (SLock ids))
      | _ \<Rightarrow> Panic)"

fun syncStep :: "env \<Rightarrow> bytes \<Rightarrow> udpaddr \<Rightarrow> server \<Rightarrow> sphase \<Rightarrow> server \<times> sphase goes" where
  "syncStep e data remote s SStart =
     (s, if length data < 6 then Return else if strictGossip s then Goto SPeers else syncParse data)"
| "syncStep e data remote s SPeers = (s, if isKnownGossipPeer s (Some remote) then syncParse data else Return)"
| "syncStep e data remote s (SLock ids) = (s, Goto (SMerge (fm_keep (\<lambda>k a. \<not> sameEndpoint a remote) (peerNodes s)) ids))"
| "syncStep e data remote s (SMerge routes (k # ids)) =
     (s, Goto (SMerge (if Has (nodes s) k then routes else fmupd k remote routes) ids))"
| "syncStep e data remote s (SMerge routes []) =
     (s\<lparr>peerNodes := routes, gossipSeen := fmupd (UDPAddrString remote) (clk e 0) (gossipSeen s)\<rparr>, Return)"

text \<open>\<^verbatim>\<open>sendGossip\<close> collects the ids shard by shard, copies the peers, and sends to one after the other.\<close>

datatype gphase = GShards nat "nodeid list" | GPeers bytes | GSend bytes nat "udpaddr list"

fun gossipStep :: "(nodeid fset \<Rightarrow> nodeid list) \<Rightarrow> externs \<Rightarrow> env \<Rightarrow> server \<Rightarrow> gphase \<Rightarrow> server \<times> gphase goes" where
  "gossipStep it x e s (GShards i ids) =
     (s, Goto (if i < length (shards (nodes s)) then GShards (i + 1) (ids @ it (fmdom (shards (nodes s) ! i)))
               else GPeers (syncMsg x (beaconID s) (if 65535 < length ids then take 65535 ids else ids))))"
| "gossipStep it x e s (GPeers msg) = (s, Goto (GSend msg 0 (peers s)))"
| "gossipStep it x e s (GSend msg k []) = (s, Return)"
| "gossipStep it x e s (GSend msg k (p # ps)) =
     (if conn s = None then (s, Panic) else (snd (WriteToUDP e k s msg p), Goto (GSend msg (k + 1) ps)))"

subsection \<open>Clean-up\<close>

text \<open>
  \<^verbatim>\<open>reapStaleNodes\<close> goes through the shards of the node table, the limiters, the routes, and the two
  caches.  A cache is a \<^verbatim>\<open>sync.Map\<close>: its \<^verbatim>\<open>Range\<close> visits the keys \<open>rng\<close> lists, at least those present when
  it begins; the test of a key and its removal are two accesses.
\<close>

datatype cphase =
    CStart | CShards gotime nat | CPunch | CRelay | CDiscover | CGossip
  | CKeys "nodeid list" | CKeyGone nodeid "nodeid list" | CDests "nodeid list" | CDestGone nodeid "nodeid list"

fun reapStep :: "(nodeid fset \<Rightarrow> nodeid list) \<Rightarrow> env \<Rightarrow> server \<Rightarrow> cphase \<Rightarrow> server \<times> cphase goes" where
  "reapStep rng e s CStart = (s, Goto (CShards (Add (clk e 0) (- beaconNodeTTL)) 0))"
| "reapStep rng e s (CShards threshold i) =
     (if i < length (shards (nodes s)) then
        (s\<lparr>nodes := (nodes s)\<lparr>shards := (shards (nodes s))[i := reapShard threshold (shards (nodes s) ! i)]\<rparr>\<rparr>,
         Goto (CShards threshold (i + 1)))
      else (s, Goto CPunch))"
| "reapStep rng e s CPunch = (s\<lparr>punchRL := punch_sweep (punchRL s) (Add (clk e 1) (- punchRateCleanupInterval))\<rparr>, Goto CRelay)"
| "reapStep rng e s CRelay =
     (s\<lparr>relayRL := relay_sweep (relayRL s) (UnixNano (Add (clk e 2) (- relaySourceCleanupInterval)))\<rparr>, Goto CDiscover)"
| "reapStep rng e s CDiscover =
     (s\<lparr>discoverRL := discover_sweep (discoverRL s) (Add (clk e 3) (- discoverMinInterval * 2))\<rparr>, Goto CGossip)"
| "reapStep rng e s CGossip =
     (sweepStaleGossip s (Add (clk e 4) (- gossipPeerTTL)), Goto (CKeys (rng (fmdom (nodePubKeys s)))))"
| "reapStep rng e s (CKeys []) = (s, Goto (CDests (rng (dstNodes s))))"
| "reapStep rng e s (CKeys (k # ks)) = (s, Goto (if Has (nodes s) k then CKeys ks else CKeyGone k ks))"
| "reapStep rng e s (CKeyGone k ks) = (s\<lparr>nodePubKeys := fmdrop k (nodePubKeys s)\<rparr>, Goto (CKeys ks))"
| "reapStep rng e s (CDests []) = (s, Return)"
| "reapStep rng e s (CDests (k # ks)) = (s, Goto (if Has (nodes s) k then CDests ks else CDestGone k ks))"
| "reapStep rng e s (CDestGone k ks) = (s\<lparr>dstNodes := dstNodes s |-| {|k|}\<rparr>, Goto (CDests ks))"

section \<open>Tasks\<close>

text \<open>
  A goroutine in one of these handlers.  A packet starts at the beginning of the handler its first byte
  selects; relay packets belong to the readers of theory \<open>RelayConc\<close>.
\<close>

datatype task =
    TDiscover bytes udpaddr dphase | TPunch bytes udpaddr pphase | TSync bytes udpaddr sphase
  | TReap cphase | TGossip gphase | TDone

definition startPacket :: "externs \<Rightarrow> bytes \<Rightarrow> udpaddr \<Rightarrow> task" where
  "startPacket x data remote =
     (case data of
        [] \<Rightarrow> TDone
      | msgType # body \<Rightarrow>
          if msgType = BeaconMsgDiscover x then TDiscover body remote (DStart False)
          else if msgType = BeaconMsgDiscoverEx x then TDiscover body remote (DStart True)
          else if msgType = BeaconMsgPunchRequest x then TPunch body remote PStart
          else if msgType = BeaconMsgRelay x then TDone
          else if msgType = BeaconMsgSync x then TSync body remote SStart
          else TDone)"

text \<open>A panic is recovered and ends the handler.\<close>

fun becomes :: "('p \<Rightarrow> task) \<Rightarrow> server \<times> 'p goes \<Rightarrow> server \<times> task" where
  "becomes at (s, Goto p) = (s, at p)"
| "becomes at (s, Return) = (s, TDone)"
| "becomes at (s, Panic) = (recoverHandler (Panicked s), TDone)"

fun taskMove ::
    "externs \<Rightarrow> (nodeid fset \<Rightarrow> nodeid list) \<Rightarrow> (nodeid fset \<Rightarrow> nodeid list) \<Rightarrow> env \<Rightarrow> server \<Rightarrow> task \<Rightarrow> (server \<times> task) option" where
  "taskMove x it rng e s (TDiscover data remote p) = Some (becomes (TDiscover data remote) (discoverStep x e data remote s p))"
| "taskMove x it rng e s (TPunch data remote p) = Some (becomes (TPunch data remote) (punchStep x e data remote s p))"
| "taskMove x it rng e s (TSync data remote p) = Some (becomes (TSync data remote) (syncStep e data remote s p))"
| "taskMove x it rng e s (TReap p) = Some (becomes TReap (reapStep rng e s p))"
| "taskMove x it rng e s (TGossip p) = Some (becomes TGossip (gossipStep it x e s p))"
| "taskMove x it rng e s TDone = None"

text \<open>The lock \<^verbatim>\<open>peerWriteMu\<close>: who waits for it, and who holds it.\<close>

fun needsLock :: "task \<Rightarrow> bool" where
  "needsLock (TSync data remote (SLock ids)) = True"
| "needsLock (TReap CGossip) = True"
| "needsLock _ = False"

fun holdsLock :: "task \<Rightarrow> bool" where
  "holdsLock (TSync data remote (SMerge routes ids)) = True"
| "holdsLock _ = False"

section \<open>Without interference\<close>

inductive task_runs ::
    "externs \<Rightarrow> (nodeid fset \<Rightarrow> nodeid list) \<Rightarrow> (nodeid fset \<Rightarrow> nodeid list) \<Rightarrow> env \<Rightarrow> server \<times> task \<Rightarrow> server \<times> task \<Rightarrow> bool"
  for x it rng e where
  stop: "task_runs x it rng e c c"
| move: "taskMove x it rng e s t = Some c \<Longrightarrow> task_runs x it rng e c c' \<Longrightarrow> task_runs x it rng e (s, t) c'"

text \<open>Running a handler from a point of it to its end.\<close>

definition ends :: "externs \<Rightarrow> (nodeid fset \<Rightarrow> nodeid list) \<Rightarrow> (nodeid fset \<Rightarrow> nodeid list) \<Rightarrow> env \<Rightarrow> server \<times> task \<Rightarrow> server \<Rightarrow> bool" where
  "ends x it rng e c s' \<longleftrightarrow> task_runs x it rng e c (s', TDone)"

lemma ends_TDone [simp]: "ends x it rng e (s, TDone) s' \<longleftrightarrow> s' = s"
  by (auto simp: ends_def intro: task_runs.stop elim: task_runs.cases)

lemma ends_move: "taskMove x it rng e s t = Some c \<Longrightarrow> ends x it rng e c s' \<Longrightarrow> ends x it rng e (s, t) s'"
  by (auto simp: ends_def intro: task_runs.move)

lemma ends_becomes:
  "ends x it rng e (becomes (TDiscover data remote) (discoverStep x e data remote s p)) s' \<Longrightarrow> ends x it rng e (s, TDiscover data remote p) s'"
  "ends x it rng e (becomes (TPunch data remote) (punchStep x e data remote s q)) s' \<Longrightarrow> ends x it rng e (s, TPunch data remote q) s'"
  "ends x it rng e (becomes (TSync data remote) (syncStep e data remote s r)) s' \<Longrightarrow> ends x it rng e (s, TSync data remote r) s'"
  "ends x it rng e (becomes TReap (reapStep rng e s c)) s' \<Longrightarrow> ends x it rng e (s, TReap c) s'"
  "ends x it rng e (becomes TGossip (gossipStep it x e s g)) s' \<Longrightarrow> ends x it rng e (s, TGossip g) s'"
  by (rule ends_move; simp)+

lemmas ends_discover = ends_becomes(1) and ends_punch = ends_becomes(2) and ends_sync = ends_becomes(3)
  and ends_reap = ends_becomes(4) and ends_gossip = ends_becomes(5)

lemma discover_ends:
  "ends x it rng e (s, TDiscover data remote (DStart wantDest)) (recoverHandler (handleDiscover x e s data remote wantDest))"
proof -
  have reply: "ends x it rng e (s, TDiscover data remote DReply) (discoverReply x e s remote)" for s by (rule ends_discover) simp
  have enter: "ends x it rng e (s, TDiscover data remote (DEnter nid))
      (case Upsert (nodes s) nid remote (clk e 2) maxBeaconNodes of
         (m, inserted, atCap) \<Rightarrow> if atCap then s\<lparr>nodes := m\<rparr> else discoverReply x e (s\<lparr>nodes := m\<rparr>) remote)" for s nid
    by (rule ends_discover) (simp add: reply split: prod.split)
  have limit: "ends x it rng e (s, TDiscover data remote (DLimit nid)) (discoverUpsert x e s nid remote)" for s nid
    by (rule ends_discover) (use enter [of "s\<lparr>discoverRL := _\<rparr>"] in \<open>simp add: reply discoverUpsert_def Let_def split: prod.split\<close>)
  have key: "ends x it rng e (s, TDiscover data remote (DKey nid))
      (recoverHandler (if 4 + PublicKeySize \<le> length data then
            (case slice data 4 (4 + PublicKeySize) of
               None \<Rightarrow> Panicked s | Some pub \<Rightarrow> Done (discoverUpsert x e (storeKey s nid pub) nid remote))
          else Done (discoverUpsert x e s nid remote)))" for s nid
    by (rule ends_discover) (simp add: limit recoverHandler_def split: option.split)
  have dest: "ends x it rng e (s, TDiscover data remote (DDest nid wantDest))
      (let s1 = (if wantDest then s\<lparr>dstNodes := finsert nid (dstNodes s)\<rparr> else s) in
       recoverHandler (if 4 + PublicKeySize \<le> length data then
            (case slice data 4 (4 + PublicKeySize) of
               None \<Rightarrow> Panicked s1 | Some pub \<Rightarrow> Done (discoverUpsert x e (storeKey s1 nid pub) nid remote))
          else Done (discoverUpsert x e s1 nid remote)))" for nid
    unfolding Let_def by (rule ends_discover) (simp only: discoverStep.simps becomes.simps, rule key)
  show ?thesis
    by (rule ends_discover) (use dest in \<open>auto simp: handleDiscover_def Let_def recoverHandler_def split: option.split\<close>)
qed

lemma SendPunchCommand_steps:
  "snd (SendPunchCommand x e k s nid (IP a) (word_of_int (Port a))) =
     (case commandTo s nid of None \<Rightarrow> s | Some dst \<Rightarrow> commandWrite x e k s dst a)"
  by (simp add: SendPunchCommand_def commandTo_def commandWrite_def split: option.split prod.split)

lemma coordinate_ends:
  "ends x it rng e (s, TPunch data remote (PEnter r t)) (coordinatePunch x e s r t remote)"
proof -
  have reply: "ends x it rng e (s, TPunch data remote (PReply t a)) (snd (SendPunchCommand x e 1 s t (IP a) (word_of_int (Port a))))" for s a
    unfolding SendPunchCommand_steps by (rule ends_punch) (auto intro: ends_punch split: option.split)
  have answer: "ends x it rng e (s, TPunch data remote (PBack r t ra))
      (snd (SendPunchCommand x e 1 s t (IP a) (word_of_int (Port a))))"
    if "a = (case Snapshot (nodes s) r of Some a \<Rightarrow> a | None \<Rightarrow> ra)" for s ra a
    unfolding that by (rule ends_punch) (simp only: punchStep.simps becomes.simps, rule reply)
  have tell: "ends x it rng e (s, TPunch data remote (PTell r t ta ra))
      (snd (SendPunchCommand x e 1 s2 t (IP a) (word_of_int (Port a))))"
    if "s2 = snd (SendPunchCommand x e 0 s r (IP ta) (word_of_int (Port ta)))" "a = (case Snapshot (nodes s2) r of Some a \<Rightarrow> a | None \<Rightarrow> ra)"
    for s s2 ta ra a
  proof (rule ends_punch, cases "commandTo s r")
    case (Some dst)
    have "ends x it rng e (s, TPunch data remote (PTellTo r t ta ra dst)) (snd (SendPunchCommand x e 1 s2 t (IP a) (word_of_int (Port a))))"
      by (rule ends_punch) (use answer [OF that(2)] that(1) Some in \<open>simp add: SendPunchCommand_steps [of x e 0]\<close>)
    then show "ends x it rng e (becomes (TPunch data remote) (punchStep x e data remote s (PTell r t ta ra)))
      (snd (SendPunchCommand x e 1 s2 t (IP a) (word_of_int (Port a))))" using Some by simp
  qed (use answer [OF that(2)] that(1) in \<open>simp add: SendPunchCommand_steps [of x e 0]\<close>)
  let ?s1 = "s\<lparr>nodes := fst (Upsert (nodes s) r remote (clk e 4) maxBeaconNodes)\<rparr>"
  have again: "ends x it rng e (?s1, TPunch data remote (PAgain r t ta ra)) (coordinatePunch x e s r t remote)"
    if "Snapshot (nodes ?s1) t = Some ta" "Snapshot (nodes ?s1) r = Some ra" for ta ra
    by (rule ends_punch) (use that tell [OF refl refl, of ?s1 ta ra] in \<open>simp add: coordinatePunch_def Let_def\<close>)
  have "ends x it rng e (?s1, TPunch data remote (PRequester r t (Snapshot (nodes ?s1) t))) (coordinatePunch x e s r t remote)"
    by (rule ends_punch) (use again in \<open>auto simp: coordinatePunch_def Let_def split: option.split\<close>)
  then have "ends x it rng e (?s1, TPunch data remote (PTarget r t)) (coordinatePunch x e s r t remote)" by (intro ends_punch) simp
  then show ?thesis by (intro ends_punch [of _ _ _ _ _ _ s]) simp
qed

lemma servePunch_ends:
  "ends x it rng e (s, TPunch data remote PToken) (recoverHandler (servePunch x e s data remote))"
proof -
  have "ends x it rng e (s, TPunch data remote (PGrant r t))
      (recoverHandler (case verifyPunchGrant x (clk e 3) s (drop 8 data) r t of
         None \<Rightarrow> Panicked s | Some False \<Rightarrow> Done s | Some True \<Rightarrow> Done (coordinatePunch x e s r t remote)))" for r t
    by (rule ends_punch) (simp add: coordinate_ends recoverHandler_def split: option.split)
  then show ?thesis
    by (intro ends_punch) (auto simp: coordinate_ends servePunch_def recoverHandler_def [of "Done _"] recoverHandler_def [of "Panicked _"] split: option.split)
qed

lemma punch_ends:
  "ends x it rng e (s, TPunch data remote PStart) (recoverHandler (handlePunchRequest x e s data remote))"
proof -
  have stamp: "ends x it rng e (s, TPunch data remote (PStamp now)) (recoverHandler (servePunch x e (s\<lparr>lastPunchTime := now\<rparr>) data remote))" for s now
    by (rule ends_punch) (simp only: punchStep.simps becomes.simps, rule servePunch_ends)
  have source: "ends x it rng e (s, TPunch data remote (PSource now))
      (recoverHandler (case punch_allow (punchRL s) (IPString (IP remote)) punchPerSourceInterval (clk e 1) (clk e 2) of
         (allowed, rl) \<Rightarrow> if allowed then servePunch x e (s\<lparr>punchRL := rl, lastPunchTime := now\<rparr>) data remote else Done (s\<lparr>punchRL := rl\<rparr>)))" for now
    by (rule ends_punch) (simp add: stamp recoverHandler_def [of "Done _"] split: prod.split)
  have cap: "ends x it rng e (s, TPunch data remote PCap)
      (recoverHandler (case punchGate e s (IPString (IP remote)) of (False, s1) \<Rightarrow> Done s1 | (True, s1) \<Rightarrow> servePunch x e s1 data remote))"
    by (rule ends_punch) (use source in \<open>auto simp: punchGate_def recoverHandler_def [of "Done _"] Let_def split: prod.split\<close>)
  have "ends x it rng e (s, TPunch data remote PListed)
      (recoverHandler (if IPString (IP remote) |\<in>| punchWhitelist s then servePunch x e s data remote
         else case punchGate e s (IPString (IP remote)) of (False, s1) \<Rightarrow> Done s1 | (True, s1) \<Rightarrow> servePunch x e s1 data remote))"
    by (rule ends_punch) (simp add: cap servePunch_ends)
  then have "ends x it rng e (s, TPunch data remote PAll)
      (recoverHandler (if whitelisted s (IPString (IP remote)) then servePunch x e s data remote
         else case punchGate e s (IPString (IP remote)) of (False, s1) \<Rightarrow> Done s1 | (True, s1) \<Rightarrow> servePunch x e s1 data remote))"
    by (intro ends_punch) (auto simp: servePunch_ends whitelisted_def split: if_splits)
  then show ?thesis by (intro ends_punch) (simp add: handlePunchRequest_def recoverHandler_def [of "Done s"] Let_def)
qed

lemma merge_ends:
  "ends x it rng e (s, TSync data remote (SMerge routes ids))
     (s\<lparr>peerNodes := addRoutes (nodes s) remote ids routes, gossipSeen := fmupd (UDPAddrString remote) (clk e 0) (gossipSeen s)\<rparr>)"
  by (induction ids arbitrary: routes) (rule ends_sync, simp)+

lemma sync_ends:
  "ends x it rng e (s, TSync data remote SStart) (recoverHandler (handleSync e s data remote))"
proof -
  define res where "res = (case (uint32_at data 0, uint16_at data 4) of
        (Some peerBeaconID, Some nodeCount) \<Rightarrow>
          if length data < 6 + 4 * unat nodeCount then Done s
          else (case parseIDs data (unat nodeCount) of
            None \<Rightarrow> Panicked s
          | Some ids \<Rightarrow>
              let kept = fm_keep (\<lambda>k a. \<not> sameEndpoint a remote) (peerNodes s) in
              Done (s\<lparr>peerNodes := addRoutes (nodes s) remote ids kept,
                      gossipSeen := fmupd (UDPAddrString remote) (clk e 0) (gossipSeen s)\<rparr>))
      | _ \<Rightarrow> Panicked s)"
  have lock: "ends x it rng e (s, TSync data remote (SLock ids))
      (s\<lparr>peerNodes := addRoutes (nodes s) remote ids (fm_keep (\<lambda>k a. \<not> sameEndpoint a remote) (peerNodes s)),
         gossipSeen := fmupd (UDPAddrString remote) (clk e 0) (gossipSeen s)\<rparr>)" for ids
    by (rule ends_sync) (simp add: merge_ends)
  have parse: "ends x it rng e (becomes (TSync data remote) (s, syncParse data)) (recoverHandler res)"
    by (simp add: syncParse_def res_def lock recoverHandler_def split: option.split)
  have "ends x it rng e (s, TSync data remote SPeers)
      (recoverHandler (if isKnownGossipPeer s (Some remote) then res else Done s))"
    by (rule ends_sync) (simp add: parse recoverHandler_def [of "Done s"])
  moreover have "handleSync e s data remote =
      (if length data < 6 then Done s else if strictGossip s \<and> \<not> isKnownGossipPeer s (Some remote) then Done s else res)"
    by (simp only: handleSync_def res_def)
  ultimately show ?thesis by (intro ends_sync) (auto simp: parse recoverHandler_def [of "Done s"] split: if_splits)
qed

lemma gossip_ends:
  "ends x it rng e (s, TGossip (GShards 0 [])) (gossipTick it x e s)"
proof -
  have send: "conn s \<noteq> None \<Longrightarrow> ends x it rng e (s, TGossip (GSend msg k ps)) (sendToPeers e k s msg ps)" for s msg k ps
  proof (induction ps arbitrary: s k)
    case (Cons p ps)
    then have "ends x it rng e (snd (WriteToUDP e k s msg p), TGossip (GSend msg (k + 1) ps)) (sendToPeers e k s msg (p # ps))"
      by (simp add: WriteToUDP_def)
    then show ?case using Cons.prems by (intro ends_gossip [of _ _ _ _ s]) auto
  qed (rule ends_gossip, simp)
  have peers: "ends x it rng e (s, TGossip (GSend msg 0 (peers s)))
      (safely (if conn s = None \<and> peers s \<noteq> [] then Panicked s else Done (sendToPeers e 0 s msg (peers s))))" for msg
  proof (cases "conn s = None \<and> peers s \<noteq> []")
    case True
    then show ?thesis by (intro ends_gossip) (auto simp: safely_def neq_Nil_conv)
  next
    case False
    show ?thesis
    proof (cases "conn s = None")
      case True
      then show ?thesis using False by (intro ends_gossip) (simp add: safely_Done)
    qed (use send [of s msg 0 "peers s"] in \<open>auto simp: safely_Done\<close>)
  qed
  let ?n = "length (shards (nodes s))"
  have "ends x it rng e (s, TGossip (GShards i ids)) s'"
    if "ends x it rng e (s, TGossip (GShards ?n (ids @ concat (map (\<lambda>h. it (fmdom h)) (drop i (shards (nodes s))))))) s'" "i \<le> ?n" for i ids s'
    using that
  proof (induction "?n - i" arbitrary: i ids)
    case (Suc m)
    then have "drop i (shards (nodes s)) = shards (nodes s) ! i # drop (i + 1) (shards (nodes s))"
      using Cons_nth_drop_Suc [of i "shards (nodes s)"] by simp
    then have "ends x it rng e (s, TGossip (GShards (i + 1) (ids @ it (fmdom (shards (nodes s) ! i))))) s'"
      using Suc.hyps(1) [of "i + 1" "ids @ it (fmdom (shards (nodes s) ! i))"] Suc by simp
    moreover have "i < ?n" using Suc.hyps(2) by linarith
    ultimately show ?case by (intro ends_gossip [of _ _ _ _ s]) simp
  qed simp
  note shards = this [where i = 0 and ids = "[]"]
  have gp: "ends x it rng e (s, TGossip (GPeers msg))
      (safely (if conn s = None \<and> peers s \<noteq> [] then Panicked s else Done (sendToPeers e 0 s msg (peers s))))" for msg
    by (rule ends_gossip) (simp only: gossipStep.simps becomes.simps, rule peers)
  show ?thesis
    by (rule shards, rule ends_gossip) (simp_all add: gp [unfolded Let_def] gossipTick_def sendGossip_def IDs_def Let_def del: fun_upd_apply)
qed

text \<open>What \<^verbatim>\<open>Range\<close> promises of the keys it visits.\<close>

definition covers :: "(nodeid fset \<Rightarrow> nodeid list) \<Rightarrow> bool" where
  "covers rng \<longleftrightarrow> (\<forall>K. fset K \<subseteq> set (rng K))"

lemma dests_end:
  "ends x it rng e (s, TReap (CDests ks)) (s\<lparr>dstNodes := ffilter (\<lambda>k. Has (nodes s) k \<or> k \<notin> set ks) (dstNodes s)\<rparr>)"
proof (induction ks arbitrary: s)
  case Nil
  have "s\<lparr>dstNodes := ffilter (\<lambda>k. True) (dstNodes s)\<rparr> = s" by (simp add: fset_eq_iff)
  then show ?case by (intro ends_reap) simp
next
  case (Cons k ks)
  let ?D = "ffilter (\<lambda>j. Has (nodes s) j \<or> j \<notin> set (k # ks)) (dstNodes s)"
  show ?case
  proof (rule ends_reap, cases "Has (nodes s) k")
    case True
    then have "?D = ffilter (\<lambda>j. Has (nodes s) j \<or> j \<notin> set ks) (dstNodes s)" by (auto simp: fset_eq_iff)
    then show "ends x it rng e (becomes TReap (reapStep rng e s (CDests (k # ks)))) (s\<lparr>dstNodes := ?D\<rparr>)" using Cons True by simp
  next
    case False
    let ?s = "s\<lparr>dstNodes := dstNodes s |-| {|k|}\<rparr>"
    have "?D = ffilter (\<lambda>j. Has (nodes s) j \<or> j \<notin> set ks) (dstNodes ?s)" using False by (auto simp: fset_eq_iff)
    then have "ends x it rng e (s, TReap (CDestGone k ks)) (s\<lparr>dstNodes := ?D\<rparr>)"
      using Cons [of ?s] by (intro ends_reap [of _ _ _ _ s]) simp
    then show "ends x it rng e (becomes TReap (reapStep rng e s (CDests (k # ks)))) (s\<lparr>dstNodes := ?D\<rparr>)" using False by simp
  qed
qed

lemma keys_end:
  "ends x it rng e (s\<lparr>nodePubKeys := fm_keep (\<lambda>k pub. Has (nodes s) k \<or> k \<notin> set ks) (nodePubKeys s)\<rparr>, TReap (CKeys [])) s' \<Longrightarrow>
   ends x it rng e (s, TReap (CKeys ks)) s'"
proof (induction ks arbitrary: s)
  case Nil
  then show ?case by (simp add: fm_keep_all)
next
  case (Cons k ks)
  let ?K = "fm_keep (\<lambda>j pub. Has (nodes s) j \<or> j \<notin> set (k # ks)) (nodePubKeys s)"
  show ?case
  proof (rule ends_reap, cases "Has (nodes s) k")
    case True
    then have "?K = fm_keep (\<lambda>j pub. Has (nodes s) j \<or> j \<notin> set ks) (nodePubKeys s)" by (intro fmap_ext) (auto split: option.split)
    then show "ends x it rng e (becomes TReap (reapStep rng e s (CKeys (k # ks)))) s'" using Cons True by simp
  next
    case False
    let ?s = "s\<lparr>nodePubKeys := fmdrop k (nodePubKeys s)\<rparr>"
    have "?K = fm_keep (\<lambda>j pub. Has (nodes s) j \<or> j \<notin> set ks) (nodePubKeys ?s)"
      using False by (intro fmap_ext) (auto split: option.split)
    then have "ends x it rng e (s, TReap (CKeyGone k ks)) s'"
      using Cons(1) [of ?s] Cons(2) by (intro ends_reap [of _ _ _ _ s]) simp
    then show "ends x it rng e (becomes TReap (reapStep rng e s (CKeys (k # ks)))) s'" using False by simp
  qed
qed

lemma shards_end:
  "i + n = length (shards (nodes s)) \<Longrightarrow>
   task_runs x it rng e (s\<lparr>nodes := fst (turns n it (nodes s, ReapLoop b i threshold removed))\<rparr>, TReap CPunch) c \<Longrightarrow>
   task_runs x it rng e (s, TReap (CShards threshold i)) c"
proof (induction n arbitrary: s i removed)
  case 0
  then show ?case by (intro task_runs.move [OF _ 0(2)]) simp
next
  case (Suc n)
  let ?s = "s\<lparr>nodes := (nodes s)\<lparr>shards := (shards (nodes s))[i := reapShard threshold (shards (nodes s) ! i)]\<rparr>\<rparr>"
  have "task_runs x it rng e (?s, TReap (CShards threshold (i + 1))) c"
    using Suc.prems by (intro Suc.IH) simp_all
  then show ?case using Suc.prems(1) by (intro task_runs.move [of _ _ _ _ s]) simp_all
qed

lemma reap_ends:
  assumes "covers rng" "server_inv s"
  shows "ends x it rng e (s, TReap CStart) (reapTick e s)"
proof -
  have c: "k \<in> set (rng K)" if "k |\<in>| K" for k K using assms(1) that unfolding covers_def by blast
  have dests: "ends x it rng e (s, TReap (CKeys [])) (s\<lparr>dstNodes := ffilter (Has (nodes s)) (dstNodes s)\<rparr>)" for s
  proof -
    have "ffilter (\<lambda>k. Has (nodes s) k \<or> k \<notin> set (rng (dstNodes s))) (dstNodes s) = ffilter (Has (nodes s)) (dstNodes s)"
      by (intro fset_eqI) (use c [of _ "dstNodes s"] in auto)
    then show ?thesis using dests_end [of x it rng e s "rng (dstNodes s)"] by (intro ends_reap) simp
  qed
  have keys: "ends x it rng e (s, TReap (CKeys (rng (fmdom (nodePubKeys s)))))
      (s\<lparr>nodePubKeys := fm_keep (\<lambda>k pub. Has (nodes s) k) (nodePubKeys s), dstNodes := ffilter (Has (nodes s)) (dstNodes s)\<rparr>)" for s
  proof -
    have "fm_keep (\<lambda>k pub. Has (nodes s) k \<or> k \<notin> set (rng (fmdom (nodePubKeys s)))) (nodePubKeys s)
        = fm_keep (\<lambda>k pub. Has (nodes s) k) (nodePubKeys s)"
      by (intro fmap_ext) (use c [of _ "fmdom (nodePubKeys s)"] in \<open>auto simp: fmlookup_dom_iff split: option.split\<close>)
    then show ?thesis using dests [of "s\<lparr>nodePubKeys := fm_keep (\<lambda>k pub. Has (nodes s) k) (nodePubKeys s)\<rparr>"] keys_end [of x it rng e s] by simp
  qed
  have len: "0 + nodeShardCount = length (shards (nodes s))" using server_inv_wf(1) [OF assms(2)] by (simp add: node_wf_def sh_wf_length)
  define r5 where "r5 s = (let s5 = sweepStaleGossip s (Add (clk e 4) (- gossipPeerTTL)) in
      s5\<lparr>nodePubKeys := fm_keep (\<lambda>k pub. Has (nodes s5) k) (nodePubKeys s5), dstNodes := ffilter (Has (nodes s5)) (dstNodes s5)\<rparr>)" for s
  define r4 where "r4 s = r5 (s\<lparr>discoverRL := discover_sweep (discoverRL s) (Add (clk e 3) (- discoverMinInterval * 2))\<rparr>)" for s
  define r3 where "r3 s = r4 (s\<lparr>relayRL := relay_sweep (relayRL s) (UnixNano (Add (clk e 2) (- relaySourceCleanupInterval)))\<rparr>)" for s
  define r2 where "r2 s = r3 (s\<lparr>punchRL := punch_sweep (punchRL s) (Add (clk e 1) (- punchRateCleanupInterval))\<rparr>)" for s
  have 5: "ends x it rng e (s, TReap CGossip) (r5 s)" for s
  proof -
    have "nodePubKeys (sweepStaleGossip s cutoff) = nodePubKeys s" for cutoff by (simp add: sweep_plain plainSweep_def)
    then show ?thesis
      using keys [of "sweepStaleGossip s (Add (clk e 4) (- gossipPeerTTL))"] by (intro ends_reap) (simp add: r5_def Let_def)
  qed
  have 4: "ends x it rng e (s, TReap CDiscover) (r4 s)" for s
    unfolding r4_def by (rule ends_reap) (simp only: reapStep.simps becomes.simps, rule 5)
  have 3: "ends x it rng e (s, TReap CRelay) (r3 s)" for s
    unfolding r3_def by (rule ends_reap) (simp only: reapStep.simps becomes.simps, rule 4)
  have 2: "ends x it rng e (s, TReap CPunch) (r2 s)" for s
    unfolding r2_def by (rule ends_reap) (simp only: reapStep.simps becomes.simps, rule 3)
  let ?t = "Add (clk e 0) (- beaconNodeTTL)"
  have "reapTick e s = r2 (s\<lparr>nodes := fst (ReapStale (nodes s) ?t)\<rparr>)"
    by (simp add: reapTick_def safely_Done reapStaleNodes_eq r2_def r3_def r4_def r5_def sweep_plain plainSweep_def Let_def)
  moreover have "fst (turns nodeShardCount it (nodes s, ReapLoop 0 0 ?t 0)) = fst (ReapStale (nodes s) ?t)"
    by (subst loops_alone(3)) (simp_all only: len [symmetric] fst_conv add_0)
  ultimately have "ends x it rng e (s, TReap (CShards ?t 0)) (reapTick e s)"
    using 2 [of "s\<lparr>nodes := fst (ReapStale (nodes s) ?t)\<rparr>"]
    unfolding ends_def by (intro shards_end [OF len, where b = 0 and removed = 0]) (simp only:)
  then show ?thesis by (intro ends_reap) simp
qed

section \<open>Properties\<close>

text \<open>
  C8: The steps amount to the handlers.  When nothing interferes, the steps of a packet's handler, of the
  clean-up and of the gossip sender run to their end, and leave the server as \<^verbatim>\<open>handlePacketFrom\<close>, a tick of
  \<^verbatim>\<open>reapLoop\<close> and a tick of \<^verbatim>\<open>gossipLoop\<close> do, on every branch, recovered panics included.
\<close>

theorem tasks_are_handlers:
  assumes "server_inv s" "covers rng" "data = [] \<or> hd data \<noteq> BeaconMsgRelay x"
  shows "task_runs x it rng e (s, startPacket x data remote) (handlePacketFrom x e s data remote p, TDone)
    \<and> task_runs x it rng e (s, TReap CStart) (reapTick e s, TDone)
    \<and> task_runs x it rng e (s, TGossip (GShards 0 [])) (gossipTick it x e s, TDone)"
proof -
  have "ends x it rng e (s, startPacket x data remote) (handlePacketFrom x e s data remote p)"
    using assms(3) discover_ends punch_ends sync_ends
    by (cases data) (simp_all add: startPacket_def handlePacketFrom_def dispatchPacket_def recoverHandler_def [of "Done s"])
  then show ?thesis using reap_ends [OF assms(2,1)] gossip_ends by (simp add: ends_def)
qed

theorem tasks_are_handlers_witness:
  "task_runs exExterns sorted_list_of_fset sorted_list_of_fset (exEnv 50) (exPair, TPunch [0, 0, 0, 1, 0, 0, 0, 2] exAddr PStart)
     (coordinatePunch exExterns (exEnv 50) (snd (punchGate (exEnv 50) exPair (IPString (IP exAddr)))) 1 2 exAddr, TDone)"
proof -
  have c: "covers (sorted_list_of_fset :: nodeid fset \<Rightarrow> nodeid list)" by (simp add: covers_def sorted_list_of_fset.rep_eq)
  have t: "[3, 0, 0, 0, 1, 0, 0, 0, 2] = [] \<or> hd [3, 0, 0, 0, 1, 0, 0, 0, 2 :: byte] \<noteq> BeaconMsgRelay exExterns" by (simp add: exExterns_def)
  have wl: "\<not> fst (breakerOpen exPair ''beacon.punch'')" "\<not> whitelisted exPair (IPString (IP exAddr))"
    by (simp_all add: breakerOpen_def whitelisted_def exPair_def)
  have "fst (punchGate (exEnv 50) exPair (IPString (IP exAddr)))"
    by (simp add: punchGate_def exPair_def punch_allow_eq punchGlobalGap_def UnixNano_def at_s_def unixToInternal_def second_def
        maxPunchPerSecond_def word_sless_alt Let_def)
  then obtain s1 where g: "punchGate (exEnv 50) exPair (IPString (IP exAddr)) = (True, s1)" by (metis prod.collapse)
  have "\<not> requirePunchToken s1" using punchGate_frame(4) [of "exEnv 50" exPair "IPString (IP exAddr)"] unfolding g by (simp add: exPair_def)
  then have "handlePacketFrom exExterns (exEnv 50) exPair [3, 0, 0, 0, 1, 0, 0, 0, 2] exAddr 0 =
      coordinatePunch exExterns (exEnv 50) (snd (punchGate (exEnv 50) exPair (IPString (IP exAddr)))) 1 2 exAddr"
    using wl by (simp add: handlePacketFrom_def dispatchPacket_def exExterns_def handlePunchRequest_def servePunch_def
        uint32_at_def slice_def recoverHandler_def g)
  moreover have "startPacket exExterns [3, 0, 0, 0, 1, 0, 0, 0, 2] exAddr = TPunch [0, 0, 0, 1, 0, 0, 0, 2] exAddr PStart"
    by (simp add: startPacket_def exExterns_def)
  ultimately show ?thesis
    using tasks_are_handlers [OF exPair_facts(1) c t, of sorted_list_of_fset "exEnv 50" exAddr 0] by simp
qed

end
