(* ===== verification/Interleave.thy ===== *)
theory Interleave
  imports Tasks
begin

text \<open>
  Every handler in fine steps at once: the tasks of theory \<open>Tasks\<close>, the readers and workers of theory
  \<open>RelayConc\<close> and all other goroutines, between any two steps of one another.
\<close>

section \<open>The system\<close>

text \<open>
  \<open>peerWriteMu\<close> tells whether that mutex is locked; \<open>past\<close> is the history of the server, on which no step
  depends.  A step of the other goroutines that changes what the mutex protects waits for it.
\<close>

record isys =
  relayPart :: rsys
  tasks :: "task list"
  peerWriteMu :: bool
  past :: "server list"

abbreviation isrv :: "isys \<Rightarrow> server" where
  "isrv c \<equiv> rsrv (relayPart c)"

definition lockAfter :: "bool \<Rightarrow> task \<Rightarrow> task \<Rightarrow> bool" where
  "lockAfter l t t' \<longleftrightarrow> holdsLock t' \<or> l \<and> \<not> holdsLock t"

inductive inter_step :: "externs \<Rightarrow> (nodeid fset \<Rightarrow> nodeid list) \<Rightarrow> (wenv \<Rightarrow> bool) \<Rightarrow> bool \<Rightarrow> isys \<Rightarrow> isys \<Rightarrow> bool"
  for x it P closes where
  packet: "inter_step x it P closes c (c\<lparr>tasks := tasks c @ [startPacket x data remote]\<rparr>)"
| reap: "inter_step x it P closes c (c\<lparr>tasks := tasks c @ [TReap CStart]\<rparr>)"
| gossip: "inter_step x it P closes c (c\<lparr>tasks := tasks c @ [TGossip (GShards 0 [])]\<rparr>)"
| task: "k < length (tasks c) \<Longrightarrow> covers rng \<Longrightarrow> \<not> (needsLock (tasks c ! k) \<and> peerWriteMu c) \<Longrightarrow>
    taskMove x it rng e (isrv c) (tasks c ! k) = Some (s', t') \<Longrightarrow>
    inter_step x it P closes c
      (c\<lparr>relayPart := (relayPart c)\<lparr>rsrv := s'\<rparr>, tasks := (tasks c)[k := t'], peerWriteMu := lockAfter (peerWriteMu c) (tasks c ! k) t',
         past := past c @ [s']\<rparr>)"
| relay: "relay_step x it P closes (relayPart c) r' \<Longrightarrow>
    \<not> peerWriteMu c \<or> peerNodes (rsrv r') = peerNodes (isrv c) \<and> gossipSeen (rsrv r') = gossipSeen (isrv c) \<Longrightarrow>
    inter_step x it P closes c (c\<lparr>relayPart := r', past := past c @ [rsrv r']\<rparr>)"

inductive inter_reach :: "externs \<Rightarrow> (nodeid fset \<Rightarrow> nodeid list) \<Rightarrow> (wenv \<Rightarrow> bool) \<Rightarrow> bool \<Rightarrow> isys \<Rightarrow> bool"
  for x it P closes where
  start: "beacon_reach x it P b \<Longrightarrow> ready b \<Longrightarrow>
    inter_reach x it P closes \<lparr>relayPart = relay_start b n, tasks = [], peerWriteMu = False, past = [srv b]\<rparr>"
| more: "inter_reach x it P closes c \<Longrightarrow> inter_step x it P closes c c' \<Longrightarrow> inter_reach x it P closes c'"

section \<open>Single steps\<close>

lemma quietI:
  "server_inv s' \<Longrightarrow> relayChs s' = relayChs s \<Longrightarrow> conn s' = conn s \<Longrightarrow> wssServer s' = wssServer s \<Longrightarrow>
   recoveredPanics s' = recoveredPanics s \<Longrightarrow> quiet s s'"
  by (simp add: quiet_def)

lemma quiet_refl: "server_inv s \<Longrightarrow> quiet s s"
  by (simp add: quiet_def)

text \<open>A step that stays clear of the routes, does not panic, and leaves the rest of the system alone.\<close>

definition calm :: "server \<Rightarrow> server \<times> 'p goes \<Rightarrow> bool" where
  "calm s r \<longleftrightarrow> quiet s (fst r) \<and> snd r \<noteq> Panic \<and> peerNodes (fst r) = peerNodes s"

lemma calm_stay: "server_inv s \<Longrightarrow> n \<noteq> Panic \<Longrightarrow> calm s (s, n)"
  by (simp add: calm_def quiet_refl)

lemma discoverStep_calm:
  assumes "server_inv s"
  shows "calm s (discoverStep x e data remote s p)"
proof (cases p)
  case (DStart want)
  then show ?thesis using assms uint32_at_defined [of 0 data] by (auto intro!: calm_stay split: option.split)
next
  case (DDest nid want)
  then show ?thesis using assms by (auto simp: calm_def quiet_def)
next
  case (DKey nid)
  have "server_inv (storeKey s nid pub)" if "length pub = PublicKeySize" for pub using assms that by (rule storeKey_inv)
  then show ?thesis using DKey assms by (auto simp: calm_def quiet_def slice_def storeKey_def split: option.split)
next
  case (DLimit nid)
  have "discover_wf (snd (discover_allow (discoverRL s) nid discoverMinInterval (clk e 0) (clk e 1)))"
    by (rule dl.invar_allow [OF server_inv_wf(2) [OF assms]])
  then have "server_inv (s\<lparr>discoverRL := snd (discover_allow (discoverRL s) nid discoverMinInterval (clk e 0) (clk e 1))\<rparr>)"
    by (rule server_inv_discoverRL [OF assms])
  then show ?thesis using DLimit by (auto simp: calm_def quiet_def split: prod.split)
next
  case (DEnter nid)
  then show ?thesis using server_inv_Upsert [OF assms, of nid remote "clk e 2"] by (auto simp: calm_def quiet_def split: prod.split)
next
  case DReply
  have "relay_part (discoverReply x e s remote) = relay_part s" "kept s (discoverReply x e s remote)"
    by (simp_all add: discoverReply_def WriteToUDP_def relay_part_def Let_def split: option.split)
  moreover have "peerNodes (discoverReply x e s remote) = peerNodes s"
    by (simp add: discoverReply_def WriteToUDP_def Let_def split: option.split)
  ultimately show ?thesis using DReply assms kept_quiet by (simp add: calm_def)
qed

lemma commandWrite_frame [simp]:
  "server_inv (commandWrite x e k s dst a) = server_inv s" "relayChs (commandWrite x e k s dst a) = relayChs s"
  "conn (commandWrite x e k s dst a) = conn s" "wssServer (commandWrite x e k s dst a) = wssServer s"
  "recoveredPanics (commandWrite x e k s dst a) = recoveredPanics s" "peerNodes (commandWrite x e k s dst a) = peerNodes s"
  by (simp_all add: commandWrite_def WriteToUDP_def split: option.split)

lemma punchStep_calm:
  assumes "server_inv s" "p = PStart \<or> 8 \<le> length data"
  shows "calm s (punchStep x e data remote s p)"
proof (cases p)
  case (PSource now)
  let ?a = "punch_allow (punchRL s) (IPString (IP remote)) punchPerSourceInterval (clk e 1) (clk e 2)"
  have "server_inv (s\<lparr>punchRL := snd ?a\<rparr>)" by (intro server_inv_punchRL [OF assms(1)] pl.invar_allow [OF server_inv_wf(3) [OF assms(1)]])
  then show ?thesis using PSource by (auto simp: calm_def quiet_def split: prod.split)
next
  case PToken
  then show ?thesis
    using assms uint32_at_defined [of 0 data] uint32_at_defined [of 4 data] by (auto intro!: calm_stay split: option.split)
next
  case (PGrant r t)
  then show ?thesis
    using assms verifyPunchGrant_defined [of x "clk e 3" s "drop 8 data" r t] by (auto intro!: calm_stay split: option.split)
next
  case (PEnter r t)
  then show ?thesis using server_inv_Upsert [OF assms(1), of r remote "clk e 4"] by (simp add: calm_def quiet_def)
qed (use assms in \<open>auto simp: calm_def quiet_def Let_def split: option.split\<close>)

lemma gossipStep_calm:
  assumes "server_inv s" "conn s \<noteq> None"
  shows "calm s (gossipStep it x e s p)"
proof (cases p)
  case (GSend msg k ps)
  then show ?thesis using assms by (cases ps) (auto simp: calm_def quiet_def WriteToUDP_def)
qed (use assms in \<open>auto intro: calm_stay\<close>)

lemma server_inv_reapShard:
  assumes "server_inv s" "i < length (shards (nodes s))"
  shows "server_inv (s\<lparr>nodes := (nodes s)\<lparr>shards := (shards (nodes s))[i := reapShard thr (shards (nodes s) ! i)]\<rparr>\<rparr>)"
proof -
  note wf = server_inv_wf(1) [OF assms(1)]
  have i: "i < nodeShardCount" using wf assms(2) by (simp add: node_wf_def sh_wf_length)
  have "fm_len (reapShard thr h) \<le> fm_len h" for h by (simp add: reapShard_def fm_keep_len_le)
  then have "int (fm_len (reapShard thr (shards (nodes s) ! i))) \<le> maxBeaconNodes div int nodeShardCount"
    using server_inv_wf(5) [OF assms(1)] assms(2) unfolding shard_caps_def by (meson nth_mem of_nat_mono order_trans)
  then have "shard_caps maxBeaconNodes ((nodes s)\<lparr>shards := (shards (nodes s))[i := reapShard thr (shards (nodes s) ! i)]\<rparr>)"
    using server_inv_wf(5) [OF assms(1)] set_update_subset_insert [of "shards (nodes s)" i] by (fastforce simp: shard_caps_def)
  then show ?thesis by (intro server_inv_nodes [OF assms(1)] reapShard_abs(1) [OF wf i refl])
qed

text \<open>The clean-up changes the routes only when it sweeps them, under the mutex.\<close>

lemma reapStep_calm:
  assumes "server_inv s"
  shows "quiet s (fst (reapStep rng e s p)) \<and> snd (reapStep rng e s p) \<noteq> Panic
    \<and> (p = CGossip \<or> peerNodes (fst (reapStep rng e s p)) = peerNodes s)"
proof (cases p)
  case (CShards thr i)
  then show ?thesis using server_inv_reapShard [OF assms, of i thr] assms by (auto simp: quiet_def)
next
  case CPunch
  then show ?thesis
    using server_inv_punchRL [OF assms pl.invar_sweep [OF server_inv_wf(3) [OF assms]]] by (simp add: quiet_def)
next
  case CRelay
  then show ?thesis using server_inv_relayRL [OF assms relay_wf_sweep [OF server_inv_wf(4) [OF assms]]] by (simp add: quiet_def)
next
  case CDiscover
  then show ?thesis
    using server_inv_discoverRL [OF assms dl.invar_sweep [OF server_inv_wf(2) [OF assms]]] by (simp add: quiet_def)
next
  case CGossip
  then show ?thesis using sweep_inv [OF assms] by (simp add: quiet_def) (simp add: sweep_plain plainSweep_def)
next
  case (CKeys ks)
  then show ?thesis using assms by (cases ks) (auto simp: quiet_def)
next
  case (CKeyGone k ks)
  have "keys_ok (nodePubKeys s)" using assms by (simp add: server_inv_def)
  then have "keys_ok (fmdrop k (nodePubKeys s))" by (auto simp: keys_ok_def split: if_splits)
  then have "server_inv (s\<lparr>nodePubKeys := fmdrop k (nodePubKeys s)\<rparr>)" using assms by (simp add: server_inv_def)
  then show ?thesis using CKeyGone by (simp add: quiet_def)
next
  case (CDests ks)
  then show ?thesis using assms by (cases ks) (auto simp: quiet_def)
qed (use assms in \<open>simp_all add: quiet_def\<close>)

lemma syncParse_fine: "6 \<le> length data \<Longrightarrow> syncParse data = Return \<or> (\<exists>ids. syncParse data = Goto (SLock ids))"
  using uint32_at_defined [of 0 data] uint16_at_defined [of 4 data] parseIDs_defined [of _ data]
  by (fastforce simp: syncParse_def not_less split: option.split)

definition pending_ok :: "(nodeid, udpaddr) fmap \<Rightarrow> (nodeid, udpaddr) fmap \<Rightarrow> udpaddr \<Rightarrow> bool" where
  "pending_ok cur routes remote \<longleftrightarrow> (\<forall>k a. fmlookup routes k = Some a \<longrightarrow> a = remote \<or> fmlookup cur k = Some a)"

lemma publish_inv:
  assumes "server_inv s" "pending_ok (peerNodes s) routes remote"
  shows "server_inv (s\<lparr>peerNodes := routes, gossipSeen := fmupd (UDPAddrString remote) t (gossipSeen s)\<rparr>)"
  using assms by (intro server_inv_routes routes_ok_sync [of "peerNodes s"]) (auto simp: server_inv_def pending_ok_def)

section \<open>Invariant\<close>

text \<open>A request is past the check of its grant.\<close>

fun served :: "pphase \<Rightarrow> bool" where
  "served (PEnter r t) = True"
| "served (PTarget r t) = True"
| "served (PRequester r t found) = True"
| "served (PAgain r t ta ra) = True"
| "served (PTell r t ta ra) = True"
| "served (PTellTo r t ta ra dst) = True"
| "served (PBack r t ra) = True"
| "served (PReply t ra) = True"
| "served (PReplyTo ra dst) = True"
| "served _ = False"

definition grantedBy :: "externs \<Rightarrow> bytes \<Rightarrow> server \<Rightarrow> bool" where
  "grantedBy x data u \<longleftrightarrow> requirePunchToken u \<longrightarrow>
     (\<exists>r t now. uint32_at data 0 = Some r \<and> uint32_at data 4 = Some t \<and> verifyPunchGrant x now u (drop 8 data) r t = Some True)"

fun task_ok :: "externs \<Rightarrow> server list \<Rightarrow> server \<Rightarrow> task \<Rightarrow> bool" where
  "task_ok x hist s (TPunch data remote p) \<longleftrightarrow>
     (p \<noteq> PStart \<longrightarrow> 8 \<le> length data) \<and> (\<forall>r t. p = PGrant r t \<longrightarrow> uint32_at data 0 = Some r \<and> uint32_at data 4 = Some t)
     \<and> (served p \<longrightarrow> (\<exists>u \<in> set hist. grantedBy x data u))"
| "task_ok x hist s (TSync data remote p) \<longleftrightarrow>
     (p = SPeers \<longrightarrow> 6 \<le> length data) \<and> (\<forall>routes ids. p = SMerge routes ids \<longrightarrow> pending_ok (peerNodes s) routes remote)"
| "task_ok x hist s _ \<longleftrightarrow> True"

text \<open>
  What a step of a task does: it is quiet, its task is fine afterwards, and it touches the routes only
  with the mutex.
\<close>

definition task_done :: "externs \<Rightarrow> server list \<Rightarrow> server \<Rightarrow> task \<Rightarrow> server \<Rightarrow> task \<Rightarrow> bool" where
  "task_done x hist s t s' t' \<longleftrightarrow> quiet s s' \<and> task_ok x hist s' t' \<and> (peerNodes s' = peerNodes s \<or> needsLock t \<or> holdsLock t)
     \<and> (holdsLock t' \<longrightarrow> holdsLock t \<or> needsLock t)"

lemma becomes_calm:
  assumes "calm s r" "becomes at r = (s', t')" "\<And>p. snd r = Goto p \<Longrightarrow> task_ok x hist (fst r) (at p) \<and> \<not> holdsLock (at p)"
  shows "task_done x hist s t s' t'"
  using assms by (cases r; cases "snd r") (auto simp: calm_def task_done_def)

lemma punch_goes:
  assumes "task_ok x hist s (TPunch data remote p)" "s \<in> set hist" "punchStep x e data remote s p = (s', Goto p')"
  shows "task_ok x hist s' (TPunch data remote p')"
proof (cases p)
  case PToken
  then show ?thesis using assms by (auto simp: grantedBy_def split: option.splits if_splits)
next
  case (PGrant r t)
  then have "p' = PEnter r t" "verifyPunchGrant x (clk e 3) s (drop 8 data) r t = Some True" "s' = s"
    using assms(3) by (auto split: option.splits if_splits)
  then show ?thesis using assms PGrant by (auto simp: grantedBy_def)
qed (use assms in \<open>auto simp: Let_def split: option.splits if_splits prod.splits\<close>)

lemma sync_done:
  assumes "server_inv s" "task_ok x hist s (TSync data remote p)" "becomes (TSync data remote) (syncStep e data remote s p) = (s', t')"
  shows "task_done x hist s (TSync data remote p) s' t'"
proof (cases p)
  case SStart
  then show ?thesis
    using assms syncParse_fine [of data] by (auto simp: task_done_def quiet_refl not_less split: if_splits)
next
  case SPeers
  then show ?thesis using assms syncParse_fine [of data] by (auto simp: task_done_def quiet_refl split: if_splits)
next
  case (SLock ids)
  then show ?thesis using assms by (auto simp: task_done_def quiet_refl pending_ok_def split: option.splits if_splits)
next
  case (SMerge routes ids)
  then have pend: "pending_ok (peerNodes s) routes remote" using assms(2) by simp
  show ?thesis
  proof (cases ids)
    case Nil
    then show ?thesis using assms SMerge publish_inv [OF assms(1) pend] by (auto simp: task_done_def quiet_def)
  next
    case (Cons k ids')
    then show ?thesis using assms SMerge pend by (auto simp: task_done_def quiet_refl pending_ok_def split: if_splits)
  qed
qed

lemma taskMove_done:
  assumes "server_inv s" "conn s \<noteq> None" "s \<in> set hist" "task_ok x hist s t" "taskMove x it rng e s t = Some (s', t')"
  shows "task_done x hist s t s' t'"
proof (cases t)
  case (TDiscover data remote p)
  show ?thesis
    by (rule becomes_calm [OF discoverStep_calm [OF assms(1), of x e data remote p], where at = "TDiscover data remote"])
      (use assms(5) TDiscover in simp_all)
next
  case (TPunch data remote p)
  have "task_ok x hist (fst r) (TPunch data remote p')" if "r = punchStep x e data remote s p" "snd r = Goto p'" for r p'
    using punch_goes [OF assms(4) [unfolded TPunch] assms(3), of e "fst r" p'] that by (metis prod.collapse)
  moreover have "p = PStart \<or> 8 \<le> length data" using assms(4) TPunch by auto
  ultimately show ?thesis
    using assms(5) TPunch
    by (intro becomes_calm [OF punchStep_calm [OF assms(1), of p data x e remote], where at = "TPunch data remote"]) simp_all
next
  case (TSync data remote p)
  then show ?thesis using sync_done [OF assms(1)] assms(4,5) by simp
next
  case (TReap p)
  have "p = CGossip \<Longrightarrow> needsLock t" using TReap by simp
  moreover have "becomes TReap (reapStep rng e s p) = (s', t')" using assms(5) TReap by simp
  ultimately show ?thesis
    using reapStep_calm [OF assms(1), of rng e p] TReap
    by (cases "reapStep rng e s p"; cases "snd (reapStep rng e s p)") (auto simp: task_done_def)
next
  case (TGossip p)
  show ?thesis
    by (rule becomes_calm [OF gossipStep_calm [OF assms(1,2), of it x e p], where at = TGossip]) (use assms(5) TGossip in simp_all)
qed (use assms in simp)

subsection \<open>The system\<close>

lemma length_filter_update:
  "k < length xs \<Longrightarrow> length (filter Q (xs[k := y])) + of_bool (Q (xs ! k)) = length (filter Q xs) + of_bool (Q y)"
proof (induction xs arbitrary: k)
  case (Cons a xs)
  then show ?case by (cases k) auto
qed simp

definition inter_inv :: "externs \<Rightarrow> bool \<Rightarrow> isys \<Rightarrow> bool" where
  "inter_inv x closes c \<longleftrightarrow>
     relay_inv x closes (relayPart c) \<and> isrv c \<in> set (past c) \<and> list_all (task_ok x (past c) (isrv c)) (tasks c)
     \<and> length (filter holdsLock (tasks c)) = of_bool (peerWriteMu c)"

lemma task_ok_more:
  "task_ok x hist s t \<Longrightarrow> peerNodes s' = peerNodes s \<or> \<not> holdsLock t \<Longrightarrow> task_ok x (hist @ [u]) s' t"
  by (cases t) auto

lemma relay_inv_quiet: "relay_inv x closes r \<Longrightarrow> quiet (rsrv r) s' \<Longrightarrow> relay_inv x closes (r\<lparr>rsrv := s'\<rparr>)"
  by (auto simp: relay_inv_def quiet_def)

text \<open>Whoever is not the task that moves and holds the mutex keeps it from changing the routes.\<close>

lemma other_holders:
  assumes "inter_inv x closes c" "k < length (tasks c)" "needsLock (tasks c ! k) \<and> \<not> peerWriteMu c \<or> holdsLock (tasks c ! k)"
    "j < length (tasks c)" "j \<noteq> k"
  shows "\<not> holdsLock (tasks c ! j)"
proof -
  have "\<not> holdsLock (tasks c ! k)" if "needsLock (tasks c ! k)" using that by (cases "tasks c ! k" rule: needsLock.cases) simp_all
  then have "length (filter holdsLock ((tasks c)[k := TDone])) = 0"
    using length_filter_update [OF assms(2), of holdsLock TDone] assms(1,3) by (auto simp: inter_inv_def of_bool_def split: if_splits)
  then have "\<forall>t \<in> set ((tasks c)[k := TDone]). \<not> holdsLock t" by (simp add: filter_empty_conv)
  moreover have "tasks c ! j \<in> set ((tasks c)[k := TDone])" using assms(4,5) by (metis length_list_update nth_list_update_neq nth_mem)
  ultimately show ?thesis by blast
qed

lemma inter_task_inv:
  assumes "inter_inv x closes c" "k < length (tasks c)" "\<not> (needsLock (tasks c ! k) \<and> peerWriteMu c)"
    "taskMove x it rng e (isrv c) (tasks c ! k) = Some (s', t')"
  shows "inter_inv x closes
      (c\<lparr>relayPart := (relayPart c)\<lparr>rsrv := s'\<rparr>, tasks := (tasks c)[k := t'], peerWriteMu := lockAfter (peerWriteMu c) (tasks c ! k) t',
         past := past c @ [s']\<rparr>)"
    "recoveredPanics s' = recoveredPanics (isrv c)"
proof -
  note R = relay_invD [of x closes "relayPart c"]
  have r: "relay_inv x closes (relayPart c)" and p: "isrv c \<in> set (past c)"
    and ok: "task_ok x (past c) (isrv c) (tasks c ! j)" if "j < length (tasks c)" for j
    using assms(1) that by (auto simp: inter_inv_def list_all_length)
  have n: "length (filter holdsLock (tasks c)) = of_bool (peerWriteMu c)" using assms(1) by (simp add: inter_inv_def)
  have held: "holdsLock (tasks c ! k) \<Longrightarrow> peerWriteMu c"
    using n nth_mem [OF assms(2)] by (cases "peerWriteMu c") (auto simp: filter_empty_conv)
  note ok' = ok [OF assms(2)]
  have d: "task_done x (past c) (isrv c) (tasks c ! k) s' t'"
    by (rule taskMove_done [OF R(1) [OF r] R(2) [OF r] p ok' assms(4)]) (use assms(2) in auto)
  then have q: "quiet (isrv c) s'" "task_ok x (past c) s' t'" by (simp_all add: task_done_def)
  show "recoveredPanics s' = recoveredPanics (isrv c)" using q(1) by (simp add: quiet_def)
  have "task_ok x (past c @ [s']) s' ((tasks c)[k := t'] ! j)" if "j < length (tasks c)" for j
  proof (cases "j = k")
    case True
    then show ?thesis using task_ok_more [OF q(2), of s' s'] that by simp
  next
    case False
    have "peerNodes s' = peerNodes (isrv c) \<or> \<not> holdsLock (tasks c ! j)"
      using other_holders [OF assms(1,2) _ that False] d assms(3) by (auto simp: task_done_def)
    then show ?thesis using task_ok_more [OF ok [OF that], of s' s'] False by simp
  qed
  moreover have "length (filter holdsLock ((tasks c)[k := t'])) = of_bool (lockAfter (peerWriteMu c) (tasks c ! k) t')"
    using length_filter_update [OF assms(2), of holdsLock t'] n d assms(3) held
    by (cases "holdsLock t'"; cases "holdsLock (tasks c ! k)"; cases "peerWriteMu c") (auto simp: lockAfter_def task_done_def)
  ultimately show "inter_inv x closes
      (c\<lparr>relayPart := (relayPart c)\<lparr>rsrv := s'\<rparr>, tasks := (tasks c)[k := t'], peerWriteMu := lockAfter (peerWriteMu c) (tasks c ! k) t',
         past := past c @ [s']\<rparr>)"
    using relay_inv_quiet [OF r q(1)] assms(2) by (auto simp: inter_inv_def list_all_length)
qed

lemma inter_relay_inv:
  assumes "inter_inv x closes c" "relay_step x it P closes (relayPart c) r'"
    "\<not> peerWriteMu c \<or> peerNodes (rsrv r') = peerNodes (isrv c) \<and> gossipSeen (rsrv r') = gossipSeen (isrv c)"
  shows "inter_inv x closes (c\<lparr>relayPart := r', past := past c @ [rsrv r']\<rparr>)"
proof -
  have "relay_inv x closes r'" using relay_step_inv [OF assms(2)] assms(1) by (simp add: inter_inv_def)
  moreover have "\<not> peerWriteMu c \<Longrightarrow> \<forall>t \<in> set (tasks c). \<not> holdsLock t"
    using assms(1) by (simp add: inter_inv_def filter_empty_conv)
  then have "task_ok x (past c @ [rsrv r']) (rsrv r') t" if "t \<in> set (tasks c)" for t
    using task_ok_more [of x "past c" "isrv c" t "rsrv r'" "rsrv r'"] assms(1,3) that unfolding inter_inv_def list_all_iff by blast
  ultimately show ?thesis using assms(1) unfolding inter_inv_def list_all_iff by simp
qed

lemma startPacket_ok: "task_ok x hist s (startPacket x data remote)" "\<not> holdsLock (startPacket x data remote)"
  by (cases data; simp add: startPacket_def)+

lemma inter_step_inv:
  assumes "inter_step x it P closes c c'" "inter_inv x closes c"
  shows "inter_inv x closes c'
    \<and> (\<not> closes \<longrightarrow> (\<forall>e ms. P e \<longrightarrow> 0 \<le> batchN e ms) \<longrightarrow> recoveredPanics (isrv c') = recoveredPanics (isrv c))"
  using assms
proof cases
  case (packet data remote)
  then show ?thesis using assms(2) startPacket_ok by (simp add: inter_inv_def)
next
  case (task k rng e s' t')
  then show ?thesis using inter_task_inv [OF assms(2) task(2,4,5)] by simp
next
  case (relay r')
  then show ?thesis
    using inter_relay_inv [OF assms(2) relay(2,3)] relay_step_inv [OF relay(2)] assms(2) by (auto simp: inter_inv_def)
qed (use assms(2) in \<open>simp_all add: inter_inv_def\<close>)

lemma inter_reach_inv:
  assumes "inter_reach x it P closes c"
  shows "inter_inv x closes c
    \<and> (\<not> closes \<longrightarrow> (\<forall>e ms. P e \<longrightarrow> 0 \<le> batchN e ms) \<longrightarrow> recoveredPanics (isrv c) = 0)"
  using assms
proof induction
  case (start b n)
  have "relay_reach x it P closes (relay_start b n)" using start by (rule relay_reach.start)
  then show ?case
    using relay_start_inv [OF start, of closes n] relay_reach_inv(2) by (auto simp: inter_inv_def) (simp_all add: relay_start_def)
next
  case (more c c')
  then show ?case using inter_step_inv [OF more(2)] by auto
qed

section \<open>Properties\<close>

text \<open>
  C5: However the accesses of all handlers to the shared state interleave, with each other and with the
  relay path, everything stays in order: the node table within its capacity, the keys and routes, the
  queues and batches, the timer of a batch that waits, and the mutex with one holder at most.  As long as the bridge is not closed while
  workers run, and the batch call reports no negative count, no goroutine panics.
\<close>

theorem handlers_interleaving_safe:
  assumes "inter_reach x it P closes c" "s = isrv c"
  shows "node_wf (nodes s) \<and> int (Len (nodes s)) \<le> maxBeaconNodes
    \<and> (\<forall>i < length (relayChs s). length (relayChs s ! i) \<le> relayChCap s \<and>
         (\<forall>job \<in> set (relayChs s ! i). unat (destID job) mod length (relayChs s) = i \<and> length (payload job) \<le> maxRelayPayload))
    \<and> (\<forall>k a. fmlookup (peerNodes s) k = Some a \<longrightarrow> fmlookup (gossipSeen s) (UDPAddrString a) \<noteq> None)
    \<and> (\<forall>k pub. fmlookup (nodePubKeys s) k = Some pub \<longrightarrow> length pub = PublicKeySize)
    \<and> (\<forall>r \<in> set (rworkers (relayPart c)). length (msgs (batch r)) \<le> relayBatchCap \<and>
         (msgs (batch r) \<noteq> [] \<longrightarrow> timerActive (batch r) \<or> wpc r = Flushing False \<or> wpc r = Flushing True))
    \<and> (\<forall>i < length (tasks c). \<forall>j < length (tasks c). holdsLock (tasks c ! i) \<longrightarrow> holdsLock (tasks c ! j) \<longrightarrow> i = j)
    \<and> (\<not> closes \<longrightarrow> (\<forall>e ms. P e \<longrightarrow> 0 \<le> batchN e ms) \<longrightarrow> recoveredPanics s = 0)"
proof -
  have inv: "inter_inv x closes c" "relay_inv x closes (relayPart c)" "server_inv s"
    using inter_reach_inv [OF assms(1)] relay_invD(1) [of x closes "relayPart c"] assms(2) by (auto simp: inter_inv_def)
  have "int (Len (nodes s)) \<le> maxBeaconNodes" by (intro shard_caps_Len server_inv_wf inv) (simp add: maxBeaconNodes_def)
  moreover have "length (msgs (batch r)) \<le> relayBatchCap \<and>
      (msgs (batch r) \<noteq> [] \<longrightarrow> timerActive (batch r) \<or> wpc r = Flushing False \<or> wpc r = Flushing True)"
    if "r \<in> set (rworkers (relayPart c))" for r
  proof -
    have "rworker_ok r" using inv(2) that by (simp add: relay_inv_def list_all_iff)
    then show ?thesis by (cases "wpc r") (auto simp: rworker_ok_def worker_ok_def)
  qed
  moreover have "\<forall>i < length (tasks c). \<forall>j < length (tasks c). holdsLock (tasks c ! i) \<longrightarrow> holdsLock (tasks c ! j) \<longrightarrow> i = j"
    using other_holders [OF inv(1)] by blast
  ultimately show ?thesis
    using inv(3) inter_reach_inv [OF assms(1)] assms(2)
    by (simp add: server_inv_def queues_ok_def job_ok_def routes_ok_def keys_ok_def list_all_iff)
qed


section \<open>Runs\<close>

text \<open>A reachable state with this server, these tasks and this mutex, and a history all of which satisfies \<open>Q\<close>, some of it \<open>R\<close>.\<close>

definition inter_at ::
    "externs \<Rightarrow> (nodeid fset \<Rightarrow> nodeid list) \<Rightarrow> (server \<Rightarrow> bool) \<Rightarrow> (server \<Rightarrow> bool) \<Rightarrow> server \<Rightarrow> task list \<Rightarrow> bool \<Rightarrow> bool" where
  "inter_at x it Q R s ts l \<longleftrightarrow>
     (\<exists>c. inter_reach x it batch_ok False c \<and> isrv c = s \<and> tasks c = ts \<and> peerWriteMu c = l \<and> (\<forall>u \<in> set (past c). Q u) \<and> (\<exists>u \<in> set (past c). R u))"

lemma inter_at_start: "beacon_reach x it batch_ok b \<Longrightarrow> ready b \<Longrightarrow> Q (srv b) \<Longrightarrow> R (srv b) \<Longrightarrow> inter_at x it Q R (srv b) [] False"
  unfolding inter_at_def
  by (intro exI [of _ "\<lparr>relayPart = relay_start b 0, tasks = [], peerWriteMu = False, past = [srv b]\<rparr>"] conjI inter_reach.start)
    (simp_all add: relay_start_def)

lemma inter_at_add:
  assumes "inter_at x it Q R s ts l" "t = startPacket x data remote \<or> t = TReap CStart"
  shows "inter_at x it Q R s (ts @ [t]) l"
proof -
  obtain c where c: "inter_reach x it batch_ok False c" "isrv c = s" "tasks c = ts" "peerWriteMu c = l" "\<forall>u \<in> set (past c). Q u" "\<exists>u \<in> set (past c). R u"
    using assms(1) by (auto simp: inter_at_def)
  have "inter_reach x it batch_ok False (c\<lparr>tasks := tasks c @ [t]\<rparr>)"
    using inter_reach.more [OF c(1) inter_step.packet, of data remote] inter_reach.more [OF c(1) inter_step.reap] assms(2) by blast
  then show ?thesis unfolding inter_at_def using c by (intro exI [of _ "c\<lparr>tasks := tasks c @ [t]\<rparr>"]) simp
qed

lemma inter_at_seen: "inter_at x it Q R s ts l \<Longrightarrow> R' s \<Longrightarrow> inter_at x it Q R' s ts l"
  using inter_reach_inv unfolding inter_at_def inter_inv_def by blast

fun isSync :: "task \<Rightarrow> bool" where
  "isSync (TSync data remote p) = True"
| "isSync _ = False"

lemma isSync_moves: "taskMove x it rng e s t = Some (s', t') \<Longrightarrow> \<not> isSync t \<Longrightarrow> \<not> isSync t'"
  by (cases t) (auto elim!: becomes.elims)

lemma inter_at_move:
  assumes "inter_at x it Q R s ts False" "k < length ts" "covers rng" "\<not> isSync (ts ! k)" "taskMove x it rng e s (ts ! k) = Some (s', t')" "Q s'"
  shows "inter_at x it Q R s' (ts[k := t']) False"
proof -
  obtain c where c: "inter_reach x it batch_ok False c" "isrv c = s" "tasks c = ts" "\<not> peerWriteMu c" "\<forall>u \<in> set (past c). Q u" "\<exists>u \<in> set (past c). R u"
    using assms(1) by (auto simp: inter_at_def)
  let ?c = "c\<lparr>relayPart := (relayPart c)\<lparr>rsrv := s'\<rparr>, tasks := (tasks c)[k := t'], peerWriteMu := lockAfter (peerWriteMu c) (tasks c ! k) t',
     past := past c @ [s']\<rparr>"
  have "inter_reach x it batch_ok False ?c"
    by (rule inter_reach.more [OF c(1) inter_step.task [OF _ assms(3), where e = e]]) (use assms c in simp_all)
  moreover have "\<not> holdsLock t'" using isSync_moves [OF assms(5,4)] by (cases t' rule: holdsLock.cases) simp_all
  ultimately show ?thesis unfolding inter_at_def using c assms(6) by (intro exI [of _ ?c]) (simp add: lockAfter_def)
qed

lemma inter_at_runs:
  assumes "task_runs x it rng e (s, t) (s', t')" "inter_at x it (\<lambda>_. True) R s ts False" "k < length ts" "ts ! k = t" "covers rng" "\<not> isSync t"
  shows "inter_at x it (\<lambda>_. True) R s' (ts[k := t']) False"
  using assms
proof (induction "(s, t)" "(s', t')" arbitrary: s t ts rule: task_runs.induct)
  case stop
  then show ?case by (metis list_update_id)
next
  case (move s t c)
  obtain s1 t1 where c: "c = (s1, t1)" by force
  have "inter_at x it (\<lambda>_. True) R s1 (ts[k := t1]) False"
    using move c by (intro inter_at_move [where rng = rng and e = e]) simp_all
  then show ?case
    using move(3) [OF c] isSync_moves [of x it rng e s t s1 t1] move c by (metis length_list_update list_update_overwrite nth_list_update_eq)
qed

lemma covers_sorted: "covers (sorted_list_of_fset :: nodeid fset \<Rightarrow> nodeid list)"
  by (simp add: covers_def sorted_list_of_fset.rep_eq)

text \<open>Node 9 announces itself with a key, on a beacon that has just been started.\<close>

definition exKeyed :: bytes where
  "exKeyed = [0, 0, 0, 9] @ replicate 32 1"

abbreviation exTask_runs :: "server \<times> task \<Rightarrow> server \<times> task \<Rightarrow> bool" where
  "exTask_runs \<equiv> task_runs exExterns sorted_list_of_fset sorted_list_of_fset (exEnv 50)"

lemma exTask_move:
  "taskMove exExterns sorted_list_of_fset sorted_list_of_fset (exEnv 50) s t = Some c \<Longrightarrow> exTask_runs c c' \<Longrightarrow> exTask_runs (s, t) c'"
  by (rule task_runs.move)

lemma exKeyed_stored:
  assumes "s = srv exListening"
  shows "exTask_runs (s, TDiscover exKeyed exAddr (DStart False)) (storeKey s 9 (replicate 32 1), TDiscover exKeyed exAddr (DLimit 9))"
proof -
  have k: "length exKeyed = 36" "uint32_at exKeyed 0 = Some 9" "slice exKeyed 4 36 = Some (replicate 32 1)"
    by (simp_all add: exKeyed_def uint32_at_def slice_def)
  have b: "\<not> fst (breakerOpen s ''beacon.discover'')" using assms by (simp add: breakerOpen_def exListening_srv)
  show ?thesis
    by (rule exTask_move, simp add: k b, rule exTask_move, simp, rule exTask_move, simp add: k PublicKeySize_def, rule task_runs.stop)
qed

lemma exReaper_sees:
  assumes "nodes s = newNodeMap" "fmdom (nodePubKeys s) = {|9|}" "discoverRL s = newDiscoverRateLimiter"
  obtains s' where "exTask_runs (s, TReap CStart) (s', TReap (CKeyGone 9 []))" "nodes s' = newNodeMap"
    "discover_wf (discoverRL s')" "discover_last (discoverRL s') 9 = None"
proof -
  let ?e = "exEnv 50"
  let ?t = "Add (clk ?e 0) (- beaconNodeTTL)"
  let ?s1 = "s\<lparr>punchRL := punch_sweep (punchRL s) (Add (clk ?e 1) (- punchRateCleanupInterval))\<rparr>"
  let ?s2 = "?s1\<lparr>relayRL := relay_sweep (relayRL ?s1) (UnixNano (Add (clk ?e 2) (- relaySourceCleanupInterval)))\<rparr>"
  let ?s3 = "?s2\<lparr>discoverRL := discover_sweep (discoverRL ?s2) (Add (clk ?e 3) (- discoverMinInterval * 2))\<rparr>"
  let ?s4 = "sweepStaleGossip ?s3 (Add (clk ?e 4) (- gossipPeerTTL))"
  have n: "0 + nodeShardCount = length (shards (nodes s))" by (simp add: assms(1) newNodeMap_def)
  have "fst (ReapStale newNodeMap ?t) = newNodeMap" by (simp add: ReapStale_def newNodeMap_def)
  then have same: "fst (turns nodeShardCount sorted_list_of_fset (nodes s, ReapLoop 0 0 ?t 0)) = nodes s"
    using loops_alone(3) [of "nodes s" sorted_list_of_fset 0 ?t] n assms(1) by simp
  have upd: "s\<lparr>nodes := fst (turns nodeShardCount sorted_list_of_fset (nodes s, ReapLoop 0 0 ?t 0))\<rparr> = s" by (subst same) simp
  have has: "nodes ?s4 = newNodeMap" "\<not> Has (nodes ?s4) 9"
    by (simp_all add: sweep_plain plainSweep_def assms(1) Has_abs)
  have keys: "sorted_list_of_fset (fmdom (nodePubKeys ?s3)) = [9]" by (simp add: assms(2) sorted_list_of_fset.rep_eq)
  have "exTask_runs (?s4, TReap (CKeys [9])) (?s4, TReap (CKeyGone 9 []))"
    by (rule exTask_move [OF _ task_runs.stop]) (use has(2) in simp)
  then have "exTask_runs (?s3, TReap CGossip) (?s4, TReap (CKeyGone 9 []))"
    by (rule exTask_move [rotated]) (use keys in simp)
  then have "exTask_runs (?s2, TReap CDiscover) (?s4, TReap (CKeyGone 9 []))" by (rule exTask_move [rotated]) simp
  then have "exTask_runs (?s1, TReap CRelay) (?s4, TReap (CKeyGone 9 []))" by (rule exTask_move [rotated]) simp
  then have "exTask_runs (s, TReap CPunch) (?s4, TReap (CKeyGone 9 []))" by (rule exTask_move [rotated]) simp
  then have "exTask_runs (s, TReap (CShards ?t 0)) (?s4, TReap (CKeyGone 9 []))"
    by (intro shards_end [OF n, where b = 0 and removed = 0]) (simp only: upd)
  then have "exTask_runs (s, TReap CStart) (?s4, TReap (CKeyGone 9 []))" by (rule exTask_move [rotated]) simp
  moreover have "discover_wf (discoverRL ?s4)" "discover_last (discoverRL ?s4) 9 = None"
    using dl.invar_sweep [OF discover_wf_new] dl.sweep_stamp [OF discover_wf_new]
    by (simp_all add: sweep_plain plainSweep_def assms(3))
  ultimately show thesis using has(1) by (intro that)
qed

lemma exKeyed_entered:
  assumes "nodes s = newNodeMap" "discover_wf (discoverRL s)" "discover_last (discoverRL s) 9 = None"
  obtains s' where "exTask_runs (s, TDiscover exKeyed exAddr (DLimit 9)) (s', TDone)" "Has (nodes s') 9"
proof -
  obtain rl where rl: "discover_allow (discoverRL s) 9 discoverMinInterval (at_s 50) (at_s 50) = (True, rl)"
    using dl.allow_iff [OF assms(2), of 9 discoverMinInterval "at_s 50" "at_s 50"] assms(3)
    by (cases "discover_allow (discoverRL s) 9 discoverMinInterval (at_s 50) (at_s 50)") simp
  have cap: "\<not> snd (snd (Upsert newNodeMap 9 exAddr (at_s 50) maxBeaconNodes))"
    by (simp add: Upsert_def newNodeMap_def shardFor_def nodeShardCount_def maxBeaconNodes_def Let_def)
  then obtain m ins where m: "Upsert newNodeMap 9 exAddr (at_s 50) maxBeaconNodes = (m, ins, False)"
    by (cases "Upsert newNodeMap 9 exAddr (at_s 50) maxBeaconNodes") auto
  have "Has m 9" using Upsert_nodes_abs [OF node_wf_new cap] by (simp add: m Has_abs)
  let ?s' = "discoverReply exExterns (exEnv 50) (s\<lparr>discoverRL := rl, nodes := m\<rparr>) exAddr"
  have "exTask_runs (s\<lparr>discoverRL := rl, nodes := m\<rparr>, TDiscover exKeyed exAddr DReply) (?s', TDone)"
    by (rule exTask_move [OF _ task_runs.stop]) simp
  then have "exTask_runs (s\<lparr>discoverRL := rl\<rparr>, TDiscover exKeyed exAddr (DEnter 9)) (?s', TDone)"
    by (rule exTask_move [rotated]) (simp add: assms(1) m)
  then have "exTask_runs (s, TDiscover exKeyed exAddr (DLimit 9)) (?s', TDone)"
    by (rule exTask_move [rotated]) (simp add: rl)
  then show thesis using \<open>Has m 9\<close> by (intro that [of ?s']) simp_all
qed

abbreviation exAt :: "(server \<Rightarrow> bool) \<Rightarrow> server \<Rightarrow> task list \<Rightarrow> bool \<Rightarrow> bool" where
  "exAt \<equiv> inter_at exExterns sorted_list_of_fset (\<lambda>_. True)"

text \<open>
  The clean-up of the key cache tests whether a node is registered and then removes its key, while a
  registration stores the key and then enters the node: in between, the key of a node that is
  registered gets lost.
\<close>

lemma key_lost_to_cleanup:
  "\<exists>c u. inter_reach exExterns sorted_list_of_fset batch_ok False c \<and> u \<in> set (past c)
     \<and> fmlookup (nodePubKeys u) 9 = Some (replicate 32 1)
     \<and> tasks c = [TDone, TReap (CKeys [])] \<and> Has (nodes (isrv c)) 9 \<and> fmlookup (nodePubKeys (isrv c)) 9 = None"
proof -
  let ?s = "srv exListening"
  let ?s1 = "storeKey ?s 9 (replicate 32 1)" and ?seen = "\<lambda>u. fmlookup (nodePubKeys u) 9 = Some (replicate 32 1)"
  have 0: "exAt (\<lambda>_. True) ?s [] False" by (rule inter_at_start [OF exListening_reach exListening_ready]) simp_all
  have t: "startPacket exExterns (1 # exKeyed) exAddr = TDiscover exKeyed exAddr (DStart False)"
    by (simp add: startPacket_def exExterns_def)
  have first: "exAt (\<lambda>_. True) ?s [TDiscover exKeyed exAddr (DStart False)] False"
    using inter_at_add [OF 0, of _ "1 # exKeyed" exAddr] t by simp
  have keyed: "exAt (\<lambda>_. True) ?s1 [TDiscover exKeyed exAddr (DLimit 9)] False"
    using inter_at_runs [OF exKeyed_stored [OF refl] first, of 0] covers_sorted by simp
  have s1: "nodes ?s1 = newNodeMap" "fmdom (nodePubKeys ?s1) = {|9|}" "discoverRL ?s1 = newDiscoverRateLimiter" "?seen ?s1"
    by (simp_all add: storeKey_def exListening_srv)
  have "exAt ?seen ?s1 [TDiscover exKeyed exAddr (DLimit 9)] False" by (rule inter_at_seen [OF keyed]) (rule s1(4))
  then have 1: "exAt ?seen ?s1 [TDiscover exKeyed exAddr (DLimit 9), TReap CStart] False"
    using inter_at_add [of exExterns _ _ _ ?s1 "[TDiscover exKeyed exAddr (DLimit 9)]" False "TReap CStart"] by simp
  obtain s2 where s2: "exTask_runs (?s1, TReap CStart) (s2, TReap (CKeyGone 9 []))" "nodes s2 = newNodeMap"
    "discover_wf (discoverRL s2)" "discover_last (discoverRL s2) 9 = None" by (rule exReaper_sees [OF s1(1-3)])
  have 2: "exAt ?seen s2 [TDiscover exKeyed exAddr (DLimit 9), TReap (CKeyGone 9 [])] False"
    using inter_at_runs [OF s2(1) 1, of 1] covers_sorted by (simp add: numeral_2_eq_2)
  obtain s3 where s3: "exTask_runs (s2, TDiscover exKeyed exAddr (DLimit 9)) (s3, TDone)" "Has (nodes s3) 9"
    by (rule exKeyed_entered [OF s2(2-4)])
  have 3: "exAt ?seen s3 [TDone, TReap (CKeyGone 9 [])] False" using inter_at_runs [OF s3(1) 2, of 0] covers_sorted by simp
  have "exAt ?seen (s3\<lparr>nodePubKeys := fmdrop 9 (nodePubKeys s3)\<rparr>) [TDone, TReap (CKeys [])] False"
    using inter_at_move [OF 3, of 1 sorted_list_of_fset] covers_sorted by simp
  then obtain c where "inter_reach exExterns sorted_list_of_fset batch_ok False c" "isrv c = s3\<lparr>nodePubKeys := fmdrop 9 (nodePubKeys s3)\<rparr>"
      "tasks c = [TDone, TReap (CKeys [])]" "\<exists>u \<in> set (past c). ?seen u"
    unfolding inter_at_def by blast
  moreover have "Has (nodes (s3\<lparr>nodePubKeys := fmdrop 9 (nodePubKeys s3)\<rparr>)) 9"
      "fmlookup (nodePubKeys (s3\<lparr>nodePubKeys := fmdrop 9 (nodePubKeys s3)\<rparr>)) 9 = None" using s3(2) by simp_all
  ultimately show ?thesis by metis
qed

text \<open>
  The global cap on punch requests reads the time of the last one and stores the new one later: two
  requests handled at the same time both pass it.
\<close>

definition exAsk :: bytes where
  "exAsk = [0, 0, 0, 1, 0, 0, 0, 2]"

lemma exAsk_loads:
  assumes "s = srv exListening"
  shows "exTask_runs (s, TPunch exAsk remote PStart) (s, TPunch exAsk remote (PSource (UnixNano (at_s 50))))"
proof -
  have b: "\<not> fst (breakerOpen s ''beacon.punch'')" "\<not> punchWhitelistAll s" "punchWhitelist s = {||}"
      "\<not> UnixNano (at_s 50) - lastPunchTime s <s punchGlobalGap"
    using assms by (simp_all add: breakerOpen_def exListening_srv punchGlobalGap_def UnixNano_def at_s_def unixToInternal_def second_def
        maxPunchPerSecond_def word_sless_alt)
  have "exTask_runs (s, TPunch exAsk remote PCap) (s, TPunch exAsk remote (PSource (UnixNano (at_s 50))))"
    by (rule exTask_move [OF _ task_runs.stop]) (simp add: b(4))
  then have "exTask_runs (s, TPunch exAsk remote PListed) (s, TPunch exAsk remote (PSource (UnixNano (at_s 50))))"
    by (rule exTask_move [rotated]) (simp add: b(3))
  then have "exTask_runs (s, TPunch exAsk remote PAll) (s, TPunch exAsk remote (PSource (UnixNano (at_s 50))))"
    by (rule exTask_move [rotated]) (simp add: b(2))
  then show ?thesis by (rule exTask_move [rotated]) (simp add: b(1) exAsk_def)
qed

lemma exSources_differ: "IPString (IP exAddr) \<noteq> IPString (IP exTarget)"
  by code_simp

lemma global_cap_race:
  "\<exists>c now. inter_reach exExterns sorted_list_of_fset batch_ok False c
     \<and> tasks c = [TPunch exAsk exAddr (PStamp now), TPunch exAsk exTarget (PStamp now)]"
proof -
  let ?s = "srv exListening" and ?now = "UnixNano (at_s 50)" and ?d = punchPerSourceInterval
  have 0: "exAt (\<lambda>_. True) ?s [] False" by (rule inter_at_start [OF exListening_reach exListening_ready]) simp_all
  have t: "startPacket exExterns (3 # exAsk) remote = TPunch exAsk remote PStart" for remote
    by (simp add: startPacket_def exExterns_def)
  have 1: "exAt (\<lambda>_. True) ?s [TPunch exAsk exAddr PStart] False"
    using inter_at_add [OF 0, of _ "3 # exAsk" exAddr] t by simp
  have 2: "exAt (\<lambda>_. True) ?s [TPunch exAsk exAddr PStart, TPunch exAsk exTarget PStart] False"
    using inter_at_add [OF 1, of _ "3 # exAsk" exTarget] t by simp
  have 3: "exAt (\<lambda>_. True) ?s [TPunch exAsk exAddr (PSource ?now), TPunch exAsk exTarget PStart] False"
    using inter_at_runs [OF exAsk_loads [OF refl] 2, of 0] covers_sorted by simp
  have 4: "exAt (\<lambda>_. True) ?s [TPunch exAsk exAddr (PSource ?now), TPunch exAsk exTarget (PSource ?now)] False"
    using inter_at_runs [OF exAsk_loads [OF refl] 3, of 1] covers_sorted by simp
  let ?a = "punch_allow (punchRL ?s) (IPString (IP exAddr)) ?d (at_s 50) (at_s 50)"
  let ?s1 = "?s\<lparr>punchRL := snd ?a\<rparr>"
  have new: "punchRL ?s = newPunchRateLimiter" by (simp add: exListening_srv)
  have a: "fst ?a" "punch_wf (snd ?a)" "punch_last (snd ?a) (IPString (IP exTarget)) = None"
    unfolding new using pl.allow_iff [OF punch_wf_new] pl.invar_allow [OF punch_wf_new] pl.allow_stamp [OF punch_wf_new] exSources_differ
    by simp_all
  have 5: "exAt (\<lambda>_. True) ?s1 [TPunch exAsk exAddr (PStamp ?now), TPunch exAsk exTarget (PSource ?now)] False"
    using inter_at_move [OF 4, of 0 sorted_list_of_fset "exEnv 50" ?s1 "TPunch exAsk exAddr (PStamp ?now)"] covers_sorted a(1)
    by (simp add: case_prod_beta)
  let ?b = "punch_allow (snd ?a) (IPString (IP exTarget)) ?d (at_s 50) (at_s 50)"
  have "fst ?b" using pl.allow_iff [OF a(2)] a(3) by simp
  then have "exAt (\<lambda>_. True) (?s1\<lparr>punchRL := snd ?b\<rparr>) [TPunch exAsk exAddr (PStamp ?now), TPunch exAsk exTarget (PStamp ?now)] False"
    using inter_at_move [OF 5, of 1 sorted_list_of_fset "exEnv 50" "?s1\<lparr>punchRL := snd ?b\<rparr>" "TPunch exAsk exTarget (PStamp ?now)"] covers_sorted
    by (simp add: case_prod_beta)
  then show ?thesis unfolding inter_at_def by blast
qed

section \<open>Witnesses\<close>

theorem handlers_interleaving_safe_witness:
  "\<exists>c. inter_reach exExterns sorted_list_of_fset batch_ok False c \<and> tasks c = [TDone, TReap (CKeys [])]
     \<and> int (Len (nodes (isrv c))) \<le> maxBeaconNodes \<and> recoveredPanics (isrv c) = 0"
proof -
  obtain c where c: "inter_reach exExterns sorted_list_of_fset batch_ok False c" "tasks c = [TDone, TReap (CKeys [])]"
    using key_lost_to_cleanup by blast
  have "\<forall>e ms. batch_ok e \<longrightarrow> 0 \<le> batchN e ms" by (simp add: batch_ok_def)
  then have "int (Len (nodes (isrv c))) \<le> maxBeaconNodes \<and> recoveredPanics (isrv c) = 0"
    using handlers_interleaving_safe [OF c(1) refl] by blast
  then show ?thesis using c by blast
qed

definition exStrict :: server where
  "exStrict = SetPunchWhitelist (SetAuthoritativeKeyLookup (SetRequirePunchToken (srv exListening) True)
     (Some (\<lambda>_. (replicate 32 1, True)))) [''*'']"

lemma exStrict_facts:
  "beacon_reach exAll it P (exListening\<lparr>srv := exStrict\<rparr>)" "requirePunchToken exStrict" "nodes exStrict = newNodeMap"
  "\<not> fst (breakerOpen exStrict ''beacon.punch'')" "punchWhitelistAll exStrict"
  "verifyPunchGrant exAll (at_s 50) exStrict (drop 8 exGrant) 1 2 = Some True"
proof -
  have 0: "beacon_reach exAll it P exListening"
    by (rule beacon_reach.more [OF beacon_reach.start beacon_step.listen [OF exListening_Done]]) simp
  note 1 = beacon_reach.more [OF 0 beacon_step.set_token, of True]
  note 2 = beacon_reach.more [OF 1 beacon_step.set_keys, of "Some (\<lambda>_. (replicate 32 1, True))"]
  show "beacon_reach exAll it P (exListening\<lparr>srv := exStrict\<rparr>)"
    using beacon_reach.more [OF 2 beacon_step.set_whitelist, of "[''*'']"] by (simp add: exStrict_def)
  have wl: "fst (whitelistEntries [''*''])" by code_simp
  have s: "exStrict = (exServer\<lparr>conn := Some (exAddr\<lparr>Port := 9001\<rparr>), requirePunchToken := True,
      authKeyLookup := Some (\<lambda>_. (replicate 32 1, True)), punchWhitelist := snd (whitelistEntries [''*'']), punchWhitelistAll := True\<rparr>)"
    using wl by (simp add: exStrict_def exListening_srv setter_defs SetPunchWhitelist_def case_prod_beta del: whitelistEntries.simps)
  show "requirePunchToken exStrict" "nodes exStrict = newNodeMap" "\<not> fst (breakerOpen exStrict ''beacon.punch'')" "punchWhitelistAll exStrict"
    by (simp_all add: s breakerOpen_def)
  show "verifyPunchGrant exAll (at_s 50) exStrict (drop 8 exGrant) 1 2 = Some True"
    by (simp add: s exGrant_def slice_def verifyPunchGrant_def punchGrantTrailerSize_def punchGrantExpirySize_def SignatureSize_def
      targetPubKey_def PublicKeySize_def ed25519_Verify_def exAll_def Unix_def at_s_def unixToInternal_def second_def word_sless_alt)
qed


end
