(* ===== verification/WssClient.thy ===== *)
theory WssClient
  imports WssServer NodeMap
begin

text \<open>
  The client of the bridge, \<^verbatim>\<open>wss/internal/daemonwss/wss.go\<close>: the client side of the handshake, \<^verbatim>\<open>Dial\<close>,
  \<^verbatim>\<open>Send\<close>, \<^verbatim>\<open>Recv\<close> and \<^verbatim>\<open>Close\<close>, and the supervisor that reads frames and reconnects, as a step
  relation in which it interleaves with the callers.  The WebSocket library, JSON, TLS and the
  identity's signature are inputs.
\<close>

section \<open>Configuration\<close>

definition DefaultIdlePingInterval :: duration where
  "DefaultIdlePingInterval = 30 * second"

definition DefaultDialTimeout :: duration where
  "DefaultDialTimeout = 20 * second"

definition DefaultRecvBuffer :: int where
  "DefaultRecvBuffer = 256"

record identity =
  idPublic :: bytes
  idSign :: "bytes \<Rightarrow> bytes"

record cliConfig =
  cliURL :: string
  cliTLS :: bool
  cliIdentity :: "identity option"
  cliNodeID :: nodeid
  IdlePingInterval :: duration
  DialTimeout :: duration
  RecvBuffer :: int

section \<open>The handshake\<close>

record cliChallenge =
  cliType :: string
  cliNonce :: string
  cliTimestamp :: i64

record cli_env =
  dialed :: bool
  chRead :: ws_read
  parseChallenge :: "bytes \<Rightarrow> cliChallenge option"
  encodeKey :: "bytes \<Rightarrow> string"
  marshalReply :: "authReplyMsg \<Rightarrow> bytes"
  replySent :: bool
  okRead :: ws_read
  parseOK :: "bytes \<Rightarrow> string option"

datatype cliAuthError =
    ReadChallenge | ChallengeNotText | ParseChallenge | MalformedChallenge | WriteReply
  | ReadOK | OKNotText | ParseOK | Rejected

definition authReply :: "cli_env \<Rightarrow> cliConfig \<Rightarrow> identity \<Rightarrow> cliChallenge \<Rightarrow> authReplyMsg" where
  "authReply e cfg ident ch =
     \<lparr>replyType = ''auth_reply'', replyNodeID = cliNodeID cfg, replyPublicKey = encodeKey e (idPublic ident),
      replySig = b64enc (idSign ident (authPreimage (cliNodeID cfg) (cliTimestamp ch) (cliNonce ch)))\<rparr>"

text \<open>The error, \<open>None\<close> for nil, and the text frame written, if any.\<close>

definition cli_runAuth :: "cli_env \<Rightarrow> cliConfig \<Rightarrow> identity \<Rightarrow> cliAuthError option \<times> bytes option" where
  "cli_runAuth e cfg ident =
     (case chRead e of
        ReadMsg t body \<Rightarrow>
          if t \<noteq> MessageText then (Some ChallengeNotText, None)
          else (case parseChallenge e body of
            None \<Rightarrow> (Some ParseChallenge, None)
          | Some ch \<Rightarrow>
              if cliType ch \<noteq> ''auth_challenge'' \<or> cliNonce ch = [] then (Some MalformedChallenge, None)
              else
                let reply = marshalReply e (authReply e cfg ident ch) in
                if \<not> replySent e then (Some WriteReply, None)
                else (case okRead e of
                  ReadMsg t2 body2 \<Rightarrow>
                    if t2 \<noteq> MessageText then (Some OKNotText, Some reply)
                    else (case parseOK e body2 of
                      None \<Rightarrow> (Some ParseOK, Some reply)
                    | Some ty \<Rightarrow> if ty \<noteq> ''auth_ok'' then (Some Rejected, Some reply) else (None, Some reply))
                | _ \<Rightarrow> (Some ReadOK, Some reply)))
      | _ \<Rightarrow> (Some ReadChallenge, None))"

datatype dialError = URLRequired | TLSConfigRequired | IdentityRequired | WSDialFailed | WSAuthFailed cliAuthError

definition dialAndAuth :: "cli_env \<Rightarrow> cliConfig \<Rightarrow> identity \<Rightarrow> dialError option" where
  "dialAndAuth e cfg ident =
     (if \<not> dialed e then Some WSDialFailed
      else case fst (cli_runAuth e cfg ident) of None \<Rightarrow> None | Some err \<Rightarrow> Some (WSAuthFailed err))"

section \<open>The transport\<close>

datatype recvItem = Frame bytes | ErrItem

text \<open>
  Where the supervisor is: before its test of the closed flag, before it picks the connection, before
  the test at the head of \<^verbatim>\<open>drainReads\<close>, in \<^verbatim>\<open>conn.Read\<close>, sending a frame to \<^verbatim>\<open>recvCh\<close>, after
  \<^verbatim>\<open>drainReads\<close>, dropping the dead connection, asleep, dialing, about to install a connection, or
  returned.  Connections are numbered.
\<close>

datatype sup_phase =
    Top | PickConn | DrainHead nat | Reading nat | Delivering nat bytes | AfterDrain nat | Dropping nat
  | Sleeping | Dialing | Install nat | SupDone

text \<open>Where \<^verbatim>\<open>Close\<close> is, inside its \<^verbatim>\<open>closeOnce\<close>.\<close>

datatype close_phase = NotClosing | Flagged | Cancelled | TookConn "nat option" | AwaitSup | Closed

record transport =
  tcap :: nat
  tconn :: "nat option"
  topen :: "nat fset"
  nextConn :: nat
  recvCh :: "recvItem list"
  recvClosed :: bool
  tclosed :: bool
  backoff :: duration
  sup :: sup_phase
  closer :: close_phase
  readLog :: "bytes list"
  recvLog :: "bytes list"

definition minBackoff :: duration where
  "minBackoff = 250 * millisecond"

definition maxBackoff :: duration where
  "maxBackoff = 30 * second"

definition Dial :: "cli_env \<Rightarrow> cliConfig \<Rightarrow> dialError + (cliConfig \<times> transport)" where
  "Dial e cfg =
     (if cliURL cfg = [] then Inl URLRequired
      else if \<not> cliTLS cfg then Inl TLSConfigRequired
      else case cliIdentity cfg of
        None \<Rightarrow> Inl IdentityRequired
      | Some ident \<Rightarrow>
          let cfg1 = (if IdlePingInterval cfg = 0 then cfg\<lparr>IdlePingInterval := DefaultIdlePingInterval\<rparr> else cfg);
              cfg2 = (if DialTimeout cfg1 = 0 then cfg1\<lparr>DialTimeout := DefaultDialTimeout\<rparr> else cfg1);
              cfg3 = (if RecvBuffer cfg2 \<le> 0 then cfg2\<lparr>RecvBuffer := DefaultRecvBuffer\<rparr> else cfg2)
          in case dialAndAuth e cfg3 ident of
               Some err \<Rightarrow> Inl err
             | None \<Rightarrow>
                 Inr (cfg3, \<lparr>tcap = nat (RecvBuffer cfg3), tconn = Some 0, topen = {|0|}, nextConn = 1, recvCh = [],
                   recvClosed = False, tclosed = False, backoff = minBackoff, sup = Top, closer = NotClosing,
                   readLog = [], recvLog = []\<rparr>))"

datatype sendResult = SendErrClosed | SendErrReconnecting | SendFailed | SentBytes nat

text \<open>\<^verbatim>\<open>Send\<close> run without interference; \<open>ok\<close> is the answer of \<^verbatim>\<open>conn.Write\<close>.\<close>

definition Send :: "transport \<Rightarrow> bytes \<Rightarrow> bool \<Rightarrow> sendResult \<times> transport" where
  "Send t frame ok =
     (if tclosed t then (SendErrClosed, t)
      else case tconn t of
        None \<Rightarrow> (SendErrReconnecting, t)
      | Some c \<Rightarrow> if ok then (SentBytes (length frame), t) else (SendFailed, t\<lparr>tconn := None\<rparr>))"

datatype recvResult = RecvFrame bytes | RecvErrClosed

text \<open>\<^verbatim>\<open>Recv\<close>; \<open>None\<close> means that it waits.\<close>

definition Recv :: "transport \<Rightarrow> (recvResult \<times> transport) option" where
  "Recv t =
     (case recvCh t of
        item # rest \<Rightarrow>
          (case item of
             Frame f \<Rightarrow> Some (RecvFrame f, t\<lparr>recvCh := rest, recvLog := recvLog t @ [f]\<rparr>)
           | ErrItem \<Rightarrow> Some (RecvErrClosed, t\<lparr>recvCh := rest\<rparr>))
      | [] \<Rightarrow> if recvClosed t then Some (RecvErrClosed, t) else None)"

definition nextBackoff :: "duration \<Rightarrow> duration" where
  "nextBackoff b = (if maxBackoff < b * 2 then maxBackoff else b * 2)"

section \<open>Steps\<close>

text \<open>
  The supervisor (\<^verbatim>\<open>supervise\<close> with \<^verbatim>\<open>drainReads\<close> and \<^verbatim>\<open>sleepOrClosed\<close>), \<^verbatim>\<open>Close\<close>, and the callers of \<^verbatim>\<open>Send\<close>
  and \<^verbatim>\<open>Recv\<close>, one access to the shared state at a time.  A send of \<^verbatim>\<open>recvCh\<close> waits for room.
\<close>

inductive sup_step :: "transport \<Rightarrow> transport \<Rightarrow> bool" where
  top_closed: "sup t = Top \<Longrightarrow> tclosed t \<Longrightarrow> sup_step t (t\<lparr>sup := SupDone\<rparr>)"
| top: "sup t = Top \<Longrightarrow> \<not> tclosed t \<Longrightarrow> sup_step t (t\<lparr>sup := PickConn\<rparr>)"
| pick: "sup t = PickConn \<Longrightarrow> tconn t = Some c \<Longrightarrow> sup_step t (t\<lparr>sup := DrainHead c\<rparr>)"
| pick_none: "sup t = PickConn \<Longrightarrow> tconn t = None \<Longrightarrow> sup_step t (t\<lparr>sup := Sleeping\<rparr>)"
| drain_closed: "sup t = DrainHead c \<Longrightarrow> tclosed t \<Longrightarrow> sup_step t (t\<lparr>sup := AfterDrain c\<rparr>)"
| drain: "sup t = DrainHead c \<Longrightarrow> \<not> tclosed t \<Longrightarrow> sup_step t (t\<lparr>sup := Reading c\<rparr>)"
| read_closed: "sup t = Reading c \<Longrightarrow> tclosed t \<Longrightarrow>
    sup_step t (t\<lparr>sup := AfterDrain c, recvCh := if length (recvCh t) < tcap t then recvCh t @ [ErrItem] else recvCh t\<rparr>)"
| read_error: "sup t = Reading c \<Longrightarrow> \<not> tclosed t \<Longrightarrow> sup_step t (t\<lparr>sup := AfterDrain c\<rparr>)"
| read_text: "sup t = Reading c \<Longrightarrow> sup_step t (t\<lparr>sup := DrainHead c\<rparr>)"
| read_binary: "sup t = Reading c \<Longrightarrow> sup_step t (t\<lparr>sup := Delivering c f, readLog := readLog t @ [f]\<rparr>)"
| deliver: "sup t = Delivering c f \<Longrightarrow> length (recvCh t) < tcap t \<Longrightarrow>
    sup_step t (t\<lparr>sup := DrainHead c, recvCh := recvCh t @ [Frame f]\<rparr>)"
| after_closed: "sup t = AfterDrain c \<Longrightarrow> tclosed t \<Longrightarrow> sup_step t (t\<lparr>sup := SupDone\<rparr>)"
| after: "sup t = AfterDrain c \<Longrightarrow> \<not> tclosed t \<Longrightarrow> sup_step t (t\<lparr>sup := Dropping c\<rparr>)"
| dropping: "sup t = Dropping c \<Longrightarrow>
    sup_step t (t\<lparr>sup := Sleeping, tconn := if tconn t = Some c then None else tconn t, topen := topen t |-| {|c|}\<rparr>)"
| awake: "sup t = Sleeping \<Longrightarrow> sup_step t (t\<lparr>sup := Dialing\<rparr>)"
| sleep_closed: "sup t = Sleeping \<Longrightarrow> tclosed t \<Longrightarrow> sup_step t (t\<lparr>sup := SupDone\<rparr>)"
| dial_closed: "sup t = Dialing \<Longrightarrow> tclosed t \<Longrightarrow> sup_step t (t\<lparr>sup := SupDone\<rparr>)"
| dial_failed: "sup t = Dialing \<Longrightarrow> \<not> tclosed t \<Longrightarrow> dialAndAuth e cfg ident \<noteq> None \<Longrightarrow>
    sup_step t (t\<lparr>sup := Top, backoff := nextBackoff (backoff t)\<rparr>)"
| dial_ok: "sup t = Dialing \<Longrightarrow> \<not> tclosed t \<Longrightarrow> dialAndAuth e cfg ident = None \<Longrightarrow>
    sup_step t (t\<lparr>sup := Install (nextConn t), topen := finsert (nextConn t) (topen t), nextConn := nextConn t + 1\<rparr>)"
| install: "sup t = Install c \<Longrightarrow> sup_step t (t\<lparr>sup := Top, tconn := Some c, backoff := minBackoff\<rparr>)"

inductive close_step :: "transport \<Rightarrow> transport \<Rightarrow> bool" where
  flag: "closer t = NotClosing \<Longrightarrow> close_step t (t\<lparr>closer := Flagged, tclosed := True\<rparr>)"
| cancel: "closer t = Flagged \<Longrightarrow> close_step t (t\<lparr>closer := Cancelled\<rparr>)"
| take_conn: "closer t = Cancelled \<Longrightarrow> close_step t (t\<lparr>closer := TookConn (tconn t), tconn := None\<rparr>)"
| close_conn: "closer t = TookConn c \<Longrightarrow>
    close_step t (t\<lparr>closer := AwaitSup, topen := case c of None \<Rightarrow> topen t | Some i \<Rightarrow> topen t |-| {|i|}\<rparr>)"
| finish: "closer t = AwaitSup \<Longrightarrow> sup t = SupDone \<Longrightarrow> close_step t (t\<lparr>closer := Closed, recvClosed := True\<rparr>)"

inductive user_step :: "transport \<Rightarrow> transport \<Rightarrow> bool" where
  send_failed: "tconn t = Some c \<Longrightarrow> user_step t (t\<lparr>tconn := None\<rparr>)"
| recv: "Recv t = Some (r, t') \<Longrightarrow> user_step t t'"

definition cli_step :: "transport \<Rightarrow> transport \<Rightarrow> bool" where
  "cli_step t t' \<longleftrightarrow> sup_step t t' \<or> close_step t t' \<or> user_step t t'"

inductive cli_reach :: "transport \<Rightarrow> bool" where
  start: "Dial e cfg = Inr (cfg', t) \<Longrightarrow> cli_reach t"
| more: "cli_reach t \<Longrightarrow> cli_step t t' \<Longrightarrow> cli_reach t'"

section \<open>Invariant\<close>

fun pendingFrame :: "sup_phase \<Rightarrow> bytes list" where
  "pendingFrame (Delivering c f) = [f]"
| "pendingFrame _ = []"

fun frames :: "recvItem list \<Rightarrow> bytes list" where
  "frames [] = []"
| "frames (Frame f # is) = f # frames is"
| "frames (ErrItem # is) = frames is"

lemma frames_append [simp]: "frames (a @ b) = frames a @ frames b"
  by (induction a rule: frames.induct) simp_all

definition backoff_ok :: "duration \<Rightarrow> bool" where
  "backoff_ok b \<longleftrightarrow> (\<exists>k. b = min maxBackoff (minBackoff * 2 ^ k))"

definition cli_inv :: "transport \<Rightarrow> bool" where
  "cli_inv t \<longleftrightarrow>
     0 < tcap t \<and> length (recvCh t) \<le> tcap t
     \<and> readLog t = recvLog t @ frames (recvCh t) @ pendingFrame (sup t)
     \<and> backoff_ok (backoff t)
     \<and> (tclosed t \<longleftrightarrow> closer t \<noteq> NotClosing)
     \<and> (recvClosed t \<longleftrightarrow> closer t = Closed)
     \<and> (closer t = Closed \<longrightarrow> sup t = SupDone) \<and> (sup t = SupDone \<longrightarrow> tclosed t)
     \<and> (ErrItem \<in> set (recvCh t) \<longrightarrow> tclosed t)"

lemma backoff_ok_min [simp]: "backoff_ok minBackoff"
  unfolding backoff_ok_def by (rule exI [of _ 0]) (simp add: minBackoff_def maxBackoff_def duration_defs)

lemma backoff_ok_next [simp]: "backoff_ok b \<Longrightarrow> backoff_ok (nextBackoff b)"
proof -
  assume "backoff_ok b"
  then obtain k where "b = min maxBackoff (minBackoff * 2 ^ k)" unfolding backoff_ok_def by blast
  then have "nextBackoff b = min maxBackoff (minBackoff * 2 ^ (k + 1))"
    by (auto simp: nextBackoff_def maxBackoff_def minBackoff_def min_def duration_defs)
  then show ?thesis unfolding backoff_ok_def by blast
qed

lemma cli_start_inv: "Dial e cfg = Inr (cfg', t) \<Longrightarrow> cli_inv t"
  by (auto simp: Dial_def cli_inv_def Let_def DefaultRecvBuffer_def split: if_splits option.splits)

lemma sup_step_inv: "sup_step t t' \<Longrightarrow> cli_inv t \<Longrightarrow> cli_inv t'"
  by (induction rule: sup_step.induct) (auto simp: cli_inv_def)

lemma close_step_inv: "close_step t t' \<Longrightarrow> cli_inv t \<Longrightarrow> cli_inv t'"
  by (induction rule: close_step.induct) (auto simp: cli_inv_def)

lemma user_step_inv: "user_step t t' \<Longrightarrow> cli_inv t \<Longrightarrow> cli_inv t'"
  by (induction rule: user_step.induct) (auto simp: cli_inv_def Recv_def split: list.splits recvItem.splits if_splits)

lemma cli_reach_inv: "cli_reach t \<Longrightarrow> cli_inv t"
  by (induction rule: cli_reach.induct) (auto simp: cli_step_def cli_start_inv intro: sup_step_inv close_step_inv user_step_inv)

section \<open>Sleeping\<close>

text \<open>
  \<^verbatim>\<open>sleepOrClosed\<close>: the flag is polled every tenth of a second until the timer fires after \<open>d\<close>.  \<open>closedAt\<close>
  is the time, from the start, at which the flag is set, and \<open>timerFirst\<close> which case the \<^verbatim>\<open>select\<close> takes when
  both are ready.  The result comes with the time of the return.
\<close>

definition pollTick :: duration where
  "pollTick = 100 * millisecond"

definition sleepOrClosed :: "duration \<Rightarrow> bool \<Rightarrow> duration option \<Rightarrow> bool \<times> duration" where
  "sleepOrClosed d timerFirst closedAt =
     (let polls = filter (\<lambda>j. int j * pollTick < d \<or> (int j * pollTick = d \<and> \<not> timerFirst)) [1..<nat (d div pollTick) + 1];
          seen = (\<lambda>j. case closedAt of None \<Rightarrow> False | Some c \<Rightarrow> c \<le> int j * pollTick)
      in case List.find seen polls of Some j \<Rightarrow> (True, int j * pollTick) | None \<Rightarrow> (False, d))"

lemma find_least:
  "sorted xs \<Longrightarrow> y \<in> set xs \<Longrightarrow> P y \<Longrightarrow> \<exists>x. List.find P xs = Some x \<and> x \<le> (y :: nat)"
  by (induction xs) auto

section \<open>Properties\<close>

text \<open>
  C18: client and bridge agree on the handshake.  A client whose identity is the key the bridge has on
  record, answering a challenge the bridge issued, writes a reply that the bridge accepts for the
  client's node id, as long as it arrives within the allowed age; and the client succeeds once it
  reads the bridge's confirmation.
\<close>

theorem handshake_agreement:
  assumes "nonceBytes b = Some nonce" "nonce \<noteq> []" "challengeSent b" "okSent b"
    "chRead e = ReadMsg MessageText body" "parseChallenge e body = Some ch" "cliType ch = ''auth_challenge''"
    "cliNonce ch = chNonce (authChallenge nonce (clkChallenge b))" "cliTimestamp ch = chTimestamp (authChallenge nonce (clkChallenge b))"
    "replySent e" "okRead e = ReadMsg MessageText okBody" "parseOK e okBody = Some ''auth_ok''"
    "replyRead b = ReadMsg MessageText (the (snd (cli_runAuth e cfg ident)))" "parseReply b (marshalReply e (authReply e cfg ident ch)) = Some (authReply e cfg ident ch)"
    "cliNodeID cfg \<noteq> 0" "lookup (cliNodeID cfg) = (idPublic ident, True)" "length (idPublic ident) = PublicKeySize"
    "\<forall>msg. length (idSign ident msg) = SignatureSize \<and> verify (idPublic ident) msg (idSign ident msg)"
    "0 \<le>s Unix (clkAge b) - Unix (clkChallenge b)" "Unix (clkAge b) - Unix (clkChallenge b) \<le>s maxAuthAge"
  shows "fst (cli_runAuth e cfg ident) = None \<and> wss_runAuth verify lookup b = Some (Inr (cliNodeID cfg))"
proof -
  have "hexString nonce \<noteq> []" using assms(2) by (cases nonce) (simp_all add: hexString_def)
  then have c: "cli_runAuth e cfg ident = (None, Some (marshalReply e (authReply e cfg ident ch)))"
    using assms(5-12) by (simp add: cli_runAuth_def authChallenge_def Let_def)
  have age: "\<not> Unix (clkAge b) - Unix (clkChallenge b) <s 0" "\<not> maxAuthAge <s Unix (clkAge b) - Unix (clkChallenge b)"
    using assms(19,20) by (simp_all add: word_sless_alt word_sle_eq)
  have "checkReply verify lookup (authChallenge nonce (clkChallenge b)) (clkAge b) True (authReply e cfg ident ch) = Some (Inr (cliNodeID cfg))"
    using assms(8,9,15-18) age by (simp add: checkReply_def authReply_def authChallenge_def ed25519_Verify_def Let_def)
  then show ?thesis using assms(1,3,4,13,14) c by (simp add: wss_runAuth_def)
qed

definition exIdent :: identity where
  "exIdent = \<lparr>idPublic = replicate 32 7, idSign = (\<lambda>_. replicate 64 9)\<rparr>"

definition exCli :: cliConfig where
  "exCli = \<lparr>cliURL = ''wss://b'', cliTLS = True, cliIdentity = Some exIdent, cliNodeID = 7, IdlePingInterval = 0, DialTimeout = 0,
     RecvBuffer = 1\<rparr>"

definition exChallenge :: cliChallenge where
  "exChallenge = \<lparr>cliType = ''auth_challenge'', cliNonce = hexString [1, 2], cliTimestamp = Unix (at_s 5)\<rparr>"

definition exCliEnv :: cli_env where
  "exCliEnv = \<lparr>dialed = True, chRead = ReadMsg MessageText [], parseChallenge = (\<lambda>_. Some exChallenge), encodeKey = (\<lambda>_. []),
     marshalReply = (\<lambda>_. [1]), replySent = True, okRead = ReadMsg MessageText [], parseOK = (\<lambda>_. Some ''auth_ok'')\<rparr>"

definition exAuth :: auth_env where
  "exAuth = \<lparr>nonceBytes = Some [1, 2], clkChallenge = at_s 5, challengeSent = True, replyRead = ReadMsg MessageText [1],
     parseReply = (\<lambda>_. Some (authReply exCliEnv exCli exIdent exChallenge)), clkAge = at_s 9, okSent = True\<rparr>"

lemma exCli_auth: "cli_runAuth exCliEnv exCli exIdent = (None, Some [1])"
  by (simp add: cli_runAuth_def exCliEnv_def exChallenge_def hexString_def)

theorem handshake_agreement_witness:
  "wss_runAuth (\<lambda>_ _ _. True) (\<lambda>_. (replicate 32 7, True)) exAuth = Some (Inr 7)"
proof -
  have u: "Unix (at_s 9) - Unix (at_s 5) = 4" by (simp add: Unix_def at_s_def duration_defs unixToInternal_def)
  have "fst (cli_runAuth exCliEnv exCli exIdent) = None
      \<and> wss_runAuth (\<lambda>_ _ _. True) (\<lambda>_. (replicate 32 7, True)) exAuth = Some (Inr (cliNodeID exCli))"
    by (rule handshake_agreement [of exAuth "[1, 2]" exCliEnv "[]" exChallenge "[]" exCli exIdent])
      (simp_all add: exCli_auth, simp_all add: exAuth_def exCliEnv_def exChallenge_def exCli_def exIdent_def authChallenge_def
        PublicKeySize_def SignatureSize_def maxAuthAge_def u word_sle_eq)
  then show ?thesis by (simp add: exCli_def)
qed

text \<open>
  C28: Frames are received once and in order.  In every reachable state, what \<^verbatim>\<open>Recv\<close> has returned,
  what waits in the channel and the frame being handed over are together exactly the binary frames
  read so far, across reconnections, and the channel never exceeds its capacity.
\<close>

theorem client_frames_in_order:
  assumes "cli_reach t"
  shows "readLog t = recvLog t @ frames (recvCh t) @ pendingFrame (sup t) \<and> length (recvCh t) \<le> tcap t"
  using cli_reach_inv [OF assms] by (simp add: cli_inv_def)

text \<open>
  The delay between attempts to reconnect is a quarter of a second doubled some number of times and
  never more than half a minute; it doubles after a failure until it reaches that limit.
\<close>

theorem client_backoff_bounded:
  assumes "cli_reach t"
  shows "minBackoff \<le> backoff t \<and> backoff t \<le> maxBackoff \<and> (\<exists>k. backoff t = min maxBackoff (minBackoff * 2 ^ k))
    \<and> (nextBackoff ^^ 7) minBackoff = maxBackoff"
proof -
  obtain k where k: "backoff t = min maxBackoff (minBackoff * 2 ^ k)"
    using cli_reach_inv [OF assms] by (auto simp: cli_inv_def backoff_ok_def)
  have "minBackoff * 1 \<le> minBackoff * 2 ^ k" by (intro mult_left_mono) (simp_all add: minBackoff_def duration_defs)
  moreover have "(nextBackoff ^^ 7) minBackoff = maxBackoff" by code_simp
  ultimately show ?thesis using k by (auto simp: minBackoff_def maxBackoff_def duration_defs)
qed

text \<open>
  C37: \<^verbatim>\<open>Close\<close> is final.  Once it has returned the supervisor is gone, every \<^verbatim>\<open>Send\<close> is refused, and \<^verbatim>\<open>Recv\<close>
  never waits: it hands out what is left in the channel and then reports that the transport is closed.
\<close>

theorem client_closed_final:
  assumes "cli_reach t" "closer t = Closed"
  shows "Send t f ok = (SendErrClosed, t) \<and> \<not> sup_step t t' \<and> Recv t \<noteq> None \<and> (recvCh t = [] \<longrightarrow> Recv t = Some (RecvErrClosed, t))"
proof -
  have t: "tclosed t" "sup t = SupDone" "recvClosed t"
    using cli_reach_inv [OF assms(1)] assms(2) by (simp_all add: cli_inv_def)
  have "\<not> sup_step t t'" using t(2) by (auto elim: sup_step.cases)
  then show ?thesis using t by (auto simp: Send_def Recv_def split: list.splits recvItem.splits)
qed

text \<open>
  Sleeping between attempts ends in time.  It never outlasts the delay; it reports that the transport
  was closed only if it was; and a \<^verbatim>\<open>Close\<close> at least a tenth of a second before the end of the delay is
  noticed within a tenth of a second.
\<close>

theorem sleep_notices_close:
  assumes "0 \<le> d" "sleepOrClosed d timerFirst closedAt = (r, at)"
  shows "at \<le> d \<and> (r \<longrightarrow> (\<exists>c. closedAt = Some c \<and> c \<le> at)) \<and> (\<forall>c. closedAt = Some c \<longrightarrow> 0 \<le> c \<longrightarrow> c + pollTick < d \<longrightarrow> r \<and> at \<le> c + pollTick)"
proof -
  define polls where "polls = filter (\<lambda>j. int j * pollTick < d \<or> (int j * pollTick = d \<and> \<not> timerFirst)) [1..<nat (d div pollTick) + 1]"
  define seen where "seen = (\<lambda>j. case closedAt of None \<Rightarrow> False | Some c \<Rightarrow> c \<le> int j * pollTick)"
  have eq: "(r, at) = (case List.find seen polls of Some j \<Rightarrow> (True, int j * pollTick) | None \<Rightarrow> (False, d))"
    using assms(2) by (simp add: sleepOrClosed_def polls_def seen_def Let_def)
  have tick: "0 < pollTick" by (simp add: pollTick_def duration_defs)
  have sound: "at \<le> d \<and> (r \<longrightarrow> (\<exists>c. closedAt = Some c \<and> c \<le> at))"
  proof (cases "List.find seen polls")
    case (Some j)
    then have "j \<in> set polls" "seen j" by (auto simp: find_Some_iff)
    then show ?thesis using eq Some by (auto simp: polls_def seen_def split: option.splits)
  qed (use eq in simp)
  have "r \<and> at \<le> c + pollTick" if c: "closedAt = Some c" "0 \<le> c" "c + pollTick < d" for c
  proof -
    define k where "k = nat (c div pollTick) + 1"
    have "int k = c div pollTick + 1" using c(2) tick by (simp add: k_def pos_imp_zdiv_nonneg_iff)
    then have "int k * pollTick = pollTick * (c div pollTick) + pollTick" by (simp add: algebra_simps)
    then have k: "int k * pollTick \<le> c + pollTick" "c < int k * pollTick"
      using mult_div_mod_eq [of pollTick c] pos_mod_bound [OF tick, of c] pos_mod_sign [OF tick, of c] by linarith+
    have "int k \<le> d div pollTick" using zdiv_mono1 [of "int k * pollTick" d pollTick] k(1) c(3) tick by simp
    then have "1 \<le> k" "k < nat (d div pollTick) + 1" by (simp add: k_def, linarith)
    then have "k \<in> set [1..<nat (d div pollTick) + 1]" by (simp only: set_upt atLeastLessThan_iff simp_thms)
    moreover have "int k * pollTick < d" using k(1) c(3) by linarith
    ultimately have "k \<in> set polls" unfolding polls_def by (simp only: set_filter mem_Collect_eq simp_thms)
    moreover have "seen k" using k(2) c(1) by (simp add: seen_def)
    moreover have "sorted polls" unfolding polls_def by (intro sorted_wrt_filter sorted_upt)
    ultimately obtain j where j: "List.find seen polls = Some j" "j \<le> k" using find_least by blast
    have "int j * pollTick \<le> int k * pollTick" using j(2) tick by simp
    then show ?thesis using eq j(1) k(1) by simp
  qed
  then show ?thesis using sound by blast
qed

theorem sleep_notices_close_witness:
  "\<exists>at. sleepOrClosed maxBackoff True (Some (150 * millisecond)) = (True, at) \<and> at \<le> 250 * millisecond"
proof -
  obtain r at where e: "sleepOrClosed maxBackoff True (Some (150 * millisecond)) = (r, at)" by force
  then show ?thesis
    using sleep_notices_close [OF _ e] by (simp add: maxBackoff_def pollTick_def duration_defs)
qed

text \<open>The state after a successful \<^verbatim>\<open>Dial\<close> with room for one frame.\<close>

definition exDialed :: transport where
  "exDialed = \<lparr>tcap = 1, tconn = Some 0, topen = {|0|}, nextConn = 1, recvCh = [], recvClosed = False, tclosed = False,
     backoff = minBackoff, sup = Top, closer = NotClosing, readLog = [], recvLog = []\<rparr>"

lemma exDialed_reach: "cli_reach exDialed"
proof (rule cli_reach.start)
  show "Dial exCliEnv exCli = Inr (exCli\<lparr>IdlePingInterval := DefaultIdlePingInterval, DialTimeout := DefaultDialTimeout\<rparr>, exDialed)"
    using exCli_auth by (simp add: Dial_def dialAndAuth_def cli_runAuth_def exCliEnv_def exCli_def exDialed_def exChallenge_def hexString_def Let_def)
qed

lemma via_sup: "cli_reach t \<Longrightarrow> sup_step t t' \<Longrightarrow> cli_reach t'"
  by (rule cli_reach.more) (auto simp: cli_step_def)

lemma via_close: "cli_reach t \<Longrightarrow> close_step t t' \<Longrightarrow> cli_reach t'"
  by (rule cli_reach.more) (auto simp: cli_step_def)

lemma exReading: "cli_reach (exDialed\<lparr>sup := Reading 0\<rparr>)"
proof -
  have "cli_reach (exDialed\<lparr>sup := PickConn\<rparr>)"
    using via_sup [OF exDialed_reach sup_step.top] by (simp add: exDialed_def)
  then have "cli_reach (exDialed\<lparr>sup := DrainHead 0\<rparr>)"
    using via_sup [OF _ sup_step.pick, of "exDialed\<lparr>sup := PickConn\<rparr>" 0] by (simp add: exDialed_def)
  then show ?thesis
    using via_sup [OF _ sup_step.drain, of "exDialed\<lparr>sup := DrainHead 0\<rparr>" 0] by (simp add: exDialed_def)
qed

lemma close_to_await:
  assumes "cli_reach t" "closer t = NotClosing"
  shows "cli_reach (t\<lparr>tclosed := True, tconn := None, topen := (case tconn t of None \<Rightarrow> topen t | Some i \<Rightarrow> topen t |-| {|i|}), closer := AwaitSup\<rparr>)"
proof -
  let ?t1 = "t\<lparr>closer := Flagged, tclosed := True\<rparr>"
  let ?t2 = "t\<lparr>closer := Cancelled, tclosed := True\<rparr>"
  let ?t3 = "t\<lparr>closer := TookConn (tconn t), tclosed := True, tconn := None\<rparr>"
  have "cli_reach ?t1" by (rule via_close [OF assms(1) close_step.flag [OF assms(2)]])
  then have "cli_reach ?t2" using via_close [OF _ close_step.cancel, of ?t1] by (cases t) simp
  then have "cli_reach ?t3" using via_close [OF _ close_step.take_conn, of ?t2] by (cases t) simp
  then show ?thesis using via_close [OF _ close_step.close_conn, of ?t3 "tconn t"]
    by (cases "tconn t"; cases t) simp_all
qed

lemma exClosed:
  "cli_reach (exDialed\<lparr>tconn := None, topen := {||}, tclosed := True, sup := SupDone, closer := Closed, recvClosed := True\<rparr>)"
proof -
  let ?t1 = "exDialed\<lparr>tconn := None, topen := {||}, tclosed := True, closer := AwaitSup\<rparr>"
  have "cli_reach ?t1" using close_to_await [OF exDialed_reach] by (simp add: exDialed_def)
  then have "cli_reach (?t1\<lparr>sup := SupDone\<rparr>)"
    using via_sup [OF _ sup_step.top_closed, of ?t1] by (simp add: exDialed_def)
  then show ?thesis
    using via_close [OF _ close_step.finish, of "?t1\<lparr>sup := SupDone\<rparr>"] by (simp add: exDialed_def)
qed

theorem client_closed_final_witness:
  "fst (Send (exDialed\<lparr>tconn := None, topen := {||}, tclosed := True, sup := SupDone, closer := Closed, recvClosed := True\<rparr>) [1] True)
     = SendErrClosed"
  using client_closed_final [OF exClosed, of "[1]" True] by simp

theorem client_frames_in_order_witness:
  "cli_reach (exDialed\<lparr>sup := Reading 0\<rparr>) \<and> readLog (exDialed\<lparr>sup := Reading 0\<rparr>) = []"
  using client_frames_in_order [OF exReading] exReading by (simp add: exDialed_def)

theorem client_backoff_bounded_witness: "minBackoff \<le> backoff (exDialed\<lparr>sup := Reading 0\<rparr>)"
  using client_backoff_bounded [OF exReading] by blast

text \<open>
  \<^verbatim>\<open>Close\<close> can wait for ever.  There is a reachable state in which it waits for the supervisor while the
  supervisor waits for room in the channel, and neither can move: the other case of the supervisor's
  \<^verbatim>\<open>select\<close> is the channel that only its own return closes.
\<close>

theorem client_close_stuck:
  "\<exists>t. cli_reach t \<and> closer t = AwaitSup \<and> tclosed t \<and> (\<forall>t'. \<not> sup_step t t' \<and> \<not> close_step t t')"
proof -
  let ?t1 = "exDialed\<lparr>sup := Reading 0, readLog := [[1]], recvCh := [Frame [1]]\<rparr>"
  let ?t2 = "exDialed\<lparr>sup := Delivering 0 [2], readLog := [[1], [2]], recvCh := [Frame [1]]\<rparr>"
  have "cli_reach (exDialed\<lparr>sup := Delivering 0 [1], readLog := [[1]]\<rparr>)"
    using via_sup [OF exReading sup_step.read_binary, of 0 "[1]"] by (simp add: exDialed_def)
  then have "cli_reach (exDialed\<lparr>sup := DrainHead 0, readLog := [[1]], recvCh := [Frame [1]]\<rparr>)"
    using via_sup [OF _ sup_step.deliver, of "exDialed\<lparr>sup := Delivering 0 [1], readLog := [[1]]\<rparr>" 0 "[1]"] by (simp add: exDialed_def)
  then have "cli_reach ?t1"
    using via_sup [OF _ sup_step.drain, of "exDialed\<lparr>sup := DrainHead 0, readLog := [[1]], recvCh := [Frame [1]]\<rparr>" 0] by (simp add: exDialed_def)
  then have "cli_reach ?t2"
    using via_sup [OF _ sup_step.read_binary, of ?t1 0 "[2]"] by (simp add: exDialed_def)
  then have "cli_reach (?t2\<lparr>tclosed := True, tconn := None, topen := {|0|} |-| {|0|}, closer := AwaitSup\<rparr>)"
    using close_to_await [of ?t2] by (simp add: exDialed_def)
  then show ?thesis
    by (intro exI [of _ "?t2\<lparr>tclosed := True, tconn := None, topen := {|0|} |-| {|0|}, closer := AwaitSup\<rparr>"])
      (auto simp: exDialed_def elim: sup_step.cases close_step.cases)
qed

text \<open>
  \<^verbatim>\<open>Close\<close> can leave a connection open.  The supervisor tests the closed flag after a successful dial
  and installs the connection afterwards; when \<^verbatim>\<open>Close\<close> runs in between, it returns with a connection
  installed that nobody closes.
\<close>

theorem client_close_leak: "\<exists>t c. cli_reach t \<and> closer t = Closed \<and> tconn t = Some c \<and> c |\<in>| topen t"
proof -
  let ?t1 = "exDialed\<lparr>sup := Sleeping, tconn := None, topen := {||}\<rparr>"
  let ?t2 = "exDialed\<lparr>sup := Install 1, tconn := None, topen := {|1|}, nextConn := 2\<rparr>"
  let ?t3 = "exDialed\<lparr>sup := Install 1, tconn := None, topen := {|1|}, nextConn := 2, tclosed := True, closer := AwaitSup\<rparr>"
  have "cli_reach (exDialed\<lparr>sup := AfterDrain 0\<rparr>)"
    using via_sup [OF exReading sup_step.read_error, of 0] by (simp add: exDialed_def)
  then have "cli_reach (exDialed\<lparr>sup := Dropping 0\<rparr>)"
    using via_sup [OF _ sup_step.after, of "exDialed\<lparr>sup := AfterDrain 0\<rparr>" 0] by (simp add: exDialed_def)
  then have "cli_reach ?t1"
    using via_sup [OF _ sup_step.dropping, of "exDialed\<lparr>sup := Dropping 0\<rparr>" 0] by (simp add: exDialed_def)
  then have "cli_reach (?t1\<lparr>sup := Dialing\<rparr>)"
    using via_sup [OF _ sup_step.awake, of ?t1] by (simp add: exDialed_def)
  then have "cli_reach ?t2"
    using via_sup [OF _ sup_step.dial_ok, of "?t1\<lparr>sup := Dialing\<rparr>" exCliEnv exCli exIdent] exCli_auth
    by (simp add: exDialed_def dialAndAuth_def exCliEnv_def numeral_2_eq_2 One_nat_def)
  then have "cli_reach ?t3" using close_to_await [of ?t2] by (simp add: exDialed_def)
  then have "cli_reach (?t3\<lparr>sup := Top, tconn := Some 1\<rparr>)"
    using via_sup [OF _ sup_step.install, of ?t3 1] by (simp add: exDialed_def)
  then have "cli_reach (?t3\<lparr>sup := SupDone, tconn := Some 1\<rparr>)"
    using via_sup [OF _ sup_step.top_closed, of "?t3\<lparr>sup := Top, tconn := Some 1\<rparr>"] by (simp add: exDialed_def)
  then have "cli_reach (?t3\<lparr>sup := SupDone, tconn := Some 1, closer := Closed, recvClosed := True\<rparr>)"
    using via_close [OF _ close_step.finish, of "?t3\<lparr>sup := SupDone, tconn := Some 1\<rparr>"] by (simp add: exDialed_def)
  then show ?thesis
    by (intro exI [of _ "?t3\<lparr>sup := SupDone, tconn := Some 1, closer := Closed, recvClosed := True\<rparr>"] exI [of _ 1]) (simp add: exDialed_def)
qed

end
