(* ===== verification/Spec2Isabelle.thy ===== *)
theory Spec2Isabelle
  imports Progress Process Interleave WssClient
begin

text \<open>
  A verification of the beacon: a UDP server through which nodes learn their public endpoint, punch
  holes and relay packets, with a WebSocket bridge for nodes that cannot use UDP, a gossip mesh between
  beacons and a registry that lists them.

  \<^bold>\<open>Parts, and the theories that model them.\<close>
  \<^item> \<open>Prelude\<close>, \<open>NetAddr\<close>, \<open>Encoding\<close>: machine words, byte slices, the big-endian codec, clock readings,
    Go maps, panics as values (\<open>outcome\<close>), the parts of \<^verbatim>\<open>net\<close> and \<^verbatim>\<open>strconv\<close> that are used, and the text
    encodings of the handshake.
  \<^item> \<open>Shards\<close>, \<open>NodeMap\<close> (\<^verbatim>\<open>nodes_shard.go\<close>), \<open>RateLimit\<close> (\<^verbatim>\<open>ratelimit_shard.go\<close>): the node table and
    the three limiters.  The locale \<open>sharding\<close> shows that an array of shards is one flat map; it is
    interpreted for the table and each limiter.  \<open>node_registry\<close> and \<open>interval_limiter\<close> are the contracts
    the server relies on, interpreted on the table and on the discover and punch limiters.
  \<^item> \<open>WssServer\<close> (\<^verbatim>\<open>wss/server.go\<close>): the bridge, its handshake, and its handlers as the relation \<open>wss_step\<close>.
  \<^item> \<open>BeaconState\<close> (\<^verbatim>\<open>server.go\<close>, \<^verbatim>\<open>recover.go\<close>): the record \<open>server\<close> for \<^verbatim>\<open>Server\<close>, constants, constructor,
    setters, recovery, and the invariant \<open>server_inv\<close>.
  \<^item> \<open>Discover\<close>, \<open>Punch\<close>, \<open>Relay\<close>, \<open>Gossip\<close> (\<^verbatim>\<open>server.go\<close>): the handlers, the relay workers, the clean-up.
  \<^item> \<open>Packets\<close>, \<open>Registry\<close>, \<open>Lifecycle\<close> (\<^verbatim>\<open>server.go\<close>): dispatch and receive loop, registry exchange, start
    and stop.
  \<^item> \<open>System\<close>: the process as the relation \<open>beacon_step\<close>, composed of all of the above.
  \<^item> \<open>RelayConc\<close> (\<^verbatim>\<open>server.go\<close>): the relay path again, one step per access to shared state, as \<open>relay_step\<close>.
  \<^item> \<open>Buffers\<close>, \<open>BufferRefine\<close> (\<^verbatim>\<open>server.go\<close>): the same with the receive buffers and the two pools as arrays
    of a memory in which slices may alias, as \<open>pool_step\<close>, and its refinement to \<open>relay_step\<close>.
  \<^item> \<open>Progress\<close>: the own steps of one worker and one reader of \<open>pool_step\<close>, whatever happens in between.
  \<^item> \<open>TableConc\<close> (\<^verbatim>\<open>nodes_shard.go\<close>): \<^verbatim>\<open>Len\<close>, \<^verbatim>\<open>IDs\<close> and \<^verbatim>\<open>ReapStale\<close> one shard at a time, interleaved with the
    other operations of the table, as \<open>table_step\<close>.
  \<^item> \<open>Tasks\<close>, \<open>Interleave\<close> (\<^verbatim>\<open>server.go\<close>): the handlers of registration, punch requests and gossip and the
    clean-up again, one step per access to shared state, and all of them with the relay path as \<open>inter_step\<close>.
  \<^item> \<open>WssClient\<close> (\<^verbatim>\<open>wss/internal/daemonwss/wss.go\<close>): the client of the bridge, its supervisor as \<open>sup_step\<close>.
  \<^item> \<open>BeaconMain\<close>, \<open>Process\<close> (\<^verbatim>\<open>cmd/beacon/main.go\<close>, \<^verbatim>\<open>reuseport_linux.go\<close>, \<^verbatim>\<open>reuseport_other.go\<close>): from flags
    and environment to a configured server, the run of the process to its exit as \<open>main_step\<close>, the
    creation of sockets, the statistics log and the values reported.

  \<^bold>\<open>State and surroundings.\<close>  A handler is a function on \<open>server\<close>.  What it reads from outside is an
  argument: clock readings and socket answers (\<open>env\<close>, \<open>wenv\<close>), constants of \<^verbatim>\<open>common/protocol\<close> and signature
  verification (\<open>externs\<close>), the connection, JSON and address resolution (\<open>reg_env\<close>), the map iteration
  order (\<open>it\<close>).  Datagrams sent are recorded in \<open>outbox\<close>.

  \<^bold>\<open>What is shown.\<close>  In this theory: the invariant of every run, that no input makes the beacon panic, and
  that a relayed packet is sent; and that a registry exchange forgets configured peers.  In the
  components: refinement of the sharded table to a flat map and its capacity; spacing and budgets of the
  limiters; authentication, replacement and closing of bridge connections; registration, punching and
  its grants on every branch; order and accounting of relayed packets; round trips of relay frames,
  gossip and the handshake; withdrawal of stale routes; transparency of batched reading; error paths of
  the registry exchange; order, back-off and closing of the client.  For the relay path: that the fine
  steps amount to the turns of \<open>Relay\<close>, that the invariant holds in every interleaving of them, and that
  pooled buffers, each with one holder, refine packets as values; and that no goroutine of it waits for
  another, with a bound on the steps between two visits of a worker to its \<^verbatim>\<open>select\<close>.  For the table: what
  its loops over the shards return when other goroutines change it meanwhile.  For all handlers: that their
  fine steps amount to the handlers, and that the invariant and the need of a grant survive every
  interleaving of them.  For the process: that its settings
  stay in force, with tokens required no punch without a grant, and how it exits.  Some theorems state
  where the code departs from its comments; they are proved of the code as it is.

  \<^bold>\<open>Granularity and bounds.\<close>  In \<open>beacon_step\<close> one packet, one turn of a worker, one tick, one bridge step
  or one call is atomic, so the theorems on \<open>beacon_reach\<close> do not cover interleavings inside a handler.
  \<open>inter_step\<close> does: a handler takes one step per access to shared state, and \<^verbatim>\<open>peerWriteMu\<close> is modelled as
  a lock.  What is one step there: a call of a limiter, a sweep of one, the check of a grant, the checks of \<^verbatim>\<open>dispatchRelay\<close> up to
  the copy of the payload, a registry exchange, and a call of the embedding program.  \<open>pool_step\<close> adds the
  buffers to the steps of the relay path.  The bridge and the client have steps of their own; a handler of
  the bridge that relays a frame is a reader of \<open>relay_step\<close>.  In the fine steps a panic is possible, when
  \<^verbatim>\<open>CloseCompatWSS\<close> runs between two reads of the bridge by a worker.  Runs start with fewer than \<open>2 ^ 32\<close>
  processors.  No definition uses fuel: loops recurse on their input, and \<open>readLoop\<close> has a termination
  proof.  \<open>beacon_never_panics\<close> assumes that the batch call reports no negative count.  \<open>relay_delivered\<close> is
  about a worker whose sockets accept what it sends and which is not interrupted by other steps; it assumes
  no fairness of the scheduler and claims none.

  \<^bold>\<open>Not modelled.\<close>  Log lines other than the relay statistics; socket buffer sizes; what is not under
  \<^verbatim>\<open>src/\<close> and is a parameter instead: the system calls, the HTTP servers, TLS and the WebSocket library,
  JSON, signatures, the configuration package, and the parser of flags.
\<close>

section \<open>The running beacon\<close>

text \<open>
  C1: what holds at every moment of every run.  However the goroutines interleave, whatever arrives on
  the sockets and over the bridge and whatever the sockets answer: the node table stays within its
  capacity and its shards in order; every queued packet is in the queue of its destination, no larger
  than a datagram, and no queue exceeds its capacity; every route to another beacon has a sync of its
  owner on record; every cached key has the length of a key; and a worker whose batch is not empty has
  armed its timer, so that no packet is left waiting.
\<close>

theorem beacon_invariant:
  assumes "beacon_reach x it P b" "s = srv b"
  shows "node_wf (nodes s) \<and> int (Len (nodes s)) \<le> maxBeaconNodes
    \<and> (\<forall>i < length (relayChs s). length (relayChs s ! i) \<le> relayChCap s \<and>
         (\<forall>job \<in> set (relayChs s ! i). unat (destID job) mod length (relayChs s) = i \<and> length (payload job) \<le> maxRelayPayload))
    \<and> (\<forall>k a. fmlookup (peerNodes s) k = Some a \<longrightarrow> fmlookup (gossipSeen s) (UDPAddrString a) \<noteq> None)
    \<and> (\<forall>k pub. fmlookup (nodePubKeys s) k = Some pub \<longrightarrow> length pub = PublicKeySize)
    \<and> (\<forall>(a, w) \<in> set (workers b). length (msgs w) < relayBatchCap \<and> (msgs w \<noteq> [] \<longrightarrow> timerActive w))"
proof -
  have inv: "beacon_inv x b" "server_inv s" using beacon_reach_inv [OF assms(1)] beacon_invD(1) [of x b] assms(2) by auto
  have "int (Len (nodes s)) \<le> maxBeaconNodes"
    by (intro shard_caps_Len server_inv_wf inv) (simp add: maxBeaconNodes_def)
  moreover have "\<forall>(a, w) \<in> set (workers b). length (msgs w) < relayBatchCap \<and> (msgs w \<noteq> [] \<longrightarrow> timerActive w)"
    using inv(1) by (simp add: beacon_inv_def worker_ok_def)
  ultimately show ?thesis
    using inv(2) by (simp add: server_inv_def queues_ok_def job_ok_def routes_ok_def keys_ok_def list_all_iff)
qed

theorem beacon_invariant_witness:
  "beacon_reach exExterns sorted_list_of_fset batch_ok exRegisters \<and> int (Len (nodes (srv exRegisters))) \<le> maxBeaconNodes"
  using beacon_invariant [OF exRegisters_reach [of sorted_list_of_fset batch_ok] refl] exRegisters_reach by blast



text \<open>
  C3: a relayed packet is delivered.  In any reachable state, a packet for a registered node that is
  within its source's budget and finds room in its queue is put on the wire by the worker of that
  queue, working on its own through what it has before it: the datagrams waiting in its batch, those of
  the jobs queued earlier, in order, and then this one, framed for the node's registered address.
\<close>

theorem relay_delivered:
  assumes "beacon_reach x it P b" "ready b" "s = srv b" "healthy e" "distinct (inbound_types x)"
    "data = BeaconMsgRelay x # be_PutUint32 sender @ be_PutUint32 dest @ body" "length body \<le> maxRelayPayload"
    "\<not> fst (breakerOpen s ''beacon.relay'')" "Snapshot (nodes s) dest = Some a"
    "fst (relay_allow (relayRL s) (relaySourceForUDP (Some remote)) (UnixNano (clk e0 0)) maxRelaysPerSourcePerSecond)"
    "i = unat dest mod length (relayChs s)" "length (relayChs s ! i) < relayChCap s"
    "\<not> wssConnected s dest" "\<forall>job \<in> set (relayChs s ! i). \<not> wssConnected s (destID job)"
  shows "\<exists>s' w'. workerSettles x i e (handlePacket x e0 s data remote) (snd (workers b ! i)) = (s', w')
    \<and> relayChs s' ! i = [] \<and> msgs w' = []
    \<and> outbox s' = outbox s @ msgs (snd (workers b ! i)) @ routed x s (relayChs s ! i) @
        [(a, (if dest |\<in>| dstNodes s then frameDeliverDest x else frameDeliver x) \<lparr>senderID = sender, destID = dest, payload = body\<rparr>)]"
proof -
  let ?job = "\<lparr>senderID = sender, destID = dest, payload = body\<rparr>"
  let ?d = "be_PutUint32 sender @ be_PutUint32 dest @ body"
  have inv: "beacon_inv x b" "server_inv s" using beacon_reach_inv [OF assms(1)] beacon_invD(1) [of x b] assms(3) by auto
  obtain rl where rl: "relay_allow (relayRL s) (relaySourceForUDP (Some remote)) (UnixNano (clk e0 0)) maxRelaysPerSourcePerSecond = (True, rl)"
    using assms(10) by (metis prod.collapse)
  have d: "8 \<le> length ?d" "uint32_at ?d 0 = Some sender" "uint32_at ?d 4 = Some dest" "length ?d \<le> maxRelayPayload + 8" "drop 8 ?d = body"
    using uint32_at_Put [of "[]" 0 sender] uint32_at_Put [of "be_PutUint32 sender" 4 dest] assms(7) by simp_all
  have known: "relayKnown s dest" using assms(9) by (auto simp: relayKnown_def Snapshot_abs split: option.splits)
  note q = dispatch_queues [OF inv(2) d(1) assms(8) d(2,3) known rl d(4) assms(11)]
  let ?s1 = "s\<lparr>relayRL := rl, relayChs := (relayChs s)[i := relayChs s ! i @ [?job]]\<rparr>"
  have dr: "dispatchRelay e0 s ?d (relaySourceForUDP (Some remote)) = Done ?s1" using q(2) assms(12) d(5) by simp
  have hp: "handlePacket x e0 s data remote = ?s1"
    using assms(5) dr by (auto simp: handlePacket_def handlePacketFrom_def dispatchPacket_def assms(6) inbound_types_def recoverHandler_def)
  have s1: "server_inv ?s1" using handlePacketFrom_inv [OF inv(2), of x e0 data remote 0] hp by (simp add: handlePacket_def)
  have w: "worker_ok (snd (workers b ! i))"
    using beacon_invD(4) [OF inv(1)] q(1) inv(1) assms(2,3) by (simp add: beacon_inv_def)
  have sr: "same_routes s ?s1" by (simp add: same_routes_def)
  have nw: "\<forall>job \<in> set (relayChs ?s1 ! i). \<not> wssConnected ?s1 (destID job)"
    using assms(13,14) q(1) by (auto simp: same_routes_wss [OF sr])
  obtain s' w' where r: "workerSettles x i e ?s1 (snd (workers b ! i)) = (s', w')" "relayChs s' = (relayChs ?s1)[i := []]" "msgs w' = []"
      "outbox s' = outbox ?s1 @ msgs (snd (workers b ! i)) @ routed x ?s1 (relayChs ?s1 ! i)"
    by (rule workerSettles_sends [OF s1 _ w assms(4) nw]) (use q(1) in simp)
  have "routed x ?s1 (relayChs ?s1 ! i) = routed x s (relayChs s ! i) @
      [(a, (if dest |\<in>| dstNodes s then frameDeliverDest x else frameDeliver x) ?job)]"
    using assms(9) q(1) by (simp add: same_routes_routed [OF sr] routed_append relayRoute_def)
  then show ?thesis using r q(1) by (simp add: hp)
qed

theorem relay_delivered_witness:
  "\<exists>s' w'. workerSettles exExterns 7 exShort (handlePacket exExterns (exEnv 2) (srv exRegisters) [5, 0, 0, 0, 3, 0, 0, 0, 7, 42] exAddr)
       (snd (workers exRegisters ! 7)) = (s', w') \<and> (exAddr, [6, 0, 0, 0, 3, 42]) \<in> set (outbox s')"
proof -
  note F = exRegisters_fields
  let ?s = "srv exRegisters"
  have h: "distinct (inbound_types exExterns)"
      "[5, 0, 0, 0, 3, 0, 0, 0, 7, 42] = BeaconMsgRelay exExterns # be_PutUint32 3 @ be_PutUint32 7 @ [42]"
      "length [42 :: byte] \<le> maxRelayPayload" "\<not> fst (breakerOpen ?s ''beacon.relay'')" "Snapshot (nodes ?s) 7 = Some exAddr"
      "fst (relay_allow (relayRL ?s) (relaySourceForUDP (Some exAddr)) (UnixNano (clk (exEnv 2) 0)) maxRelaysPerSourcePerSecond)"
      "7 = unat (7 :: nodeid) mod length (relayChs ?s)" "length (relayChs ?s ! 7) < relayChCap ?s"
      "\<not> wssConnected ?s 7" "\<forall>job \<in> set (relayChs ?s ! 7). \<not> wssConnected ?s (destID job)"
    by (simp_all add: F inbound_types_def exExterns_def be_PutUint32_def maxRelayPayload_def breakerOpen_def relay_allow_fst window_step_def
        wssConnected_def)
  obtain s' w' where "workerSettles exExterns 7 exShort (handlePacket exExterns (exEnv 2) ?s [5, 0, 0, 0, 3, 0, 0, 0, 7, 42] exAddr)
       (snd (workers exRegisters ! 7)) = (s', w')"
      "(exAddr, frameDeliver exExterns \<lparr>senderID = 3, destID = 7, payload = [42]\<rparr>) \<in> set (outbox s')"
    using relay_delivered [OF exRegisters_reach [of sorted_list_of_fset batch_ok] F(1) refl exShort_healthy h] by (force simp: F(8))
  moreover have "frameDeliver exExterns \<lparr>senderID = 3, destID = 7, payload = [42]\<rparr> = [6, 0, 0, 0, 3, 42]"
    by (simp add: frameDeliver_def exExterns_def be_PutUint32_def)
  ultimately show ?thesis by simp
qed

text \<open>
  Discovery replaces the configured peers.  After a complete exchange with the registry, a beacon
  that enforces the peer set ignores the gossip of a peer it was configured with at start unless the
  registry lists that peer's address too.
\<close>

theorem registry_forgets_configured:
  assumes "registryDiscover e reply s = Done (s', c)" "s' \<noteq> s" "strictGossip s" "p \<in> set (peers s)"
    "\<forall>q. (\<exists>b. resolveUDP e b = Some q) \<longrightarrow> \<not> IPEqual (IP q) (IP p)"
  shows "handleSync e' s' data p = Done s'"
proof -
  obtain r where s': "s' = s\<lparr>peers := newPeers e (beaconID s) (beaconsOf r)\<rparr>"
    using registryDiscover_changes [OF assms(1,2)] by blast
  have "\<not> IPEqual (IP q) (IP p)" if "q \<in> set (peers s')" for q
    using that assms(5) newPeers_resolved [of q e "beaconID s" "beaconsOf r"] by (auto simp: s')
  then show ?thesis using assms(3) by (auto simp: handleSync_def isKnownGossipPeer_def list_ex_iff s')
qed

definition exPeer :: udpaddr where
  "exPeer = \<lparr>IP = [10, 0, 0, 9], Port = 9001, Zone = []\<rparr>"

definition exConfigured :: server where
  "exConfigured = exRegistered\<lparr>strictGossip := True, peers := [exPeer]\<rparr>"

theorem registry_forgets_configured_witness:
  "\<exists>s' c. registryDiscover exReg (regFrame [1] @ regFrame [2] @ []) exConfigured = Done (s', c)
     \<and> handleSync (exEnv 3) s' [0, 0, 0, 2, 0, 1, 0, 0, 0, 9] exPeer = Done s'"
proof -
  let ?bs = "[(''beacons'', JArray [JObject [(''id'', JNumber 1), (''addr'', JString ''a:1'')],
                              JObject [(''id'', JNumber 2), (''addr'', JString ''b:1'')], JNull])]"
  obtain c where c: "registryDiscover exReg (regFrame [1] @ regFrame [2] @ []) exConfigured =
      Done (exConfigured\<lparr>peers := List.map_filter (listedPeer exReg (beaconID exConfigured)) (beaconsOf ?bs)\<rparr>, c)"
    using registryDiscover_exchange [of exConfigured exReg "''c:1''" "[3]" "[1]" "regFrame [1] @ regFrame [2] @ []" "[1]" "[2]" "[]" "[]" ?bs]
    by (auto simp: exConfigured_def exRegistered_def exReg_def myAddr_def regMsg_def listMsg_def exServer_def NewWithPeers_def Let_def)
  have "List.map_filter (listedPeer exReg (beaconID exConfigured)) (beaconsOf ?bs) = [exAddr]"
    by (simp add: exConfigured_def exRegistered_def exReg_def beaconsOf_def listedPeer_def map_filter_simps)
  then have "exConfigured\<lparr>peers := List.map_filter (listedPeer exReg (beaconID exConfigured)) (beaconsOf ?bs)\<rparr> \<noteq> exConfigured"
    by (auto simp: exConfigured_def exPeer_def exAddr_def dest: arg_cong [of _ _ peers])
  then show ?thesis
    using registry_forgets_configured [OF c, of exPeer "exEnv 3" "[0, 0, 0, 2, 0, 1, 0, 0, 0, 9]"] c
    by (auto simp: exConfigured_def exPeer_def exReg_def exAddr_def IPEqual_def)
qed

end
